(* ===== verification/Go_Prelude.thy ===== *)
theory Go_Prelude
  imports Main "HOL-Library.Word"
begin

text \<open>
  The prelude of the development: the machine integers and byte strings of Go, the
  result type of fallible functions, the parts of the standard packages \<open>strings\<close>,
  \<open>bytes\<close> and \<open>encoding/binary\<close> that the program uses, and the generic lemmas the
  component theories share.

  A Go string is a sequence of bytes, so names, labels and buffers are all lists of
  \<open>8 word\<close>.  A function returning \<open>(T, error)\<close> is a function into \<open>'e + 'a\<close>, with
  \<open>Inl\<close> for the error.
\<close>

unbundle bit_operations_syntax

named_theorems wire_simps \<open>unfolding rules for the message codec\<close>
named_theorems name_simps \<open>unfolding rules for the operations on domain names\<close>

section \<open>Types\<close>

type_synonym byte = "8 word"
type_synonym u16 = "16 word"
type_synonym u32 = "32 word"
type_synonym gostr = "byte list"

section \<open>Results\<close>

definition bindR :: "'e + 'a \<Rightarrow> ('a \<Rightarrow> 'e + 'b) \<Rightarrow> 'e + 'b" where
  "bindR m f = (case m of Inl e \<Rightarrow> Inl e | Inr x \<Rightarrow> f x)"

lemma bindR_Inl [simp]: "bindR (Inl e) f = Inl e"
  by (simp add: bindR_def)

lemma bindR_Inr [simp]: "bindR (Inr x) f = f x"
  by (simp add: bindR_def)

lemma bindR_eq_Inr: "bindR m f = Inr y \<longleftrightarrow> (\<exists>x. m = Inr x \<and> f x = Inr y)"
  by (cases m) auto

lemma bindR_eq_Inl: "bindR m f = Inl e \<longleftrightarrow> m = Inl e \<or> (\<exists>x. m = Inr x \<and> f x = Inl e)"
  by (cases m) auto

lemma bindR_cong [fundef_cong]:
  "m = m' \<Longrightarrow> (\<And>x. m' = Inr x \<Longrightarrow> f x = g x) \<Longrightarrow> bindR m f = bindR m' g"
  by (cases m') auto

lemma bindR_assoc: "bindR (bindR m f) g = bindR m (\<lambda>x. bindR (f x) g)"
  by (cases m) auto

section \<open>Strings\<close>

text \<open>\<open>lit\<close> turns a literal into the bytes Go's compiler would give it.\<close>

definition lit :: "string \<Rightarrow> gostr" where
  "lit s = map of_char s"

definition dot :: byte where
  "dot = 46"

definition HasSuffix :: "gostr \<Rightarrow> gostr \<Rightarrow> bool" where
  "HasSuffix s t = (length t \<le> length s \<and> drop (length s - length t) s = t)"

text \<open>\<open>strings.TrimSuffix(s, ".")\<close>.\<close>

definition trimDot :: "gostr \<Rightarrow> gostr" where
  "trimDot s = (if s \<noteq> [] \<and> last s = dot then butlast s else s)"

text \<open>\<open>strings.Split(s, ".")\<close> and \<open>strings.Join(ls, ".")\<close>.\<close>

fun splitDot :: "gostr \<Rightarrow> gostr list" where
  "splitDot [] = [[]]"
| "splitDot (c # cs) =
     (if c = dot then [] # splitDot cs
      else (case splitDot cs of [] \<Rightarrow> [[c]] | l # ls \<Rightarrow> (c # l) # ls))"

fun joinDot :: "gostr list \<Rightarrow> gostr" where
  "joinDot [] = []"
| "joinDot [l] = l"
| "joinDot (l # k # ls) = l @ dot # joinDot (k # ls)"

text \<open>
  Unicode.  \<open>strings.ToLower\<close>, \<open>ToUpper\<close>, \<open>EqualFold\<close>, \<open>Fields\<close> and \<open>TrimSpace\<close> work
  byte by byte when their arguments are ASCII; on any other argument they decode UTF-8
  and consult the Unicode tables.  The first half is modelled here; the second half is a
  parameter, an element of the record \<open>unicode\<close>, about which nothing is assumed; a string
  is equal to itself whatever the tables say.
\<close>

record unicode =
  lower_nonascii :: "gostr \<Rightarrow> gostr"
  upper_nonascii :: "gostr \<Rightarrow> gostr"
  fold_nonascii :: "gostr \<Rightarrow> gostr \<Rightarrow> bool"
  fields_nonascii :: "gostr \<Rightarrow> gostr list"
  trim_nonascii :: "gostr \<Rightarrow> gostr"

text \<open>One such element, used where a concrete one is needed: it leaves non-ASCII strings alone.\<close>

definition plainUnicode :: unicode where
  "plainUnicode = \<lparr>lower_nonascii = (\<lambda>s. s), upper_nonascii = (\<lambda>s. s),
     fold_nonascii = (\<lambda>s t. s = t), fields_nonascii = (\<lambda>s. [s]),
     trim_nonascii = (\<lambda>s. s)\<rparr>"

definition lowerByte :: "byte \<Rightarrow> byte" where
  "lowerByte b = (if 65 \<le> b \<and> b \<le> 90 then b + 32 else b)"

definition upperByte :: "byte \<Rightarrow> byte" where
  "upperByte b = (if 97 \<le> b \<and> b \<le> 122 then b - 32 else b)"

definition isASCII :: "gostr \<Rightarrow> bool" where
  "isASCII s = list_all (\<lambda>b. b < 128) s"

definition ToLower :: "unicode \<Rightarrow> gostr \<Rightarrow> gostr" where
  "ToLower u s = (if isASCII s then map lowerByte s else lower_nonascii u s)"

definition ToUpper :: "unicode \<Rightarrow> gostr \<Rightarrow> gostr" where
  "ToUpper u s = (if isASCII s then map upperByte s else upper_nonascii u s)"

definition EqualFold :: "unicode \<Rightarrow> gostr \<Rightarrow> gostr \<Rightarrow> bool" where
  "EqualFold u s t =
     (if isASCII s \<and> isASCII t then map lowerByte s = map lowerByte t
      else s = t \<or> fold_nonascii u s t)"

text \<open>\<open>strings.Compare\<close> and \<open>bytes.Compare\<close>: lexicographic on the bytes.\<close>

fun compareBytes :: "gostr \<Rightarrow> gostr \<Rightarrow> int" where
  "compareBytes [] [] = 0"
| "compareBytes [] (_ # _) = -1"
| "compareBytes (_ # _) [] = 1"
| "compareBytes (a # as) (b # bs) =
     (if a < b then -1 else if b < a then 1 else compareBytes as bs)"

text \<open>
  \<open>cutDot\<close> is \<open>strings.Cut(s, ".")\<close>: the part before the first dot, the part after it,
  and whether there was one.
\<close>

fun cutDot :: "gostr \<Rightarrow> gostr \<times> gostr \<times> bool" where
  "cutDot [] = ([], [], False)"
| "cutDot (c # cs) =
     (if c = dot then ([], cs, True)
      else (case cutDot cs of (a, b, found) \<Rightarrow> (c # a, b, found)))"

section \<open>Time\<close>

text \<open>
  An instant is the number of nanoseconds since some epoch, as an \<open>int\<close>, and a
  \<open>time.Duration\<close> the number of nanoseconds it lasts.
\<close>

definition second :: int where
  "second = 1000000000"

definition seconds :: "u32 \<Rightarrow> int" where
  "seconds ttl = uint ttl * second"

section \<open>Big-endian integers\<close>

definition be16 :: "byte \<Rightarrow> byte \<Rightarrow> u16" where
  "be16 a b = (push_bit 8 (ucast a) OR ucast b)"

definition be32 :: "byte \<Rightarrow> byte \<Rightarrow> byte \<Rightarrow> byte \<Rightarrow> u32" where
  "be32 a b c d =
     (push_bit 24 (ucast a) OR push_bit 16 (ucast b) OR push_bit 8 (ucast c) OR ucast d)"

definition put16 :: "u16 \<Rightarrow> byte list" where
  "put16 v = [ucast (drop_bit 8 v), ucast v]"

definition put32 :: "u32 \<Rightarrow> byte list" where
  "put32 v = [ucast (drop_bit 24 v), ucast (drop_bit 16 v), ucast (drop_bit 8 v), ucast v]"

section \<open>Lemmas on lists\<close>

lemma drop_ConsD: "drop n xs = y # ys \<Longrightarrow> n < length xs \<and> xs ! n = y \<and> drop (n + 1) xs = ys"
proof -
  assume d: "drop n xs = y # ys"
  then have "n < length xs" by (metis drop_eq_Nil list.distinct(1) not_less)
  with d show ?thesis by (metis Cons_nth_drop_Suc Suc_eq_plus1 list.inject)
qed

lemma drop_appendD: "drop n xs = ys @ zs \<Longrightarrow> drop (n + length ys) xs = zs"
  by (metis add.commute append_eq_conv_conj drop_drop)

section \<open>Lemmas on strings\<close>

lemma splitDot_not_Nil [simp]: "splitDot s \<noteq> []"
  by (cases s) (auto split: list.splits)

lemma joinDot_Cons: "joinDot (l # ls) = (if ls = [] then l else l @ dot # joinDot ls)"
  by (cases ls) auto

lemma joinDot_splitDot [simp]: "joinDot (splitDot s) = s"
proof (induction s)
  case (Cons c cs)
  obtain l ls where s: "splitDot cs = l # ls" by (cases "splitDot cs") auto
  with Cons show ?case by (cases "c = dot") (auto simp: joinDot_Cons)
qed simp

lemma splitDot_no_dot: "l \<in> set (splitDot s) \<Longrightarrow> dot \<notin> set l"
proof (induction s arbitrary: l)
  case (Cons c cs)
  obtain k ks where s: "splitDot cs = k # ks" by (cases "splitDot cs") auto
  with Cons show ?case by (fastforce split: if_splits)
qed simp

lemma splitDot_nodot_append:
  "dot \<notin> set l \<Longrightarrow> splitDot (l @ dot # s) = l # splitDot s"
  by (induction l) auto

lemma splitDot_nodot: "dot \<notin> set l \<Longrightarrow> splitDot l = [l]"
  by (induction l) auto

lemma splitDot_joinDot:
  "ls \<noteq> [] \<Longrightarrow> (\<And>l. l \<in> set ls \<Longrightarrow> dot \<notin> set l) \<Longrightarrow> splitDot (joinDot ls) = ls"
  by (induction ls rule: joinDot.induct) (auto simp: splitDot_nodot splitDot_nodot_append)

lemma set_joinDot: "set (joinDot ls) \<subseteq> insert dot (\<Union> (set ` set ls))"
  by (induction ls rule: joinDot.induct) auto

lemma joinDot_labels_subset: "l \<in> set ls \<Longrightarrow> set l \<subseteq> set (joinDot ls)"
  by (induction ls rule: joinDot.induct) auto

lemma joinDot_append:
  "joinDot (ls @ ks) = (if ls = [] then joinDot ks else if ks = [] then joinDot ls
     else joinDot ls @ dot # joinDot ks)"
  by (induction ls rule: joinDot.induct) (auto simp: joinDot_Cons)

lemma length_joinDot:
  "ls \<noteq> [] \<Longrightarrow> Suc (length (joinDot ls)) = (\<Sum>l\<leftarrow>ls. Suc (length l))"
  by (induction ls rule: joinDot.induct) auto

lemma last_joinDot:
  "ls \<noteq> [] \<Longrightarrow> last ls \<noteq> [] \<Longrightarrow> joinDot ls \<noteq> [] \<and> last (joinDot ls) = last (last ls)"
  by (induction ls rule: joinDot.induct) auto

lemma cutDot_shorter: "cutDot s = (a, b, True) \<Longrightarrow> length b < length s"
  by (induction s arbitrary: a) (auto split: if_splits prod.splits)

lemma cutDot_split: "cutDot s = (a, b, True) \<Longrightarrow> s = a @ dot # b"
  by (induction s arbitrary: a) (auto split: if_splits prod.splits)

lemma lowerByte_idem [simp]: "lowerByte (lowerByte b) = lowerByte b"
proof -
  have "\<not> (65 \<le> b + 32 \<and> b + 32 \<le> 90)" if "65 \<le> b \<and> b \<le> 90"
    using that by unat_arith
  then show ?thesis by (auto simp: lowerByte_def)
qed

lemma lowerByte_ascii: "b < 128 \<Longrightarrow> lowerByte b < 128"
  unfolding lowerByte_def by unat_arith

lemma lowerByte_dot [simp]: "lowerByte b = dot \<longleftrightarrow> b = dot"
  unfolding lowerByte_def dot_def by unat_arith

lemma isASCII_simps [simp]:
  "isASCII []" "isASCII (b # s) \<longleftrightarrow> b < 128 \<and> isASCII s"
  "isASCII (s @ t) \<longleftrightarrow> isASCII s \<and> isASCII t"
  by (auto simp: isASCII_def)

lemma isASCII_set: "isASCII s \<longleftrightarrow> (\<forall>b\<in>set s. b < 128)"
  by (simp add: isASCII_def list_all_iff)

lemma isASCII_dot [simp]: "dot < 128"
  by (simp add: dot_def)

lemma isASCII_map_lower [simp]: "isASCII s \<Longrightarrow> isASCII (map lowerByte s)"
  by (auto simp: isASCII_set lowerByte_ascii)

lemma isASCII_joinDot: "isASCII (joinDot ls) \<longleftrightarrow> (\<forall>l\<in>set ls. isASCII l)"
  by (induction ls rule: joinDot.induct) auto

lemma isASCII_splitDot: "isASCII s \<Longrightarrow> l \<in> set (splitDot s) \<Longrightarrow> isASCII l"
  using isASCII_joinDot [of "splitDot s"] by simp

lemma isASCII_trimDot [simp]: "isASCII s \<Longrightarrow> isASCII (trimDot s)"
  by (auto simp: trimDot_def isASCII_set dest: in_set_butlastD)

lemma trimDot_map_lower: "trimDot (map lowerByte s) = map lowerByte (trimDot s)"
  by (auto simp: trimDot_def map_butlast last_map)

lemma splitDot_map_lower: "splitDot (map lowerByte s) = map (map lowerByte) (splitDot s)"
  by (induction s) (auto split: list.splits)

lemma joinDot_map_lower: "joinDot (map (map lowerByte) ls) = map lowerByte (joinDot ls)"
proof -
  have d: "dot = lowerByte dot" by (simp only: lowerByte_dot [THEN iffD2])
  show ?thesis
    by (induction ls rule: joinDot.induct) (use d in auto)
qed

section \<open>Lemmas on big-endian integers\<close>

lemma be16_put16 [simp]: "be16 (ucast (drop_bit 8 v)) (ucast v) = v"
  unfolding be16_def
  by (rule bit_word_eqI) (auto simp: bit_simps)

lemma byte_high_bits: "\<not> bit (b :: byte) (8 + n)"
  using bit_imp_le_length [of b "8 + n"] by auto

lemma put16_be16 [simp]: "put16 (be16 a b) = [a, b]"
  unfolding put16_def be16_def
  by (auto intro!: bit_word_eqI simp: bit_simps byte_high_bits)

lemma be32_put32 [simp]:
  "be32 (ucast (drop_bit 24 v)) (ucast (drop_bit 16 v)) (ucast (drop_bit 8 v)) (ucast v) = v"
  unfolding be32_def
proof (rule bit_word_eqI, goal_cases)
  case (1 n)
  then consider "n < 8" | "8 \<le> n" "n < 16" | "16 \<le> n" "n < 24" | "24 \<le> n" "n < 32"
    by force
  then show ?case by cases (auto simp: bit_simps)
qed

lemma length_put16 [simp]: "length (put16 v) = 2"
  by (simp add: put16_def)

lemma length_put32 [simp]: "length (put32 v) = 4"
  by (simp add: put32_def)

end
