(* ===== verification/Dns_Names.thy ===== *)
theory Dns_Names
  imports Go_Prelude "HOL-Library.Sublist"
begin

text \<open>
  Domain names.  The packages \<open>dnssec\<close> and \<open>resolver\<close> each carry their own copy of the
  same small operations on dotted names: splitting into labels, comparing without regard
  to case, testing whether one name is under another, and ordering names the way DNSSEC
  does.  They are modelled once here, and related to a label-level reading of names:
  \<open>canon n\<close> is the list of lowercased labels, and being a subdomain is being an extension
  of that list to the left.
\<close>

section \<open>Operations\<close>

text \<open>\<open>splitName\<close> of \<open>dnssec\<close>, which \<open>resolver\<close> calls \<open>labelsOf\<close>.\<close>

definition splitName :: "gostr \<Rightarrow> gostr list" where
  "splitName name =
     (let name = trimDot name in if name = [] then [] else splitDot name)"

definition equalName :: "unicode \<Rightarrow> gostr \<Rightarrow> gostr \<Rightarrow> bool" where
  "equalName u a b = EqualFold u (trimDot a) (trimDot b)"

definition isSubdomainOrEqual :: "unicode \<Rightarrow> gostr \<Rightarrow> gostr \<Rightarrow> bool" where
  "isSubdomainOrEqual u name zone =
     (let name = ToLower u (trimDot name); zone = ToLower u (trimDot zone)
      in if zone = [] then True
         else if name = zone then True
         else HasSuffix name (dot # zone))"

definition isProperSubdomain :: "unicode \<Rightarrow> gostr \<Rightarrow> gostr \<Rightarrow> bool" where
  "isProperSubdomain u name zone =
     (\<not> equalName u name zone \<and> isSubdomainOrEqual u name zone)"

definition normalizeName :: "unicode \<Rightarrow> gostr \<Rightarrow> gostr" where
  "normalizeName u name = ToLower u (trimDot name)"

text \<open>\<open>normalizeZone\<close> and \<open>zoneName\<close> of the delegation cache.\<close>

definition normalizeZone :: "unicode \<Rightarrow> gostr \<Rightarrow> gostr" where
  "normalizeZone u zone = ToLower u (trimDot zone)"

definition zoneName :: "gostr \<Rightarrow> gostr" where
  "zoneName key = (if key = [] then [dot] else key)"

text \<open>The name to ask a server authoritative for \<open>zone\<close> (\<open>resolver/privacy.go\<close>).\<close>

definition labelsOf :: "gostr \<Rightarrow> gostr list" where
  "labelsOf name =
     (let name = trimDot name in if name = [] then [] else splitDot name)"

definition minimizedQName :: "gostr \<Rightarrow> gostr \<Rightarrow> gostr" where
  "minimizedQName qname zone =
     (let full = labelsOf qname; inZone = labelsOf zone
      in if length full \<le> length inZone then qname
         else joinDot (drop (length full - length inZone - 1) full))"

text \<open>
  Three-way comparison of lists: the index loops of \<open>CompareNames\<close> walk both label lists
  from the last element to the first, which is a lexicographic comparison of the reversed
  lists.
\<close>

fun lexCmp :: "('a \<Rightarrow> 'a \<Rightarrow> int) \<Rightarrow> 'a list \<Rightarrow> 'a list \<Rightarrow> int" where
  "lexCmp cmp [] [] = 0"
| "lexCmp cmp [] (_ # _) = -1"
| "lexCmp cmp (_ # _) [] = 1"
| "lexCmp cmp (a # as) (b # bs) =
     (let c = cmp a b in if c \<noteq> 0 then c else lexCmp cmp as bs)"

definition CompareNames :: "unicode \<Rightarrow> gostr \<Rightarrow> gostr \<Rightarrow> int" where
  "CompareNames u a b =
     lexCmp compareBytes (rev (splitName (ToLower u a))) (rev (splitName (ToLower u b)))"

fun sharedTop :: "gostr list \<Rightarrow> gostr list \<Rightarrow> nat" where
  "sharedTop (a # as) (b # bs) = (if a = b then Suc (sharedTop as bs) else 0)"
| "sharedTop _ _ = 0"

definition commonSuffix :: "unicode \<Rightarrow> gostr \<Rightarrow> gostr \<Rightarrow> gostr" where
  "commonSuffix u a b =
     (let al = splitName (ToLower u a); bl = splitName (ToLower u b);
          shared = sharedTop (rev al) (rev bl)
      in if shared = 0 then [] else joinDot (drop (length al - shared) al))"

section \<open>The label-level reading of names\<close>

definition canon :: "gostr \<Rightarrow> gostr list" where
  "canon name = map (map lowerByte) (splitName name)"

lemma labelsOf_eq [simp]: "labelsOf = splitName"
  by (rule ext) (simp add: labelsOf_def splitName_def)

lemma normalizeZone_eq: "normalizeZone = normalizeName"
  by (intro ext) (simp add: normalizeZone_def normalizeName_def)

lemma splitName_Nil [simp]: "splitName [] = []"
  by (simp add: splitName_def trimDot_def)

lemma joinDot_splitName [simp]: "joinDot (splitName n) = trimDot n"
  by (simp add: splitName_def Let_def)

lemma splitName_eq_Nil: "splitName n = [] \<longleftrightarrow> trimDot n = []"
  by (simp add: splitName_def Let_def)

lemma splitName_root [simp]: "trimDot n = [] \<Longrightarrow> splitName n = []"
  by (simp add: splitName_eq_Nil)

lemma splitName_inj: "splitName a = splitName b \<longleftrightarrow> trimDot a = trimDot b"
  by (metis joinDot_splitName splitName_def)

lemma splitName_no_dot: "l \<in> set (splitName n) \<Longrightarrow> dot \<notin> set l"
  by (auto simp: splitName_def Let_def splitDot_no_dot split: if_splits)

lemma splitName_map_lower: "splitName (map lowerByte n) = map (map lowerByte) (splitName n)"
  by (simp add: splitName_def Let_def trimDot_map_lower splitDot_map_lower)

lemma canon_lower [simp]: "canon (map lowerByte n) = canon n"
  by (simp add: canon_def splitName_map_lower comp_def)

lemma joinDot_canon: "joinDot (canon n) = map lowerByte (trimDot n)"
  by (simp add: canon_def joinDot_map_lower)

lemma canon_inj: "canon a = canon b \<longleftrightarrow> map lowerByte (trimDot a) = map lowerByte (trimDot b)"
proof
  assume "map lowerByte (trimDot a) = map lowerByte (trimDot b)"
  then have "trimDot (map lowerByte a) = trimDot (map lowerByte b)"
    by (simp add: trimDot_map_lower)
  then have "splitName (map lowerByte a) = splitName (map lowerByte b)"
    by (simp only: splitName_inj)
  then show "canon a = canon b" by (simp add: canon_def splitName_map_lower)
qed (metis joinDot_canon)

lemma canon_no_dot: "l \<in> set (canon n) \<Longrightarrow> dot \<notin> set l"
  by (auto simp: canon_def dest!: splitName_no_dot) (metis lowerByte_dot)

lemma isASCII_splitName: "isASCII n \<Longrightarrow> l \<in> set (splitName n) \<Longrightarrow> isASCII l"
  by (auto simp: splitName_def Let_def dest: isASCII_splitDot [rotated] split: if_splits)

lemma ToLower_ascii [name_simps]: "isASCII s \<Longrightarrow> ToLower u s = map lowerByte s"
  by (simp add: ToLower_def)

lemma normalizeName_ascii [name_simps]:
  "isASCII n \<Longrightarrow> normalizeName u n = joinDot (canon n)"
  by (simp add: normalizeName_def ToLower_ascii joinDot_canon)

lemma normalizeName_eq_iff:
  "isASCII a \<Longrightarrow> isASCII b \<Longrightarrow> normalizeName u a = normalizeName u b \<longleftrightarrow> canon a = canon b"
  by (simp add: name_simps joinDot_canon canon_inj)

lemma canon_joinDot:
  assumes "ls \<noteq> []" "\<And>l. l \<in> set ls \<Longrightarrow> dot \<notin> set l" "last ls \<noteq> []"
  shows "canon (joinDot ls) = map (map lowerByte) ls"
proof -
  have "last (joinDot ls) = last (last ls)" "joinDot ls \<noteq> []"
    using last_joinDot [OF assms(1,3)] by simp_all
  moreover have "last (last ls) \<noteq> dot" using assms by (metis last_in_set)
  ultimately have "trimDot (joinDot ls) = joinDot ls" by (simp add: trimDot_def)
  then show ?thesis
    using assms \<open>joinDot ls \<noteq> []\<close> by (simp add: canon_def splitName_def splitDot_joinDot)
qed

section \<open>Equality and the subdomain order\<close>

lemma equalName_iff [name_simps]:
  "isASCII a \<Longrightarrow> isASCII b \<Longrightarrow> equalName u a b \<longleftrightarrow> canon a = canon b"
  by (simp add: equalName_def EqualFold_def canon_inj)

lemma HasSuffix_iff: "HasSuffix s t \<longleftrightarrow> suffix t s"
  by (auto simp: HasSuffix_def suffix_def) (metis append_take_drop_id)

lemma splitDot_append_dot: "splitDot (s @ dot # t) = splitDot s @ splitDot t"
proof (induction s)
  case (Cons c s)
  then show ?case by (cases "splitDot s") auto
qed simp

lemma suffix_splitDot:
  "suffix (splitDot z) (splitDot n) \<longleftrightarrow> n = z \<or> suffix (dot # z) n"
proof
  assume "suffix (splitDot z) (splitDot n)"
  then obtain p where p: "splitDot n = p @ splitDot z" by (auto simp: suffix_def)
  then have "n = joinDot (p @ splitDot z)" by (metis joinDot_splitDot)
  then show "n = z \<or> suffix (dot # z) n" by (auto simp: joinDot_append suffix_def)
next
  assume "n = z \<or> suffix (dot # z) n"
  then show "suffix (splitDot z) (splitDot n)"
    by (auto simp: splitDot_append_dot suffix_def)
qed

lemma isSubdomainOrEqual_iff [name_simps]:
  assumes "isASCII n" "isASCII z"
  shows "isSubdomainOrEqual u n z \<longleftrightarrow> suffix (canon z) (canon n)"
proof -
  have lower: "canon m = (if trimDot m = [] then [] else splitDot (map lowerByte (trimDot m)))" for m
    by (simp add: canon_def splitName_def Let_def splitDot_map_lower)
  show ?thesis
    using assms
    by (auto simp: isSubdomainOrEqual_def ToLower_ascii HasSuffix_iff lower Let_def
        suffix_splitDot dest: suffix_length_le)
qed

lemma isProperSubdomain_iff [name_simps]:
  assumes "isASCII n" "isASCII z"
  shows "isProperSubdomain u n z \<longleftrightarrow> strict_suffix (canon z) (canon n)"
  using assms by (auto simp: isProperSubdomain_def equalName_iff isSubdomainOrEqual_iff strict_suffix_def)

lemma isProperSubdomain_length:
  assumes "isASCII n" "isASCII z" "isProperSubdomain u n z"
  shows "length (splitName z) < length (splitName n)"
proof -
  have "length (canon z) < length (canon n)"
    using assms by (metis isProperSubdomain_iff suffix_length_less)
  then show ?thesis by (simp add: canon_def)
qed

end
