(* ===== verification/Wire_Types.thy ===== *)
theory Wire_Types
  imports Dns_Names
begin

text \<open>
  The data of package \<open>dnsmsg\<close>: message, header, question and record, with the fields the
  Go structs have, the record type constants, and the errors of the codec.  A \<open>net.IP\<close>
  that may be nil is a \<open>byte list option\<close>.
\<close>

section \<open>Constants\<close>

abbreviation (input) TypeA :: u16 where "TypeA \<equiv> 1"
abbreviation (input) TypeNS :: u16 where "TypeNS \<equiv> 2"
abbreviation (input) TypeCNAME :: u16 where "TypeCNAME \<equiv> 5"
abbreviation (input) TypeSOA :: u16 where "TypeSOA \<equiv> 6"
abbreviation (input) TypePTR :: u16 where "TypePTR \<equiv> 12"
abbreviation (input) TypeMX :: u16 where "TypeMX \<equiv> 15"
abbreviation (input) TypeAAAA :: u16 where "TypeAAAA \<equiv> 28"
abbreviation (input) TypeOPT :: u16 where "TypeOPT \<equiv> 41"
abbreviation (input) TypeDS :: u16 where "TypeDS \<equiv> 43"
abbreviation (input) TypeRRSIG :: u16 where "TypeRRSIG \<equiv> 46"
abbreviation (input) TypeNSEC :: u16 where "TypeNSEC \<equiv> 47"
abbreviation (input) TypeDNSKEY :: u16 where "TypeDNSKEY \<equiv> 48"
abbreviation (input) TypeNSEC3 :: u16 where "TypeNSEC3 \<equiv> 50"

abbreviation (input) ClassIN :: u16 where "ClassIN \<equiv> 1"

abbreviation (input) RCodeSuccess :: byte where "RCodeSuccess \<equiv> 0"
abbreviation (input) RCodeFormatError :: byte where "RCodeFormatError \<equiv> 1"
abbreviation (input) RCodeServerFailure :: byte where "RCodeServerFailure \<equiv> 2"
abbreviation (input) RCodeNameError :: byte where "RCodeNameError \<equiv> 3"
abbreviation (input) RCodeNotImplemented :: byte where "RCodeNotImplemented \<equiv> 4"
abbreviation (input) RCodeRefused :: byte where "RCodeRefused \<equiv> 5"

abbreviation (input) maxNameLength :: nat where "maxNameLength \<equiv> 255"
abbreviation (input) maxLabelLength :: nat where "maxLabelLength \<equiv> 63"
abbreviation (input) maxCompressionPointerJumps :: nat where "maxCompressionPointerJumps \<equiv> 20"
abbreviation (input) maxPointerOffset :: nat where "maxPointerOffset \<equiv> 16383"

section \<open>Structures\<close>

datatype wireErr =
    ErrUnderrun | ErrPointerUnderrun | ErrTooManyJumps | ErrLabelByte | ErrLabelOverrun
  | ErrNameLength | ErrDotInLabel | ErrRdlengthA | ErrRdlengthAAAA | ErrRdataMismatch
  | ErrNameTooLong | ErrInvalidLabel | ErrNoIPv4 | ErrNoIPv6 | ErrNoSOA

record Header =
  ID :: u16
  QR :: bool
  Opcode :: byte
  AA :: bool
  TC :: bool
  RD :: bool
  RA :: bool
  AD :: bool
  CD :: bool
  RCode :: byte
  QDCount :: u16
  ANCount :: u16
  NSCount :: u16
  ARCount :: u16

definition zeroHeader :: Header where
  "zeroHeader = \<lparr>ID = 0, QR = False, Opcode = 0, AA = False, TC = False, RD = False,
     RA = False, AD = False, CD = False, RCode = 0, QDCount = 0, ANCount = 0, NSCount = 0,
     ARCount = 0\<rparr>"

record Question =
  qName :: gostr
  qType :: u16
  qClass :: u16

record SOA =
  MName :: gostr
  RName :: gostr
  Serial :: u32
  Refresh :: u32
  Retry :: u32
  Expire :: u32
  Minimum :: u32

record RR =
  rrName :: gostr
  rrType :: u16
  rrClass :: u16
  TTL :: u32
  RDLength :: u16
  rrA :: "byte list option"
  rrAAAA :: "byte list option"
  rrNS :: gostr
  rrCNAME :: gostr
  rrSOA :: "SOA option"
  Raw :: "byte list"

text \<open>The zero value a Go composite literal starts from.\<close>

definition zeroRR :: RR where
  "zeroRR = \<lparr>rrName = [], rrType = 0, rrClass = 0, TTL = 0, RDLength = 0, rrA = None,
     rrAAAA = None, rrNS = [], rrCNAME = [], rrSOA = None, Raw = []\<rparr>"

record Message =
  header :: Header
  Questions :: "Question list"
  Answers :: "RR list"
  Authorities :: "RR list"
  Additionals :: "RR list"

section \<open>IP addresses\<close>

text \<open>\<open>net.IP.To4\<close> and \<open>net.IP.To16\<close> of the standard library; \<open>None\<close> is nil.\<close>

definition v4InV6Prefix :: "byte list" where
  "v4InV6Prefix = replicate 10 0 @ [0xFF, 0xFF]"

definition To4 :: "byte list option \<Rightarrow> byte list option" where
  "To4 ip = (case ip of None \<Rightarrow> None
     | Some b \<Rightarrow> (if length b = 4 then Some b
         else if length b = 16 \<and> take 12 b = v4InV6Prefix then Some (drop 12 b)
         else None))"

definition To16 :: "byte list option \<Rightarrow> byte list option" where
  "To16 ip = (case ip of None \<Rightarrow> None
     | Some b \<Rightarrow> (if length b = 4 then Some (v4InV6Prefix @ b)
         else if length b = 16 then Some b
         else None))"

lemma To4_length: "To4 ip = Some b \<Longrightarrow> length b = 4"
  by (auto simp: To4_def split: option.splits if_splits)

lemma To16_length: "To16 ip = Some b \<Longrightarrow> length b = 16"
  by (auto simp: To16_def v4InV6Prefix_def split: option.splits if_splits)

section \<open>Uncompressed names\<close>

text \<open>
  Appending length-prefixed labels to a buffer, with the check each caller makes first
  (\<open>dnsmsg/name.go\<close>, and the prefix loop of \<open>writeName\<close>).
\<close>

fun appendLabels :: "gostr list \<Rightarrow> byte list \<Rightarrow> wireErr + byte list" where
  "appendLabels [] buf = Inr buf"
| "appendLabels (label # labels) buf =
     (if length label = 0 \<or> length label > maxLabelLength then Inl ErrInvalidLabel
      else appendLabels labels (buf @ [word_of_nat (length label)] @ label))"

definition encodeName :: "gostr \<Rightarrow> wireErr + byte list" where
  "encodeName name =
     (if length name > maxNameLength then Inl ErrNameTooLong
      else let name = trimDot name in
        if name = [] then Inr [0]
        else bindR (appendLabels (splitDot name) []) (\<lambda>buf. Inr (buf @ [0])))"

text \<open>The wire form of a label list without its terminator, and the labels that have one.\<close>

definition encLabels :: "gostr list \<Rightarrow> byte list" where
  "encLabels ls = concat (map (\<lambda>l. word_of_nat (length l) # l) ls)"

definition okLabel :: "gostr \<Rightarrow> bool" where
  "okLabel l = (l \<noteq> [] \<and> length l \<le> maxLabelLength \<and> dot \<notin> set l)"

lemma encLabels_simps [simp]:
  "encLabels [] = []"
  "encLabels (l # ls) = word_of_nat (length l) # l @ encLabels ls"
  "encLabels (ls @ ks) = encLabels ls @ encLabels ks"
  by (simp_all add: encLabels_def)

lemma length_encLabels: "length (encLabels ls) = (\<Sum>l\<leftarrow>ls. Suc (length l))"
  by (induction ls) auto

lemma appendLabels_Inr:
  "appendLabels ls buf = Inr out \<longleftrightarrow>
     out = buf @ encLabels ls \<and> (\<forall>l\<in>set ls. l \<noteq> [] \<and> length l \<le> maxLabelLength)"
  by (induction ls arbitrary: buf) auto

lemma appendLabels_Inl: "appendLabels ls buf = Inl e \<Longrightarrow> e = ErrInvalidLabel"
  by (induction ls arbitrary: buf) (auto split: if_splits)

lemma length_encLabels_joinDot:
  "ls \<noteq> [] \<Longrightarrow> length (encLabels ls) = Suc (length (joinDot ls))"
  by (metis length_encLabels length_joinDot)

lemma length_encLabels_splitName:
  "length (encLabels (splitName n)) = (if trimDot n = [] then 0 else Suc (length (trimDot n)))"
  using length_encLabels_joinDot [of "splitName n"] by (auto simp: splitName_eq_Nil)

lemma encodeName_eq:
  "encodeName n = Inr bs \<longleftrightarrow>
     length n \<le> maxNameLength \<and> (\<forall>l\<in>set (splitName n). okLabel l)
       \<and> bs = encLabels (splitName n) @ [0]"
  using splitDot_no_dot [of _ "trimDot n"]
  by (auto simp: encodeName_def Let_def splitName_def bindR_eq_Inr appendLabels_Inr okLabel_def)

end
