(* ===== verification/Wire_Decode.thy ===== *)
theory Wire_Decode
  imports Wire_Types
begin

text \<open>
  The decoder (\<open>dnsmsg/decode.go\<close> and \<open>Unpack\<close> of \<open>dnsmsg/message.go\<close>).  A decoder is its
  buffer and an offset; each read returns the value and the next offset.  Where the Go
  code returns an error the offset it leaves behind is never looked at again, so the model
  drops it.
\<close>

section \<open>Fixed-width reads\<close>

definition readUint8 :: "byte list \<Rightarrow> nat \<Rightarrow> wireErr + (byte \<times> nat)" where
  "readUint8 buf off =
     (if off + 1 > length buf then Inl ErrUnderrun else Inr (buf ! off, off + 1))"

definition readUint16 :: "byte list \<Rightarrow> nat \<Rightarrow> wireErr + (u16 \<times> nat)" where
  "readUint16 buf off =
     (if off + 2 > length buf then Inl ErrUnderrun
      else Inr (be16 (buf ! off) (buf ! (off + 1)), off + 2))"

definition readUint32 :: "byte list \<Rightarrow> nat \<Rightarrow> wireErr + (u32 \<times> nat)" where
  "readUint32 buf off =
     (if off + 4 > length buf then Inl ErrUnderrun
      else Inr (be32 (buf ! off) (buf ! (off + 1)) (buf ! (off + 2)) (buf ! (off + 3)), off + 4))"

definition readBytes :: "byte list \<Rightarrow> nat \<Rightarrow> nat \<Rightarrow> wireErr + (byte list \<times> nat)" where
  "readBytes buf off n =
     (if off + n > length buf then Inl ErrUnderrun
      else Inr (take n (drop off buf), off + n))"

section \<open>Names\<close>

text \<open>
  The loop of \<open>readName\<close>.  \<open>off\<close> and \<open>jumped\<close> are the decoder's offset and the flag that
  says a pointer has already fixed it.  The loop ends because every turn either spends one
  of the twenty jumps or moves \<open>pos\<close> towards the end of the buffer.
\<close>

function readNameLoop ::
  "byte list \<Rightarrow> nat \<Rightarrow> nat \<Rightarrow> bool \<Rightarrow> nat \<Rightarrow> nat \<Rightarrow> gostr list \<Rightarrow> wireErr + (gostr list \<times> nat)" where
  "readNameLoop buf off pos jumped jumps nameLen labels =
     (if pos \<ge> length buf then Inl ErrUnderrun
      else let len = buf ! pos in
      if len = 0 then Inr (labels, if jumped then off else pos + 1)
      else if len AND 0xC0 = 0xC0 then
        (if pos + 2 > length buf then Inl ErrPointerUnderrun
         else let ptr = unat (be16 (buf ! pos) (buf ! (pos + 1)) AND 0x3FFF);
                  off' = (if jumped then off else pos + 2)
           in if jumps + 1 > maxCompressionPointerJumps then Inl ErrTooManyJumps
              else readNameLoop buf off' ptr True (jumps + 1) nameLen labels)
      else if len AND 0xC0 \<noteq> 0 then Inl ErrLabelByte
      else let start = pos + 1; n = unat len in
        if start + n > length buf then Inl ErrLabelOverrun
        else if nameLen + n + 1 > maxNameLength then Inl ErrNameLength
        else let label = take n (drop start buf) in
          if dot \<in> set label then Inl ErrDotInLabel
          else readNameLoop buf off (start + n) jumped jumps (nameLen + n + 1) (labels @ [label]))"
  by pat_completeness auto
termination
  by (relation "measures [\<lambda>(_, _, _, _, jumps, _, _). 21 - jumps,
        \<lambda>(buf, _, pos, _, _, _, _). length buf - pos]") auto

declare readNameLoop.simps [simp del]

definition readName :: "byte list \<Rightarrow> nat \<Rightarrow> wireErr + (gostr \<times> nat)" where
  "readName buf off =
     bindR (readNameLoop buf off off False 0 0 []) (\<lambda>(labels, off').
       Inr (if labels = [] then [dot] else joinDot labels, off'))"

section \<open>Header, question and records\<close>

definition readHeader :: "byte list \<Rightarrow> nat \<Rightarrow> wireErr + (Header \<times> nat)" where
  "readHeader buf off =
     bindR (readUint16 buf off) (\<lambda>(id, off).
     bindR (readUint8 buf off) (\<lambda>(flags1, off).
     bindR (readUint8 buf off) (\<lambda>(flags2, off).
     bindR (readUint16 buf off) (\<lambda>(qd, off).
     bindR (readUint16 buf off) (\<lambda>(an, off).
     bindR (readUint16 buf off) (\<lambda>(ns, off).
     bindR (readUint16 buf off) (\<lambda>(ar, off).
       Inr (\<lparr>ID = id,
             QR = flags1 AND 0x80 \<noteq> 0,
             Opcode = drop_bit 3 flags1 AND 0x0F,
             AA = flags1 AND 0x04 \<noteq> 0,
             TC = flags1 AND 0x02 \<noteq> 0,
             RD = flags1 AND 0x01 \<noteq> 0,
             RA = flags2 AND 0x80 \<noteq> 0,
             AD = flags2 AND 0x20 \<noteq> 0,
             CD = flags2 AND 0x10 \<noteq> 0,
             RCode = flags2 AND 0x0F,
             QDCount = qd, ANCount = an, NSCount = ns, ARCount = ar\<rparr>, off))))))))"

definition readQuestion :: "byte list \<Rightarrow> nat \<Rightarrow> wireErr + (Question \<times> nat)" where
  "readQuestion buf off =
     bindR (readName buf off) (\<lambda>(name, off).
     bindR (readUint16 buf off) (\<lambda>(typ, off).
     bindR (readUint16 buf off) (\<lambda>(class, off).
       Inr (\<lparr>qName = name, qType = typ, qClass = class\<rparr>, off))))"

definition readSOA :: "byte list \<Rightarrow> nat \<Rightarrow> wireErr + (SOA \<times> nat)" where
  "readSOA buf off =
     bindR (readName buf off) (\<lambda>(mname, off).
     bindR (readName buf off) (\<lambda>(rname, off).
     bindR (readUint32 buf off) (\<lambda>(serial, off).
     bindR (readUint32 buf off) (\<lambda>(refresh, off).
     bindR (readUint32 buf off) (\<lambda>(retry, off).
     bindR (readUint32 buf off) (\<lambda>(expire, off).
     bindR (readUint32 buf off) (\<lambda>(minimum, off).
       Inr (\<lparr>MName = mname, RName = rname, Serial = serial, Refresh = refresh,
             Retry = retry, Expire = expire, Minimum = minimum\<rparr>, off))))))))"

text \<open>The type switch of \<open>readRR\<close>: fills in the RDATA of \<open>rr\<close>.\<close>

definition readRdata :: "byte list \<Rightarrow> nat \<Rightarrow> RR \<Rightarrow> wireErr + (RR \<times> nat)" where
  "readRdata buf off rr =
     (let rdlen = RDLength rr in
      if rrType rr = TypeA then
        (if rdlen \<noteq> 4 then Inl ErrRdlengthA
         else bindR (readBytes buf off 4) (\<lambda>(b, off). Inr (rr\<lparr>rrA := Some b\<rparr>, off)))
      else if rrType rr = TypeAAAA then
        (if rdlen \<noteq> 16 then Inl ErrRdlengthAAAA
         else bindR (readBytes buf off 16) (\<lambda>(b, off). Inr (rr\<lparr>rrAAAA := Some b\<rparr>, off)))
      else if rrType rr = TypeNS then
        bindR (readName buf off) (\<lambda>(n, off). Inr (rr\<lparr>rrNS := n\<rparr>, off))
      else if rrType rr = TypeCNAME then
        bindR (readName buf off) (\<lambda>(n, off). Inr (rr\<lparr>rrCNAME := n\<rparr>, off))
      else if rrType rr = TypeSOA then
        bindR (readSOA buf off) (\<lambda>(soa, off). Inr (rr\<lparr>rrSOA := Some soa\<rparr>, off))
      else if rrType rr = TypePTR \<or> rrType rr = TypeMX then
        bindR (if rrType rr = TypeMX
               then bindR (readUint16 buf off) (\<lambda>(pref, off). Inr (put16 pref, off))
               else Inr ([], off)) (\<lambda>(prefix, off).
        bindR (readName buf off) (\<lambda>(n, off).
        bindR (encodeName n) (\<lambda>encoded. Inr (rr\<lparr>Raw := prefix @ encoded\<rparr>, off))))
      else
        bindR (readBytes buf off (unat rdlen)) (\<lambda>(b, off). Inr (rr\<lparr>Raw := b\<rparr>, off)))"

definition readRR :: "byte list \<Rightarrow> nat \<Rightarrow> wireErr + (RR \<times> nat)" where
  "readRR buf off =
     bindR (readName buf off) (\<lambda>(name, off).
     bindR (readUint16 buf off) (\<lambda>(typ, off).
     bindR (readUint16 buf off) (\<lambda>(class, off).
     bindR (readUint32 buf off) (\<lambda>(ttl, off).
     bindR (readUint16 buf off) (\<lambda>(rdlen, off).
     (let rr = zeroRR\<lparr>rrName := name, rrType := typ, rrClass := class, TTL := ttl,
                 RDLength := rdlen\<rparr>;
          rdataStart = off
      in bindR (readRdata buf off rr) (\<lambda>(rr, off).
           if off \<noteq> rdataStart + unat rdlen then Inl ErrRdataMismatch
           else Inr (rr, off))))))))"

fun readRRs :: "byte list \<Rightarrow> nat \<Rightarrow> nat \<Rightarrow> wireErr + (RR list \<times> nat)" where
  "readRRs buf off 0 = Inr ([], off)"
| "readRRs buf off (Suc count) =
     bindR (readRR buf off) (\<lambda>(rr, off).
     bindR (readRRs buf off count) (\<lambda>(rrs, off). Inr (rr # rrs, off)))"

fun readQuestions :: "byte list \<Rightarrow> nat \<Rightarrow> nat \<Rightarrow> wireErr + (Question list \<times> nat)" where
  "readQuestions buf off 0 = Inr ([], off)"
| "readQuestions buf off (Suc count) =
     bindR (readQuestion buf off) (\<lambda>(q, off).
     bindR (readQuestions buf off count) (\<lambda>(qs, off). Inr (q # qs, off)))"

definition Unpack :: "byte list \<Rightarrow> wireErr + Message" where
  "Unpack buf =
     bindR (readHeader buf 0) (\<lambda>(hdr, off).
     bindR (readQuestions buf off (unat (QDCount hdr))) (\<lambda>(qs, off).
     bindR (readRRs buf off (unat (ANCount hdr))) (\<lambda>(ans, off).
     bindR (readRRs buf off (unat (NSCount hdr))) (\<lambda>(auths, off).
     bindR (readRRs buf off (unat (ARCount hdr))) (\<lambda>(adds, off).
       Inr \<lparr>header = hdr, Questions = qs, Answers = ans, Authorities = auths,
             Additionals = adds\<rparr>)))))"

end
