(* ===== verification/Decode_Facts.thy ===== *)
theory Decode_Facts
  imports Wire_Decode
begin

text \<open>
  What the decoder guarantees: names are made of labels of one to sixty-three bytes without
  dots, no name is longer than the limit, offsets only move forward and stay inside the
  buffer, and the re-encoding of PTR and MX names cannot fail.
\<close>

section \<open>Well-formed names and messages\<close>

text \<open>
  A name the codec accepts: its labels are wire labels and its length-prefixed form fits
  in 255 bytes.
\<close>

definition okName :: "gostr \<Rightarrow> bool" where
  "okName n = ((\<forall>l\<in>set (splitName n). okLabel l) \<and> length (encLabels (splitName n)) \<le> maxNameLength)"

definition okRR :: "RR \<Rightarrow> bool" where
  "okRR rr =
     (okName (rrName rr) \<and>
      (rrType rr = TypeA \<longrightarrow> To4 (rrA rr) \<noteq> None) \<and>
      (rrType rr = TypeAAAA \<longrightarrow> To16 (rrAAAA rr) \<noteq> None) \<and>
      (rrType rr = TypeNS \<longrightarrow> okName (rrNS rr)) \<and>
      (rrType rr = TypeCNAME \<longrightarrow> okName (rrCNAME rr)) \<and>
      (rrType rr = TypeSOA \<longrightarrow>
         (case rrSOA rr of None \<Rightarrow> False | Some soa \<Rightarrow> okName (MName soa) \<and> okName (RName soa))))"

definition okMsg :: "Message \<Rightarrow> bool" where
  "okMsg m = (list_all (\<lambda>q. okName (qName q)) (Questions m) \<and> list_all okRR (Answers m)
     \<and> list_all okRR (Authorities m) \<and> list_all okRR (Additionals m))"

lemmas name_eval = lit_def splitName_def trimDot_def dot_def okName_def okLabel_def

lemma okName_length: "okName n \<Longrightarrow> length (trimDot n) \<le> 254"
  by (auto simp: okName_def length_encLabels_splitName split: if_splits)

lemma okName_root [simp]: "okName [dot]" "okName []"
  by (simp_all add: okName_def splitName_def trimDot_def dot_def)

lemma trimDot_joinDot:
  assumes "ls \<noteq> []" "\<forall>l\<in>set ls. okLabel l"
  shows "trimDot (joinDot ls) = joinDot ls" "joinDot ls \<noteq> []"
proof -
  have "last (joinDot ls) = last (last ls)" and ne: "joinDot ls \<noteq> []"
    using last_joinDot [OF assms(1)] assms by (simp_all add: okLabel_def)
  moreover have "okLabel (last ls)" using assms by simp
  ultimately have "last (joinDot ls) \<noteq> dot" by (metis okLabel_def last_in_set)
  with ne show "trimDot (joinDot ls) = joinDot ls" "joinDot ls \<noteq> []"
    by (simp_all add: trimDot_def)
qed

lemma splitName_joinDot:
  assumes "\<forall>l\<in>set ls. okLabel l"
  shows "splitName (joinDot ls) = ls"
proof (cases "ls = []")
  case False
  then have "splitName (joinDot ls) = splitDot (joinDot ls)"
    using trimDot_joinDot [OF False assms] by (simp add: splitName_def)
  then show ?thesis using False assms by (simp add: splitDot_joinDot okLabel_def)
qed simp

lemma okName_joinDot:
  "\<forall>l\<in>set ls. okLabel l \<Longrightarrow> length (encLabels ls) \<le> maxNameLength \<Longrightarrow> okName (joinDot ls)"
  by (simp add: okName_def splitName_joinDot)

section \<open>Reading names\<close>

lemma label_byte_bound: "(b :: byte) AND 0xC0 = 0 \<Longrightarrow> unat b \<le> 63"
proof -
  assume a: "b AND 0xC0 = 0"
  have "b = b AND 0x3F"
  proof (rule bit_word_eqI)
    fix n assume "n < LENGTH(8)"
    moreover have "bit (b AND 0xC0) n = False" using a by simp
    ultimately show "bit b n = bit (b AND 0x3F) n"
      by (auto simp: bit_simps less_Suc_eq numeral_eq_Suc)
  qed
  then have "b \<le> 0x3F" by (metis word_and_le1)
  then show ?thesis by (simp add: word_le_nat_alt)
qed

text \<open>Induction over a successful run of the loop: the three ways a turn can go on.\<close>

lemma readNameLoop_success [consumes 1, case_names stop pointer label]:
  assumes "readNameLoop buf off pos jumped jumps n ls = Inr (ls', off')"
    and "\<And>off pos jumped jumps n ls. pos < length buf \<Longrightarrow> buf ! pos = 0 \<Longrightarrow>
      off' = (if jumped then off else pos + 1) \<Longrightarrow> ls' = ls \<Longrightarrow> P off pos jumped jumps n ls"
    and "\<And>off pos jumped jumps n ls ptr. pos + 2 \<le> length buf \<Longrightarrow>
      ptr = unat (be16 (buf ! pos) (buf ! (pos + 1)) AND 0x3FFF) \<Longrightarrow> jumps < 20 \<Longrightarrow>
      P (if jumped then off else pos + 2) ptr True (jumps + 1) n ls \<Longrightarrow> P off pos jumped jumps n ls"
    and "\<And>off pos jumped jumps n ls label. pos < length buf \<Longrightarrow> okLabel label \<Longrightarrow>
      pos + 1 + length label \<le> length buf \<Longrightarrow> n + length label + 1 \<le> maxNameLength \<Longrightarrow>
      P off (pos + 1 + length label) jumped jumps (n + length label + 1) (ls @ [label]) \<Longrightarrow>
      P off pos jumped jumps n ls"
  shows "P off pos jumped jumps n ls"
  using assms(1)
proof (induction buf\<equiv>buf off pos jumped jumps n ls rule: readNameLoop.induct)
  case (1 off pos jumped jumps n ls)
  let ?len = "buf ! pos"
  from 1(3) have pos: "pos < length buf"
    by (subst (asm) readNameLoop.simps) (auto split: if_splits)
  consider "?len = 0" | "?len \<noteq> 0" "?len AND 0xC0 = 0xC0" | "?len \<noteq> 0" "?len AND 0xC0 = 0"
    using 1(3) pos by (subst (asm) readNameLoop.simps) (auto simp: Let_def split: if_splits)
  then show ?case
  proof cases
    case 1
    with \<open>readNameLoop buf off pos jumped jumps n ls = _\<close> pos show ?thesis
      by (intro assms(2)) (simp_all add: readNameLoop.simps [of buf off pos])
  next
    case 2
    with 1(3) pos have rest: "pos + 2 \<le> length buf" "jumps < 20"
      "readNameLoop buf (if jumped then off else pos + 2)
         (unat (be16 ?len (buf ! (pos + 1)) AND 0x3FFF)) True (jumps + 1) n ls = Inr (ls', off')"
      by (auto simp: Let_def readNameLoop.simps [of buf off pos] split: if_splits)
    show ?thesis
      by (rule assms(3) [OF rest(1) refl rest(2)], rule 1(1)) (use 2 rest pos in auto)
  next
    case 3
    define label where "label = take (unat ?len) (drop (pos + 1) buf)"
    from 1(3) 3 pos have rest: "pos + 1 + unat ?len \<le> length buf" "dot \<notin> set label"
        "n + unat ?len + 1 \<le> maxNameLength"
        "readNameLoop buf off (pos + 1 + unat ?len) jumped jumps (n + unat ?len + 1) (ls @ [label])
           = Inr (ls', off')"
      by (auto simp: label_def Let_def readNameLoop.simps [of buf off pos] split: if_splits)
    have len: "length label = unat ?len" using rest(1) by (simp add: label_def)
    have ok: "okLabel label"
      using 3 rest len label_byte_bound [of ?len] by (auto simp: okLabel_def unat_eq_zero)
    have "P off (pos + 1 + unat ?len) jumped jumps (n + unat ?len + 1) (ls @ [label])"
      unfolding label_def by (rule 1(2)) (use 3 rest pos label_def in auto)
    then show ?thesis
      by (intro assms(4) [OF pos ok]) (use rest len in simp_all)
  qed
qed

lemma readNameLoop_ok:
  assumes "readNameLoop buf off pos jumped jumps n ls = Inr (ls', off')"
    and "\<forall>l\<in>set ls. okLabel l" "n = length (encLabels ls)" "n \<le> maxNameLength"
  shows "(\<forall>l\<in>set ls'. okLabel l) \<and> length (encLabels ls') \<le> maxNameLength"
  using assms
proof (induction rule: readNameLoop_success)
  case (label off pos jumped jumps n ls l)
  have "n + length l + 1 = length (encLabels (ls @ [l]))" using label.prems(2) by simp
  moreover have "\<forall>k\<in>set (ls @ [l]). okLabel k" using label.prems(1) label.hyps(2) by simp
  ultimately show ?case using label.hyps(4) by (intro label.IH)
qed simp_all

lemma readNameLoop_bounds:
  assumes "readNameLoop buf off pos jumped jumps n ls = Inr (ls', off')"
    and "jumped \<longrightarrow> off \<le> length buf"
  shows "off' \<le> length buf \<and> (if jumped then off' = off else pos < off')"
  using assms
proof (induction rule: readNameLoop_success)
  case (pointer off pos jumped jumps n ls ptr)
  then show ?case by (simp split: if_splits)
qed (simp_all split: if_splits)

lemma readName_ok:
  assumes "readName buf off = Inr (n, off')"
  shows "okName n \<and> off < off' \<and> off' \<le> length buf"
proof -
  obtain ls where run: "readNameLoop buf off off False 0 0 [] = Inr (ls, off')"
    and n: "n = (if ls = [] then [dot] else joinDot ls)"
    using assms by (auto simp: readName_def bindR_eq_Inr)
  show ?thesis
    using readNameLoop_ok [OF run] readNameLoop_bounds [OF run] n by (auto intro: okName_joinDot)
qed

text \<open>The name just read can always be written out again without compression.\<close>

lemma readName_encodeName:
  assumes "readName buf off = Inr (n, off')"
  shows "encodeName n = Inr (encLabels (splitName n) @ [0])"
proof -
  obtain ls where run: "readNameLoop buf off off False 0 0 [] = Inr (ls, off')"
    and n: "n = (if ls = [] then [dot] else joinDot ls)"
    using assms by (auto simp: readName_def bindR_eq_Inr)
  have "length n \<le> maxNameLength"
  proof (cases "ls = []")
    case False
    then show ?thesis
      using readNameLoop_ok [OF run] n length_encLabels_joinDot [OF False] by simp
  qed (use n in simp)
  moreover have "okName n" using assms readName_ok by blast
  ultimately show ?thesis by (simp add: encodeName_eq okName_def)
qed

section \<open>Records and messages\<close>

lemma readUint8_bounds: "readUint8 buf off = Inr (v, off') \<Longrightarrow> off' = off + 1 \<and> off' \<le> length buf"
  by (auto simp: readUint8_def split: if_splits)

lemma readUint16_bounds: "readUint16 buf off = Inr (v, off') \<Longrightarrow> off' = off + 2 \<and> off' \<le> length buf"
  by (auto simp: readUint16_def split: if_splits)

lemma readUint32_bounds: "readUint32 buf off = Inr (v, off') \<Longrightarrow> off' = off + 4 \<and> off' \<le> length buf"
  by (auto simp: readUint32_def split: if_splits)

lemma readBytes_bounds:
  "readBytes buf off n = Inr (v, off') \<Longrightarrow> off' = off + n \<and> off' \<le> length buf \<and> length v = n"
  by (auto simp: readBytes_def split: if_splits)

lemmas read_bounds = readUint8_bounds readUint16_bounds readUint32_bounds readBytes_bounds

lemma readSOA_ok:
  "readSOA buf off = Inr (soa, off') \<Longrightarrow> okName (MName soa) \<and> okName (RName soa)"
  by (auto simp: readSOA_def bindR_eq_Inr dest!: readName_ok)

lemma readRdata_ok:
  assumes "readRdata buf off rr = Inr (rr', off')" "okName (rrName rr)"
  shows "okRR rr'"
  using assms
  by (auto simp: readRdata_def Let_def bindR_eq_Inr okRR_def To4_def To16_def
      dest: readName_ok readSOA_ok readBytes_bounds split: if_splits)

lemma readRdata_bounds:
  assumes "readRdata buf off rr = Inr (rr', off')"
  shows "off' \<le> length buf \<or> off' = off"
  using assms
  by (auto simp: readRdata_def readSOA_def Let_def bindR_eq_Inr
      dest: readName_ok read_bounds split: if_splits)

lemma readRR_ok:
  assumes "readRR buf off = Inr (rr, off')"
  shows "okRR rr \<and> off + 11 \<le> off' \<and> off' \<le> length buf"
proof -
  obtain name off1 ty off2 cls off3 ttl off4 rdlen off5 rr' where steps:
    "readName buf off = Inr (name, off1)" "readUint16 buf off1 = Inr (ty, off2)"
    "readUint16 buf off2 = Inr (cls, off3)" "readUint32 buf off3 = Inr (ttl, off4)"
    "readUint16 buf off4 = Inr (rdlen, off5)"
    "readRdata buf off5 (zeroRR\<lparr>rrName := name, rrType := ty, rrClass := cls, TTL := ttl,
       RDLength := rdlen\<rparr>) = Inr (rr, off')"
    "off' = off5 + unat rdlen"
    using assms by (auto simp: readRR_def Let_def bindR_eq_Inr split: if_splits)
  have "okName name" "off < off1" using readName_ok [OF steps(1)] by simp_all
  moreover have "off5 = off1 + 10" "off5 \<le> length buf"
    using steps(2-5) by (auto dest!: read_bounds)
  ultimately show ?thesis
    using readRdata_ok [OF steps(6)] readRdata_bounds [OF steps(6)] steps(7) by auto
qed

lemma readRRs_ok:
  "readRRs buf off count = Inr (rrs, off') \<Longrightarrow> off \<le> length buf \<Longrightarrow>
     list_all okRR rrs \<and> length rrs = count \<and> off + 11 * count \<le> off' \<and> off' \<le> length buf"
  by (induction count arbitrary: off rrs) (fastforce simp: bindR_eq_Inr dest: readRR_ok)+

lemma readQuestion_ok:
  "readQuestion buf off = Inr (q, off') \<Longrightarrow> okName (qName q) \<and> off + 5 \<le> off' \<and> off' \<le> length buf"
  by (auto simp: readQuestion_def bindR_eq_Inr dest!: readName_ok read_bounds)

lemma readQuestions_ok:
  "readQuestions buf off count = Inr (qs, off') \<Longrightarrow> off \<le> length buf \<Longrightarrow>
     list_all (\<lambda>q. okName (qName q)) qs \<and> length qs = count \<and> off + 5 * count \<le> off'
     \<and> off' \<le> length buf"
  by (induction count arbitrary: off qs) (fastforce simp: bindR_eq_Inr dest: readQuestion_ok)+

lemma readHeader_bounds: "readHeader buf off = Inr (h, off') \<Longrightarrow> off' = off + 12 \<and> off' \<le> length buf"
  by (auto simp: readHeader_def bindR_eq_Inr dest!: read_bounds)

lemma Unpack_sections:
  assumes "Unpack buf = Inr m"
  shows "okMsg m \<and>
    12 + 5 * length (Questions m)
      + 11 * (length (Answers m) + length (Authorities m) + length (Additionals m)) \<le> length buf \<and>
    length (Questions m) = unat (QDCount (header m)) \<and> length (Answers m) = unat (ANCount (header m)) \<and>
    length (Authorities m) = unat (NSCount (header m)) \<and>
    length (Additionals m) = unat (ARCount (header m))"
proof -
  obtain h off0 qs off1 ans off2 aus off3 ads off4 where steps:
    "readHeader buf 0 = Inr (h, off0)" "readQuestions buf off0 (unat (QDCount h)) = Inr (qs, off1)"
    "readRRs buf off1 (unat (ANCount h)) = Inr (ans, off2)"
    "readRRs buf off2 (unat (NSCount h)) = Inr (aus, off3)"
    "readRRs buf off3 (unat (ARCount h)) = Inr (ads, off4)"
    and m: "m = \<lparr>header = h, Questions = qs, Answers = ans, Authorities = aus, Additionals = ads\<rparr>"
    using assms by (auto simp: Unpack_def bindR_eq_Inr)
  have h: "off0 = 12 \<and> off0 \<le> length buf" using readHeader_bounds [OF steps(1)] by simp
  note q = readQuestions_ok [OF steps(2) conjunct2 [OF h]]
  note an = readRRs_ok [OF steps(3)] and ns = readRRs_ok [OF steps(4)] and ar = readRRs_ok [OF steps(5)]
  show ?thesis using h q an ns ar m by (simp add: okMsg_def)
qed

end
