(* ===== verification/Wire_Encode.thy ===== *)
theory Wire_Encode
  imports Wire_Types
begin

text \<open>
  The encoder (\<open>dnsmsg/encode.go\<close>, \<open>Pack\<close> and \<open>PackQuery\<close> of \<open>dnsmsg/message.go\<close>).  The
  encoder's state is its buffer and the map from lowercased names to the offset of their
  first occurrence.
\<close>

record encoder =
  ebuf :: "byte list"
  names :: "gostr \<rightharpoonup> nat"

definition newEncoder :: encoder where
  "newEncoder = \<lparr>ebuf = [], names = Map.empty\<rparr>"

definition emit :: "byte list \<Rightarrow> encoder \<Rightarrow> encoder" where
  "emit bs e = e\<lparr>ebuf := ebuf e @ bs\<rparr>"

section \<open>Names\<close>

text \<open>
  The first loop of \<open>writeName\<close>: the longest suffix already written, as the labels before
  it and its offset.
\<close>

fun findSuffix :: "unicode \<Rightarrow> (gostr \<rightharpoonup> nat) \<Rightarrow> gostr list \<Rightarrow> (gostr list \<times> nat) option" where
  "findSuffix u m [] = None"
| "findSuffix u m (label # labels) =
     (case m (ToLower u (joinDot (label # labels))) of
        Some offset \<Rightarrow> Some ([], offset)
      | None \<Rightarrow> map_option (\<lambda>(before, offset). (label # before, offset)) (findSuffix u m labels))"

text \<open>The second loop: write every label and remember where each suffix starts.\<close>

fun writeLabels :: "unicode \<Rightarrow> gostr list \<Rightarrow> encoder \<Rightarrow> wireErr + encoder" where
  "writeLabels u [] e = Inr e"
| "writeLabels u (label # labels) e =
     (if length label = 0 \<or> length label > maxLabelLength then Inl ErrInvalidLabel
      else let suffix = ToLower u (joinDot (label # labels));
               e = (if names e suffix = None \<and> length (ebuf e) \<le> maxPointerOffset
                    then e\<lparr>names := (names e)(suffix \<mapsto> length (ebuf e))\<rparr> else e)
        in writeLabels u labels (emit (word_of_nat (length label) # label) e))"

definition pointerBytes :: "nat \<Rightarrow> byte list" where
  "pointerBytes offset = [word_of_nat (0xC0 OR drop_bit 8 offset), word_of_nat offset]"

definition writeName :: "unicode \<Rightarrow> gostr \<Rightarrow> encoder \<Rightarrow> wireErr + encoder" where
  "writeName u name e =
     (let name = trimDot name in
      if length name > maxNameLength then Inl ErrNameTooLong
      else let labels = (if name = [] then [] else splitDot name) in
        case findSuffix u (names e) labels of
          Some (before, offset) \<Rightarrow>
            bindR (appendLabels before (ebuf e)) (\<lambda>buf.
              Inr (e\<lparr>ebuf := buf @ pointerBytes offset\<rparr>))
        | None \<Rightarrow> bindR (writeLabels u labels e) (\<lambda>e. Inr (emit [0] e)))"

definition writeUint16 :: "u16 \<Rightarrow> encoder \<Rightarrow> encoder" where
  "writeUint16 v e = emit (put16 v) e"

definition writeUint32 :: "u32 \<Rightarrow> encoder \<Rightarrow> encoder" where
  "writeUint32 v e = emit (put32 v) e"

section \<open>Records\<close>

definition writeSOA :: "unicode \<Rightarrow> SOA \<Rightarrow> encoder \<Rightarrow> wireErr + encoder" where
  "writeSOA u soa e =
     bindR (writeName u (MName soa) e) (\<lambda>e.
     bindR (writeName u (RName soa) e) (\<lambda>e.
       Inr (writeUint32 (Minimum soa) (writeUint32 (Expire soa) (writeUint32 (Retry soa)
             (writeUint32 (Refresh soa) (writeUint32 (Serial soa) e)))))))"

definition writeRdata :: "unicode \<Rightarrow> RR \<Rightarrow> encoder \<Rightarrow> wireErr + encoder" where
  "writeRdata u rr e =
     (if rrType rr = TypeA then
        (case To4 (rrA rr) of None \<Rightarrow> Inl ErrNoIPv4 | Some ip \<Rightarrow> Inr (emit ip e))
      else if rrType rr = TypeAAAA then
        (case To16 (rrAAAA rr) of None \<Rightarrow> Inl ErrNoIPv6 | Some ip \<Rightarrow> Inr (emit ip e))
      else if rrType rr = TypeNS then writeName u (rrNS rr) e
      else if rrType rr = TypeCNAME then writeName u (rrCNAME rr) e
      else if rrType rr = TypeSOA then
        (case rrSOA rr of None \<Rightarrow> Inl ErrNoSOA | Some soa \<Rightarrow> writeSOA u soa e)
      else Inr (emit (Raw rr) e))"

text \<open>\<open>binary.BigEndian.PutUint16(buf[p:p+2], v)\<close>.\<close>

definition patch16 :: "nat \<Rightarrow> u16 \<Rightarrow> byte list \<Rightarrow> byte list" where
  "patch16 p v buf = buf[p := ucast (drop_bit 8 v), p + 1 := ucast v]"

definition writeRR :: "unicode \<Rightarrow> RR \<Rightarrow> encoder \<Rightarrow> wireErr + encoder" where
  "writeRR u rr e =
     bindR (writeName u (rrName rr) e) (\<lambda>e.
     (let e = writeUint32 (TTL rr) (writeUint16 (rrClass rr) (writeUint16 (rrType rr) e));
          rdlenOffset = length (ebuf e);
          e = writeUint16 0 e;
          rdataStart = length (ebuf e)
      in bindR (writeRdata u rr e) (\<lambda>e.
           let rdlen = length (ebuf e) - rdataStart
           in Inr (e\<lparr>ebuf := patch16 rdlenOffset (word_of_nat rdlen) (ebuf e)\<rparr>))))"

fun writeRRs :: "unicode \<Rightarrow> RR list \<Rightarrow> encoder \<Rightarrow> wireErr + encoder" where
  "writeRRs u [] e = Inr e"
| "writeRRs u (rr # rrs) e = bindR (writeRR u rr e) (writeRRs u rrs)"

definition writeQuestion :: "unicode \<Rightarrow> Question \<Rightarrow> encoder \<Rightarrow> wireErr + encoder" where
  "writeQuestion u q e =
     bindR (writeName u (qName q) e) (\<lambda>e.
       Inr (writeUint16 (qClass q) (writeUint16 (qType q) e)))"

fun writeQuestions :: "unicode \<Rightarrow> Question list \<Rightarrow> encoder \<Rightarrow> wireErr + encoder" where
  "writeQuestions u [] e = Inr e"
| "writeQuestions u (q # qs) e = bindR (writeQuestion u q e) (writeQuestions u qs)"

section \<open>Messages\<close>

definition flags1 :: "Header \<Rightarrow> byte" where
  "flags1 h = (if QR h then 0x80 else 0) OR push_bit 3 (Opcode h AND 0x0F)
     OR (if AA h then 0x04 else 0) OR (if TC h then 0x02 else 0) OR (if RD h then 0x01 else 0)"

definition flags2 :: "Header \<Rightarrow> byte" where
  "flags2 h = (if RA h then 0x80 else 0) OR (if AD h then 0x20 else 0)
     OR (if CD h then 0x10 else 0) OR (RCode h AND 0x0F)"

text \<open>The twelve bytes of the header; the counts are those of the sections.\<close>

definition headerBytes :: "Message \<Rightarrow> byte list" where
  "headerBytes msg =
     put16 (ID (header msg)) @ [flags1 (header msg), flags2 (header msg)]
     @ put16 (word_of_nat (length (Questions msg))) @ put16 (word_of_nat (length (Answers msg)))
     @ put16 (word_of_nat (length (Authorities msg)))
     @ put16 (word_of_nat (length (Additionals msg)))"

definition Pack :: "unicode \<Rightarrow> Message \<Rightarrow> wireErr + byte list" where
  "Pack u msg =
     bindR (writeQuestions u (Questions msg) (newEncoder\<lparr>ebuf := headerBytes msg\<rparr>)) (\<lambda>e.
     bindR (writeRRs u (Answers msg) e) (\<lambda>e.
     bindR (writeRRs u (Authorities msg) e) (\<lambda>e.
     bindR (writeRRs u (Additionals msg) e) (\<lambda>e. Inr (ebuf e)))))"

text \<open>A single-question query with no flags set.\<close>

definition PackQuery :: "u16 \<Rightarrow> gostr \<Rightarrow> u16 \<Rightarrow> wireErr + byte list" where
  "PackQuery qid name qtype =
     bindR (encodeName name) (\<lambda>encodedName.
       Inr (put16 qid @ [0, 0] @ put16 1 @ put16 0 @ put16 0 @ put16 0
            @ encodedName @ put16 qtype @ put16 ClassIN))"

end
