(* ===== verification/Wire_Contracts.thy ===== *)
theory Wire_Contracts
  imports Decode_Facts Wire_Encode
begin

text \<open>
  The contracts that relate the encoder to the decoder, and the write operations on names
  and fixed-width fields that satisfy them.  The contract of a write operation has two
  halves.  \<open>append_only\<close> says that it only appends, and that what
  it appends depends on the buffer's length and not on its contents, which is what makes
  patching RDLENGTH afterwards harmless.  \<open>writes\<close> says that from a state satisfying the
  compression invariant it succeeds, keeps the invariant, and leaves bytes that a given
  reader accepts whatever is appended later.
\<close>

section \<open>The append-only contract\<close>

locale append_only =
  fixes wr :: "encoder \<Rightarrow> wireErr + encoder"
  assumes append: "wr e = Inr e' \<Longrightarrow> length b = length (ebuf e) \<Longrightarrow>
    \<exists>ext. ebuf e' = ebuf e @ ext \<and> wr (e\<lparr>ebuf := b\<rparr>) = Inr (e'\<lparr>ebuf := b @ ext\<rparr>)"
begin

lemma grows:
  assumes "wr e = Inr e'"
  shows "\<exists>ext. ebuf e' = ebuf e @ ext"
  using append [OF assms refl] by blast

text \<open>
  Writing after a two-byte placeholder and patching the placeholder afterwards is the same
  as writing after the final two bytes.
\<close>

lemma patched:
  assumes "wr (emit [x, y] e) = Inr e2" "length b = 2"
  shows "\<exists>ext. ebuf e2 = ebuf e @ [x, y] @ ext \<and>
    wr (emit b e) = Inr (e2\<lparr>ebuf := ebuf e @ b @ ext\<rparr>)"
proof -
  have "length (ebuf e @ b) = length (ebuf (emit [x, y] e))"
    using assms(2) by (simp add: emit_def)
  from append [OF assms(1) this] obtain ext where
    "ebuf e2 = ebuf (emit [x, y] e) @ ext"
    "wr ((emit [x, y] e)\<lparr>ebuf := ebuf e @ b\<rparr>) = Inr (e2\<lparr>ebuf := (ebuf e @ b) @ ext\<rparr>)"
    by blast
  then show ?thesis by (auto simp: emit_def)
qed

end

lemma append_only_seq:
  assumes "append_only f" "append_only g"
  shows "append_only (\<lambda>e. bindR (f e) g)"
proof (unfold_locales, goal_cases)
  case (1 e e2 b)
  then obtain e1 where f: "f e = Inr e1" and g: "g e1 = Inr e2" by (auto simp: bindR_eq_Inr)
  from append_only.append [OF assms(1) f 1(2)] obtain x where
    x: "ebuf e1 = ebuf e @ x" "f (e\<lparr>ebuf := b\<rparr>) = Inr (e1\<lparr>ebuf := b @ x\<rparr>)" by blast
  have "length (b @ x) = length (ebuf e1)" using 1(2) x by simp
  from append_only.append [OF assms(2) g this] obtain y where
    "ebuf e2 = ebuf e1 @ y" "g (e1\<lparr>ebuf := b @ x\<rparr>) = Inr (e2\<lparr>ebuf := (b @ x) @ y\<rparr>)" by blast
  with x show ?case by simp
qed

lemma append_only_emit: "append_only (\<lambda>e. Inr (emit bs e))"
  by unfold_locales (auto simp: emit_def)

lemma append_only_fail: "append_only (\<lambda>e. Inl err)"
  by unfold_locales simp

lemma append_only_If:
  "append_only f \<Longrightarrow> append_only g \<Longrightarrow> append_only (\<lambda>e. if c then f e else g e)"
  by (cases c) simp_all

lemma append_only_option:
  "append_only f \<Longrightarrow> (\<And>x. append_only (g x)) \<Longrightarrow>
   append_only (\<lambda>e. case opt of None \<Rightarrow> f e | Some x \<Rightarrow> g x e)"
  by (cases opt) simp_all

lemmas append_only_intros =
  append_only_seq append_only_emit append_only_fail append_only_If append_only_option

lemma writeLabels_shape:
  "writeLabels u ls e = Inr e' \<Longrightarrow> length b = length (ebuf e) \<Longrightarrow>
   ebuf e' = ebuf e @ encLabels ls \<and>
   writeLabels u ls (e\<lparr>ebuf := b\<rparr>) = Inr (e'\<lparr>ebuf := b @ encLabels ls\<rparr>)"
proof (induction u ls e arbitrary: b rule: writeLabels.induct)
  case (2 u l ls e)
  define e1 where "e1 = (if names e (ToLower u (joinDot (l # ls))) = None \<and> length (ebuf e) \<le> maxPointerOffset
    then e\<lparr>names := (names e)(ToLower u (joinDot (l # ls)) \<mapsto> length (ebuf e))\<rparr> else e)"
  define piece :: "byte list" where "piece = word_of_nat (length l) # l"
  have e1: "ebuf e1 = ebuf e" "e1\<lparr>ebuf := b\<rparr> =
     (if names (e\<lparr>ebuf := b\<rparr>) (ToLower u (joinDot (l # ls))) = None \<and> length b \<le> maxPointerOffset
      then (e\<lparr>ebuf := b\<rparr>)\<lparr>names := (names (e\<lparr>ebuf := b\<rparr>))(ToLower u (joinDot (l # ls)) \<mapsto> length b)\<rparr>
      else (e\<lparr>ebuf := b\<rparr>))"
    using 2(3) by (simp_all add: e1_def)
  from 2(2) have ok: "\<not> (length l = 0 \<or> length l > maxLabelLength)"
    and run: "writeLabels u ls (emit piece e1) = Inr e'"
    by (auto simp: Let_def e1_def piece_def split: if_splits)
  have len: "length (b @ piece) = length (ebuf (emit piece e1))"
    using 2(3) e1 by (simp add: emit_def)
  have IH: "ebuf e' = ebuf (emit piece e1) @ encLabels ls"
    "writeLabels u ls ((emit piece e1)\<lparr>ebuf := b @ piece\<rparr>) = Inr (e'\<lparr>ebuf := (b @ piece) @ encLabels ls\<rparr>)"
    using 2(1) [OF ok refl e1_def, of "b @ piece"] run len by (simp_all add: piece_def)
  have "writeLabels u (l # ls) (e\<lparr>ebuf := b\<rparr>) = writeLabels u ls (emit piece (e1\<lparr>ebuf := b\<rparr>))"
    using ok by (simp add: Let_def piece_def e1(2))
  then show ?case using IH e1(1) by (simp add: emit_def piece_def)
qed simp

interpretation name_writer: append_only "writeName u n" for u n
proof (unfold_locales, goal_cases)
  case (1 e e' b)
  define ls where "ls = (if trimDot n = [] then [] else splitDot (trimDot n))"
  from 1(1) have len: "length (trimDot n) \<le> maxNameLength"
    by (auto simp: writeName_def Let_def split: if_splits)
  show ?case
  proof (cases "findSuffix u (names e) ls")
    case None
    with 1(1) len obtain e1 where "writeLabels u ls e = Inr e1" "e' = emit [0] e1"
      by (auto simp: writeName_def Let_def ls_def bindR_eq_Inr)
    with writeLabels_shape [OF this(1) 1(2)] None len show ?thesis
      by (auto simp: writeName_def Let_def ls_def emit_def)
  next
    case (Some p)
    obtain before offset where p: "p = (before, offset)" by (cases p)
    with 1(1) len Some obtain buf where "appendLabels before (ebuf e) = Inr buf"
      "e' = e\<lparr>ebuf := buf @ pointerBytes offset\<rparr>"
      by (auto simp: writeName_def Let_def ls_def bindR_eq_Inr)
    moreover from this(1) have "appendLabels before b = Inr (b @ encLabels before)"
      by (simp add: appendLabels_Inr)
    ultimately show ?thesis using Some p len
      by (auto simp: writeName_def Let_def ls_def bindR_eq_Inr appendLabels_Inr)
  qed
qed

interpretation soa_writer: append_only "writeSOA u soa" for u soa
  unfolding writeSOA_def writeUint32_def
  by (intro append_only_seq name_writer.append_only_axioms)
    (unfold_locales, auto simp: emit_def)

interpretation rdata_writer: append_only "writeRdata u rr" for u rr
  unfolding writeRdata_def
  by (intro append_only_intros name_writer.append_only_axioms soa_writer.append_only_axioms)

section \<open>The compression invariant\<close>

text \<open>
  Every remembered suffix was written in full at its offset: its labels followed by the
  terminating zero, with no pointer.  A pointer written by the encoder is therefore
  followed exactly once.
\<close>

definition plainAt :: "byte list \<Rightarrow> nat \<Rightarrow> gostr list \<Rightarrow> bool" where
  "plainAt buf off ls = (\<exists>rest. drop off buf = encLabels ls @ 0 # rest)"

definition encInv :: "unicode \<Rightarrow> encoder \<Rightarrow> bool" where
  "encInv u e = (\<forall>s off. names e s = Some off \<longrightarrow> off \<le> maxPointerOffset \<and>
     (\<exists>ls. (\<forall>l\<in>set ls. okLabel l \<and> isASCII l) \<and> plainAt (ebuf e) off ls \<and>
           map lowerByte (joinDot ls) = s))"

lemma plainAt_append: "plainAt buf off ls \<Longrightarrow> plainAt (buf @ rest) off ls"
proof -
  assume "plainAt buf off ls"
  then obtain r where r: "drop off buf = encLabels ls @ 0 # r" by (auto simp: plainAt_def)
  then have "off < length buf" by (metis append_is_Nil_conv drop_eq_Nil list.distinct(1) not_less)
  with r show ?thesis by (auto simp: plainAt_def)
qed

lemma encInv_emit: "encInv u e \<Longrightarrow> encInv u (emit bs e)"
  by (fastforce simp: encInv_def emit_def intro: plainAt_append)

section \<open>Reading what was written: names\<close>

lemma label_byte:
  assumes "k \<le> 63" "k \<noteq> 0"
  shows "(word_of_nat k :: byte) AND 0xC0 = 0" "(word_of_nat k :: byte) \<noteq> 0"
    "unat (word_of_nat k :: byte) = k"
proof -
  have "(word_of_nat k :: byte) = take_bit 6 (word_of_nat k)"
    using assms by (simp add: take_bit_of_nat take_bit_nat_eq_self)
  then have "(word_of_nat k :: byte) AND 0xC0 = take_bit 6 (word_of_nat k) AND 0xC0"
    by simp
  also have "\<dots> = 0"
    by (rule bit_word_eqI) (auto simp: bit_simps less_Suc_eq numeral_eq_Suc)
  finally show "(word_of_nat k :: byte) AND 0xC0 = 0" .
  show u: "unat (word_of_nat k :: byte) = k" using assms by (simp add: unat_of_nat take_bit_nat_eq_self)
  show "(word_of_nat k :: byte) \<noteq> 0" using u assms by (metis unat_0)
qed

lemma readNameLoop_labels:
  assumes "\<forall>l\<in>set ks. okLabel l" "drop pos buf = encLabels ks @ rest"
    "n + length (encLabels ks) \<le> maxNameLength"
  shows "readNameLoop buf off pos jumped jumps n ls =
    readNameLoop buf off (pos + length (encLabels ks)) jumped jumps (n + length (encLabels ks)) (ls @ ks)"
  using assms
proof (induction ks arbitrary: pos n ls)
  case (Cons k ks)
  have k: "length k \<le> 63" "length k \<noteq> 0" "dot \<notin> set k"
    using Cons.prems(1) by (auto simp: okLabel_def)
  have d: "drop pos buf = word_of_nat (length k) # (k @ encLabels ks @ rest)"
    using Cons.prems(2) by simp
  have pos: "pos < length buf" and b: "buf ! pos = word_of_nat (length k)"
    and d1: "drop (pos + 1) buf = k @ encLabels ks @ rest"
    using drop_ConsD [OF d] by simp_all
  have d2: "drop (pos + 1 + length k) buf = encLabels ks @ rest"
    using drop_appendD [OF d1] .
  have fit: "pos + 1 + length k \<le> length buf"
    using arg_cong [OF d1, of length] pos by simp
  have "readNameLoop buf off pos jumped jumps n ls =
    readNameLoop buf off (pos + 1 + length k) jumped jumps (n + length k + 1) (ls @ [k])"
    using pos b k fit d1 Cons.prems(3) label_byte [OF k(1,2)]
    by (subst readNameLoop.simps) (simp add: Let_def)
  also have "\<dots> = readNameLoop buf off (pos + 1 + length k + length (encLabels ks)) jumped jumps
      (n + length k + 1 + length (encLabels ks)) ((ls @ [k]) @ ks)"
    using Cons.prems(1,3) d2 by (intro Cons.IH) auto
  finally show ?case by (simp add: algebra_simps)
qed simp

lemma readNameLoop_end:
  assumes "drop pos buf = 0 # rest"
  shows "readNameLoop buf off pos jumped jumps n ls = Inr (ls, if jumped then off else pos + 1)"
  using drop_ConsD [OF assms] by (subst readNameLoop.simps) simp

lemma bit_C0: "bit (0xC0 :: nat) m \<longleftrightarrow> m = 6 \<or> m = 7"
proof -
  have "(0xC0 :: nat) = push_bit 6 (mask 2)" by (simp add: push_bit_eq_mult mask_eq_exp_minus_1)
  then have "bit (0xC0 :: nat) m \<longleftrightarrow> 6 \<le> m \<and> m - 6 < 2"
    by (simp only: bit_push_bit_iff bit_mask_iff) auto
  then show ?thesis by linarith
qed

lemma bit_C0_byte: "bit (0xC0 :: byte) m \<longleftrightarrow> m = 6 \<or> m = 7"
proof -
  have "bit (word_of_nat 0xC0 :: byte) m \<longleftrightarrow> m < 8 \<and> bit (0xC0 :: nat) m"
    by (simp only: bit_of_nat_iff) simp
  then show ?thesis using bit_C0 [of m] by auto
qed

lemma pointerBytes_read:
  assumes "k \<le> maxPointerOffset"
  shows "(word_of_nat (0xC0 OR drop_bit 8 k) :: byte) AND 0xC0 = 0xC0"
    "(word_of_nat (0xC0 OR drop_bit 8 k) :: byte) \<noteq> 0"
    "unat (be16 (word_of_nat (0xC0 OR drop_bit 8 k)) (word_of_nat k) AND 0x3FFF) = k"
proof -
  show c: "(word_of_nat (0xC0 OR drop_bit 8 k) :: byte) AND 0xC0 = 0xC0"
    by (rule bit_word_eqI)
      (simp only: bit_and_iff bit_of_nat_iff bit_or_iff bit_C0 bit_C0_byte, auto)
  then show "(word_of_nat (0xC0 OR drop_bit 8 k) :: byte) \<noteq> 0" by auto
  have k: "take_bit 14 k = k" using assms by (intro take_bit_nat_eq_self) simp
  have m: "(0x3FFF :: u16) = mask 14" by (simp add: mask_eq_exp_minus_1)
  have "be16 (word_of_nat (0xC0 OR drop_bit 8 k)) (word_of_nat k) AND 0x3FFF = (word_of_nat (take_bit 14 k) :: u16)"
    unfolding be16_def m
  proof (rule bit_word_eqI, goal_cases)
    case (1 n)
    then have "n < 8 \<or> (8 \<le> n \<and> n < 14) \<or> 14 \<le> n" by auto
    then show ?case using 1
      by (auto simp: bit_simps bit_C0 simp del: bit_numeral_rec)
  qed
  then show "unat (be16 (word_of_nat (0xC0 OR drop_bit 8 k)) (word_of_nat k) AND 0x3FFF) = k"
    using assms k by (simp add: unat_of_nat take_bit_nat_eq_self)
qed

lemma readNameLoop_pointer:
  assumes "drop pos buf = pointerBytes k @ rest" "k \<le> maxPointerOffset" "jumps < 20"
  shows "readNameLoop buf off pos jumped jumps n ls =
    readNameLoop buf (if jumped then off else pos + 2) k True (jumps + 1) n ls"
proof -
  from assms(1) have d: "drop pos buf = word_of_nat (0xC0 OR drop_bit 8 k) # word_of_nat k # rest"
    by (simp add: pointerBytes_def)
  note d1 = drop_ConsD [OF d]
  from d1 have d2: "drop (pos + 1) buf = word_of_nat k # rest" by simp
  show ?thesis
    using d1 drop_ConsD [OF d2] pointerBytes_read [OF assms(2)] assms(3)
    by (subst readNameLoop.simps) (simp add: Let_def)
qed

lemma readNameLoop_plain:
  assumes "\<forall>l\<in>set ks. okLabel l" "plainAt buf pos ks" "n + length (encLabels ks) \<le> maxNameLength"
  shows "readNameLoop buf off pos jumped jumps n ls =
    Inr (ls @ ks, if jumped then off else pos + length (encLabels ks) + 1)"
proof -
  obtain rest where d: "drop pos buf = encLabels ks @ 0 # rest"
    using assms(2) by (auto simp: plainAt_def)
  then have "drop (pos + length (encLabels ks)) buf = 0 # rest" by (rule drop_appendD)
  then show ?thesis using readNameLoop_labels [OF assms(1) d assms(3)] by (simp add: readNameLoop_end)
qed

text \<open>An uncompressed name, read back.\<close>

lemma readName_plain:
  assumes "okName n" "drop pos buf = encLabels (splitName n) @ 0 # rest"
  shows "readName buf pos = Inr (if trimDot n = [] then [dot] else trimDot n,
    pos + length (encLabels (splitName n)) + 1)"
proof -
  have "plainAt buf pos (splitName n)" using assms(2) by (auto simp: plainAt_def)
  with assms(1) have "readNameLoop buf pos pos False 0 0 [] =
      Inr (splitName n, pos + length (encLabels (splitName n)) + 1)"
    by (subst readNameLoop_plain) (auto simp: okName_def)
  then show ?thesis by (simp add: readName_def splitName_eq_Nil)
qed

section \<open>Write contracts\<close>

definition writes ::
  "unicode \<Rightarrow> (encoder \<Rightarrow> wireErr + encoder) \<Rightarrow> (byte list \<Rightarrow> nat \<Rightarrow> nat \<Rightarrow> bool) \<Rightarrow> bool" where
  "writes u f R = (\<forall>e. encInv u e \<longrightarrow>
     (\<exists>e' ext. f e = Inr e' \<and> encInv u e' \<and> ebuf e' = ebuf e @ ext \<and>
        (\<forall>rest. R (ebuf e' @ rest) (length (ebuf e)) (length (ebuf e')))))"

lemma writes_seq:
  assumes "writes u f R" "writes u g S"
  shows "writes u (\<lambda>e. bindR (f e) g) (\<lambda>B a c. \<exists>b. R B a b \<and> S B b c)"
  unfolding writes_def
proof (intro allI impI)
  fix e assume "encInv u e"
  then obtain e1 x where 1: "f e = Inr e1" "encInv u e1" "ebuf e1 = ebuf e @ x"
    "\<And>rest. R (ebuf e1 @ rest) (length (ebuf e)) (length (ebuf e1))"
    using assms(1) unfolding writes_def by blast
  then obtain e2 y where 2: "g e1 = Inr e2" "encInv u e2" "ebuf e2 = ebuf e1 @ y"
    "\<And>rest. S (ebuf e2 @ rest) (length (ebuf e1)) (length (ebuf e2))"
    using assms(2) unfolding writes_def by blast
  have "\<exists>b. R (ebuf e2 @ rest) (length (ebuf e)) b \<and> S (ebuf e2 @ rest) b (length (ebuf e2))" for rest
    using 1(4) [of "y @ rest"] 2(4) [of rest] 2(3) by (intro exI [of _ "length (ebuf e1)"]) simp
  then show "\<exists>e' ext. bindR (f e) g = Inr e' \<and> encInv u e' \<and> ebuf e' = ebuf e @ ext \<and>
      (\<forall>rest. \<exists>b. R (ebuf e' @ rest) (length (ebuf e)) b \<and> S (ebuf e' @ rest) b (length (ebuf e')))"
    using 1 2 by auto
qed

lemma writesD:
  assumes "writes u f R" "encInv u e" "f e = Inr e'"
  shows "encInv u e'" "R (ebuf e' @ rest) (length (ebuf e)) (length (ebuf e'))"
  using assms unfolding writes_def by force+

lemma writesE:
  assumes "writes u f R" "encInv u e"
  obtains e' ext where "f e = Inr e'" "encInv u e'" "ebuf e' = ebuf e @ ext"
    "\<And>rest. R (ebuf e' @ rest) (length (ebuf e)) (length (ebuf e'))"
  using assms unfolding writes_def by blast

lemma writes_mono:
  "writes u f R \<Longrightarrow> (\<And>B a b. a \<le> b \<Longrightarrow> b \<le> length B \<Longrightarrow> R B a b \<Longrightarrow> S B a b) \<Longrightarrow> writes u f S"
  unfolding writes_def by (metis length_append le_add1 append.assoc)

lemma writes_emit:
  "writes u (\<lambda>e. Inr (emit bs e)) (\<lambda>B a b. b = a + length bs \<and> take (length bs) (drop a B) = bs)"
  unfolding writes_def by (auto intro: encInv_emit) (simp_all add: emit_def)

section \<open>The contract of writeName\<close>

text \<open>Two names the codec takes for the same: equal up to the case of ASCII letters.\<close>

definition sameName :: "gostr \<Rightarrow> gostr \<Rightarrow> bool" where
  "sameName a b = (canon a = canon b \<and> okName b \<and> isASCII b)"

lemma findSuffix_Some:
  "findSuffix u m ls = Some (before, off) \<Longrightarrow>
   \<exists>ss. ls = before @ ss \<and> ss \<noteq> [] \<and> m (ToLower u (joinDot ss)) = Some off"
  by (induction ls arbitrary: before) (fastforce split: option.splits)+

lemma writeLabels_total:
  "\<forall>l\<in>set ls. okLabel l \<Longrightarrow> \<exists>e'. writeLabels u ls e = Inr e'"
  by (induction ls arbitrary: e) (auto simp: okLabel_def Let_def)

lemma writeLabels_names:
  "writeLabels u ls e = Inr e' \<Longrightarrow> names e' s = Some off \<Longrightarrow>
   names e s = Some off \<or>
   (\<exists>before ss. ls = before @ ss \<and> ss \<noteq> [] \<and> s = ToLower u (joinDot ss)
      \<and> off = length (ebuf e) + length (encLabels before) \<and> off \<le> maxPointerOffset)"
proof (induction ls arbitrary: e)
  case (Cons l ls)
  define e1 where "e1 = (if names e (ToLower u (joinDot (l # ls))) = None \<and> length (ebuf e) \<le> maxPointerOffset
    then e\<lparr>names := (names e)(ToLower u (joinDot (l # ls)) \<mapsto> length (ebuf e))\<rparr> else e)"
  from Cons.prems(1) have run: "writeLabels u ls (emit (word_of_nat (length l) # l) e1) = Inr e'"
    by (auto simp: Let_def e1_def split: if_splits)
  from Cons.IH [OF run Cons.prems(2)] show ?case
  proof
    assume "names (emit (word_of_nat (length l) # l) e1) s = Some off"
    then have "names e s = Some off \<or>
        (s = ToLower u (joinDot (l # ls)) \<and> off = length (ebuf e) \<and> off \<le> maxPointerOffset)"
      by (auto simp: emit_def e1_def split: if_splits)
    then show ?thesis
    proof
      assume "s = ToLower u (joinDot (l # ls)) \<and> off = length (ebuf e) \<and> off \<le> maxPointerOffset"
      then show ?thesis
        by (intro disjI2 exI [of _ "[] :: gostr list"] exI [of _ "l # ls"]) simp
    qed blast
  next
    assume "\<exists>before ss. ls = before @ ss \<and> ss \<noteq> [] \<and> s = ToLower u (joinDot ss) \<and>
      off = length (ebuf (emit (word_of_nat (length l) # l) e1)) + length (encLabels before)
        \<and> off \<le> maxPointerOffset"
    then obtain before ss where "ls = before @ ss" "ss \<noteq> []" "s = ToLower u (joinDot ss)"
      "off = length (ebuf (emit (word_of_nat (length l) # l) e1)) + length (encLabels before)"
      "off \<le> maxPointerOffset" by blast
    then show ?thesis
      by (intro disjI2 exI [of _ "l # before"] exI [of _ ss]) (auto simp: emit_def e1_def)
  qed
qed simp

lemma lower_labels_eq:
  assumes "map lowerByte (joinDot ks) = map lowerByte (joinDot ss)"
    "\<forall>l\<in>set ks. okLabel l" "\<forall>l\<in>set ss. okLabel l"
  shows "map (map lowerByte) ks = map (map lowerByte) ss"
  using arg_cong [OF assms(1), of splitName] assms(2,3)
  by (simp add: splitName_map_lower splitName_joinDot)

lemma length_encLabels_lower: "length (encLabels (map (map lowerByte) ls)) = length (encLabels ls)"
  by (induction ls) auto

lemma sameName_joinDot:
  assumes "\<forall>l\<in>set ks. okLabel l \<and> isASCII l" "map (map lowerByte) ks = canon n" "okName n"
  shows "sameName n (if ks = [] then [dot] else joinDot ks)"
proof -
  have len: "length (encLabels ks) \<le> maxNameLength"
    using assms(2,3) length_encLabels_lower [of ks] length_encLabels_lower [of "splitName n"]
    by (simp add: canon_def okName_def)
  have "canon n = []" if "ks = []" using that assms(2) by simp
  moreover have "canon [dot] = []" by (simp add: canon_def trimDot_def)
  ultimately show ?thesis
    using assms len splitName_joinDot [of ks]
    by (auto simp: sameName_def canon_def isASCII_joinDot intro!: okName_joinDot)
qed

lemma encInv_writeLabels:
  assumes "encInv u e" "writeLabels u ls e = Inr e'" "\<forall>l\<in>set ls. okLabel l \<and> isASCII l"
  shows "encInv u (emit [0] e')"
proof -
  have buf: "ebuf e' = ebuf e @ encLabels ls" using writeLabels_shape [OF assms(2) refl] by simp
  have "off \<le> maxPointerOffset \<and> (\<exists>ks. (\<forall>l\<in>set ks. okLabel l \<and> isASCII l) \<and>
      plainAt (ebuf e' @ [0]) off ks \<and> map lowerByte (joinDot ks) = s)"
    if "names e' s = Some off" for s off
    using writeLabels_names [OF assms(2) that]
  proof
    assume "names e s = Some off"
    with assms(1) show ?thesis unfolding encInv_def buf
      by (metis plainAt_append append.assoc)
  next
    assume "\<exists>before ss. ls = before @ ss \<and> ss \<noteq> [] \<and> s = ToLower u (joinDot ss)
      \<and> off = length (ebuf e) + length (encLabels before) \<and> off \<le> maxPointerOffset"
    then obtain before ss where b: "ls = before @ ss" "s = ToLower u (joinDot ss)"
      "off = length (ebuf e) + length (encLabels before)" "off \<le> maxPointerOffset" by blast
    then have "plainAt (ebuf e' @ [0]) off ss" by (simp add: plainAt_def buf)
    moreover have "s = map lowerByte (joinDot ss)"
      using b(1,2) assms(3) by (simp add: ToLower_ascii isASCII_joinDot)
    ultimately show ?thesis using b assms(3) by auto
  qed
  then show ?thesis by (simp add: encInv_def emit_def)
qed

lemma writeName_fresh:
  assumes "encInv u e" "okName n" "isASCII n" "findSuffix u (names e) (splitName n) = None"
  shows "\<exists>e'. writeName u n e = Inr e' \<and> encInv u e' \<and> ebuf e' = ebuf e @ encLabels (splitName n) @ [0]"
proof -
  have ls: "\<forall>l\<in>set (splitName n). okLabel l \<and> isASCII l"
    using assms(2,3) isASCII_splitName by (auto simp: okName_def)
  then obtain e1 where e1: "writeLabels u (splitName n) e = Inr e1" using writeLabels_total by blast
  have "writeName u n e = Inr (emit [0] e1)"
    using e1 assms(4) okName_length [OF assms(2)] by (simp add: writeName_def Let_def splitName_def)
  moreover have "ebuf (emit [0] e1) = ebuf e @ encLabels (splitName n) @ [0]"
    using writeLabels_shape [OF e1 refl] by (simp add: emit_def)
  ultimately show ?thesis using encInv_writeLabels [OF assms(1) e1 ls] by blast
qed

lemma writeName_shared:
  assumes "encInv u e" "okName n" "isASCII n"
    "findSuffix u (names e) (splitName n) = Some (before, off)"
  shows "\<exists>ss ks e'. splitName n = before @ ss \<and> off \<le> maxPointerOffset \<and>
    (\<forall>l\<in>set ks. okLabel l \<and> isASCII l) \<and> plainAt (ebuf e) off ks \<and>
    map (map lowerByte) ks = map (map lowerByte) ss \<and>
    writeName u n e = Inr e' \<and> encInv u e' \<and> ebuf e' = ebuf e @ encLabels before @ pointerBytes off"
proof -
  obtain ss where ss: "splitName n = before @ ss" "names e (ToLower u (joinDot ss)) = Some off"
    using findSuffix_Some [OF assms(4)] by blast
  have ls: "\<forall>l\<in>set (splitName n). okLabel l \<and> isASCII l"
    using assms(2,3) isASCII_splitName by (auto simp: okName_def)
  then have low: "ToLower u (joinDot ss) = map lowerByte (joinDot ss)"
    using ss(1) by (simp add: ToLower_ascii isASCII_joinDot)
  obtain ks where ks: "off \<le> maxPointerOffset" "\<forall>l\<in>set ks. okLabel l \<and> isASCII l"
    "plainAt (ebuf e) off ks" "map lowerByte (joinDot ks) = map lowerByte (joinDot ss)"
    using assms(1) ss(2) low unfolding encInv_def by metis
  define e' where "e' = e\<lparr>ebuf := ebuf e @ encLabels before @ pointerBytes off\<rparr>"
  have "appendLabels before (ebuf e) = Inr (ebuf e @ encLabels before)"
    using ls ss(1) by (auto simp: appendLabels_Inr okLabel_def)
  then have "writeName u n e = Inr e'"
    using assms(4) okName_length [OF assms(2)]
    by (simp add: writeName_def Let_def splitName_def e'_def)
  moreover have "encInv u e'"
    using encInv_emit [OF assms(1), of "encLabels before @ pointerBytes off"]
    by (simp add: e'_def emit_def)
  moreover have "map (map lowerByte) ks = map (map lowerByte) ss"
    using lower_labels_eq [OF ks(4)] ks(2) ls ss(1) by auto
  ultimately show ?thesis using ss(1) ks e'_def
    by (intro exI [of _ ss] exI [of _ ks] exI [of _ e']) simp
qed

abbreviation readsName :: "gostr \<Rightarrow> byte list \<Rightarrow> nat \<Rightarrow> nat \<Rightarrow> bool" where
  "readsName n \<equiv> \<lambda>B a b. b \<le> a + 257 \<and> (\<exists>n'. readName B a = Inr (n', b) \<and> sameName n n')"

lemma readName_fresh:
  assumes "okName n" "isASCII n"
  shows "readsName n ((buf @ encLabels (splitName n) @ [0]) @ rest) (length buf)
    (length (buf @ encLabels (splitName n) @ [0]))"
proof -
  have "readName ((buf @ encLabels (splitName n) @ [0]) @ rest) (length buf) =
      Inr (if trimDot n = [] then [dot] else trimDot n, length buf + length (encLabels (splitName n)) + 1)"
    by (rule readName_plain [OF assms(1)]) simp
  moreover have "sameName n (if trimDot n = [] then [dot] else trimDot n)"
    using sameName_joinDot [of "splitName n" n] assms isASCII_splitName
    by (auto simp: okName_def canon_def splitName_eq_Nil)
  ultimately show ?thesis using assms(1) by (auto simp: okName_def)
qed

lemma readName_shared:
  assumes "okName n" "isASCII n" "splitName n = before @ ss" "off \<le> maxPointerOffset"
    "\<forall>l\<in>set ks. okLabel l \<and> isASCII l" "plainAt buf off ks"
    "map (map lowerByte) ks = map (map lowerByte) ss"
  shows "readsName n ((buf @ encLabels before @ pointerBytes off) @ rest) (length buf)
    (length (buf @ encLabels before @ pointerBytes off))"
proof -
  define B where "B = (buf @ encLabels before @ pointerBytes off) @ rest"
  have ok: "\<forall>l\<in>set before. okLabel l" "\<forall>l\<in>set before. isASCII l"
    using assms(1-3) isASCII_splitName [of n] by (auto simp: okName_def)
  have len: "length (encLabels before) + length (encLabels ks) \<le> maxNameLength"
    using assms(1,3) arg_cong [OF assms(7), of "\<lambda>l. length (encLabels l)"]
    by (simp add: okName_def length_encLabels_lower)
  have d: "drop (length buf) B = encLabels before @ pointerBytes off @ rest" by (simp add: B_def)
  have "plainAt B off ks" using plainAt_append [OF assms(6)] by (simp add: B_def)
  then have "readNameLoop B (length buf) (length buf) False 0 0 [] =
      Inr (before @ ks, length buf + length (encLabels before) + 2)"
    using readNameLoop_labels [OF ok(1) d] readNameLoop_pointer [OF drop_appendD [OF d] assms(4)]
      readNameLoop_plain [of ks B off] assms(5) len by simp
  moreover have "sameName n (if before @ ks = [] then [dot] else joinDot (before @ ks))"
    using assms(3,5,7) ok by (intro sameName_joinDot assms(1)) (auto simp: canon_def)
  ultimately show ?thesis
    using len unfolding B_def [symmetric] readName_def by (simp add: pointerBytes_def)
qed

lemma writes_name:
  assumes "okName n" "isASCII n"
  shows "writes u (writeName u n) (readsName n)"
  unfolding writes_def
proof (intro allI impI)
  fix e assume inv: "encInv u e"
  show "\<exists>e' ext. writeName u n e = Inr e' \<and> encInv u e' \<and> ebuf e' = ebuf e @ ext \<and>
    (\<forall>rest. readsName n (ebuf e' @ rest) (length (ebuf e)) (length (ebuf e')))"
  proof (cases "findSuffix u (names e) (splitName n)")
    case None
    from writeName_fresh [OF inv assms None] obtain e' where
      "writeName u n e = Inr e'" "encInv u e'" "ebuf e' = ebuf e @ encLabels (splitName n) @ [0]"
      by blast
    with readName_fresh [OF assms, of "ebuf e"] show ?thesis by auto
  next
    case (Some p)
    obtain before off where p: "p = (before, off)" by (cases p)
    with Some have f: "findSuffix u (names e) (splitName n) = Some (before, off)" by simp
    from writeName_shared [OF inv assms f] obtain ss ks e' where w:
      "splitName n = before @ ss" "off \<le> maxPointerOffset" "\<forall>l\<in>set ks. okLabel l \<and> isASCII l"
      "plainAt (ebuf e) off ks" "map (map lowerByte) ks = map (map lowerByte) ss"
      "writeName u n e = Inr e'" "encInv u e'" "ebuf e' = ebuf e @ encLabels before @ pointerBytes off"
      by blast
    with readName_shared [OF assms w(1-5)] show ?thesis by auto
  qed
qed

section \<open>Fixed-width fields\<close>

lemma take_drop_nth:
  "take k (drop a B) = xs \<Longrightarrow> length xs = k \<Longrightarrow> i < k \<Longrightarrow> a + k \<le> length B \<and> B ! (a + i) = xs ! i"
  by (auto simp: nth_take)

lemma readUint16_written:
  assumes "take 2 (drop a B) = put16 v"
  shows "readUint16 B a = Inr (v, a + 2)"
  using take_drop_nth [OF assms, of 0] take_drop_nth [OF assms, of 1]
  by (simp add: readUint16_def put16_def)

lemma readUint32_written:
  assumes "take 4 (drop a B) = put32 v"
  shows "readUint32 B a = Inr (v, a + 4)"
  using take_drop_nth [OF assms, of 0] take_drop_nth [OF assms, of 1]
    take_drop_nth [OF assms, of 2] take_drop_nth [OF assms, of 3]
  by (simp add: readUint32_def put32_def)

lemma readBytes_written:
  assumes "take (length bs) (drop a B) = bs" "a \<le> length B"
  shows "readBytes B a (length bs) = Inr (bs, a + length bs)"
  using assms arg_cong [OF assms(1), of length] by (auto simp: readBytes_def)

lemma writes_uint16:
  "writes u (\<lambda>e. Inr (writeUint16 v e)) (\<lambda>B a b. b = a + 2 \<and> readUint16 B a = Inr (v, b))"
  unfolding writeUint16_def
  by (rule writes_mono [OF writes_emit]) (auto simp: readUint16_written)

lemma writes_uint32:
  "writes u (\<lambda>e. Inr (writeUint32 v e)) (\<lambda>B a b. b = a + 4 \<and> readUint32 B a = Inr (v, b))"
  unfolding writeUint32_def
  by (rule writes_mono [OF writes_emit]) (auto simp: readUint32_written)

lemma writes_bytes:
  "writes u (\<lambda>e. Inr (emit bs e)) (\<lambda>B a b. b = a + length bs \<and> readBytes B a (length bs) = Inr (bs, b)
     \<and> drop a B = bs @ drop b B)"
  by (rule writes_mono [OF writes_emit])
    (auto simp: readBytes_written, metis append_take_drop_id drop_drop add.commute)

lemma writes_comp:
  "writes u (\<lambda>e. Inr (f e)) R \<Longrightarrow> writes u (\<lambda>e. Inr (g e)) S \<Longrightarrow>
   writes u (\<lambda>e. Inr (g (f e))) (\<lambda>B a c. \<exists>b. R B a b \<and> S B b c)"
  using writes_seq [of u "\<lambda>e. Inr (f e)" R "\<lambda>e. Inr (g e)" S] by simp

end
