(* ===== verification/Wire_Roundtrip.thy ===== *)
theory Wire_Roundtrip
  imports Wire_Contracts
begin

text \<open>
  The codec as a whole: what the encoder writes, the decoder reads back.  Questions,
  records and messages satisfy the write contract of \<open>Wire_Contracts\<close>, from which the round
  trip of \<open>Pack\<close> and \<open>Unpack\<close> follows.
\<close>

section \<open>Questions and records\<close>

definition sameQuestion :: "Question \<Rightarrow> Question \<Rightarrow> bool" where
  "sameQuestion q q' = (sameName (qName q) (qName q') \<and> qType q' = qType q \<and> qClass q' = qClass q)"

lemma writes_question:
  assumes "okName (qName q)" "isASCII (qName q)"
  shows "writes u (writeQuestion u q)
    (\<lambda>B a b. \<exists>q'. readQuestion B a = Inr (q', b) \<and> sameQuestion q q')"
proof -
  have eq: "writeQuestion u q = (\<lambda>e. bindR (writeName u (qName q) e)
      (\<lambda>e. Inr (writeUint16 (qClass q) (writeUint16 (qType q) e))))"
    by (rule ext) (simp add: writeQuestion_def)
  show ?thesis unfolding eq
    by (rule writes_mono [OF writes_seq [OF writes_name [OF assms]
          writes_comp [OF writes_uint16 writes_uint16]]])
      (auto simp: readQuestion_def sameQuestion_def)
qed

definition sameSOA :: "SOA \<Rightarrow> SOA \<Rightarrow> bool" where
  "sameSOA s t = (sameName (MName s) (MName t) \<and> sameName (RName s) (RName t) \<and>
     Serial t = Serial s \<and> Refresh t = Refresh s \<and> Retry t = Retry s \<and> Expire t = Expire s \<and>
     Minimum t = Minimum s)"

lemma writes_soa:
  assumes "okName (MName soa)" "isASCII (MName soa)" "okName (RName soa)" "isASCII (RName soa)"
  shows "writes u (writeSOA u soa)
    (\<lambda>B a b. b \<le> a + 534 \<and> (\<exists>soa'. readSOA B a = Inr (soa', b) \<and> sameSOA soa soa'))"
proof -
  have eq: "writeSOA u soa = (\<lambda>e. bindR (writeName u (MName soa) e) (\<lambda>e.
     bindR (writeName u (RName soa) e) (\<lambda>e.
       Inr (writeUint32 (Minimum soa) (writeUint32 (Expire soa) (writeUint32 (Retry soa)
             (writeUint32 (Refresh soa) (writeUint32 (Serial soa) e))))))))"
    by (rule ext) (simp add: writeSOA_def)
  show ?thesis unfolding eq
    by (rule writes_mono [OF writes_seq [OF writes_name [OF assms(1,2)]
          writes_seq [OF writes_name [OF assms(3,4)]
          writes_comp [OF writes_comp [OF writes_comp [OF writes_comp
            [OF writes_uint32 writes_uint32] writes_uint32] writes_uint32] writes_uint32]]]])
      (auto simp: readSOA_def sameSOA_def)
qed

text \<open>
  A record the codec carries faithfully: its names are ASCII wire names, its addresses have
  the length of their type, raw RDATA fits in the length field, and a PTR or MX record holds
  one uncompressed name and nothing after it.
\<close>

definition plainName :: "byte list \<Rightarrow> bool" where
  "plainName bs = (case readName bs 0 of
     Inl _ \<Rightarrow> False | Inr (n, off) \<Rightarrow> off = length bs \<and> encodeName n = Inr bs)"

definition wfRR :: "RR \<Rightarrow> bool" where
  "wfRR rr =
     (okName (rrName rr) \<and> isASCII (rrName rr) \<and>
      (if rrType rr = TypeA then (case rrA rr of None \<Rightarrow> False | Some b \<Rightarrow> length b = 4)
       else if rrType rr = TypeAAAA then (case rrAAAA rr of None \<Rightarrow> False | Some b \<Rightarrow> length b = 16)
       else if rrType rr = TypeNS then okName (rrNS rr) \<and> isASCII (rrNS rr)
       else if rrType rr = TypeCNAME then okName (rrCNAME rr) \<and> isASCII (rrCNAME rr)
       else if rrType rr = TypeSOA then (case rrSOA rr of None \<Rightarrow> False | Some soa \<Rightarrow>
         okName (MName soa) \<and> isASCII (MName soa) \<and> okName (RName soa) \<and> isASCII (RName soa))
       else if rrType rr = TypePTR then plainName (Raw rr)
       else if rrType rr = TypeMX then 2 \<le> length (Raw rr) \<and> plainName (drop 2 (Raw rr))
       else length (Raw rr) < 65536))"

text \<open>
  The decoded record agrees with the original on owner, type, class, TTL and the RDATA of
  its type; RDLENGTH is what the wire said.
\<close>

definition sameRdata :: "RR \<Rightarrow> RR \<Rightarrow> bool" where
  "sameRdata rr rr' =
     (if rrType rr = TypeA then rrA rr' = rrA rr
      else if rrType rr = TypeAAAA then rrAAAA rr' = rrAAAA rr
      else if rrType rr = TypeNS then sameName (rrNS rr) (rrNS rr')
      else if rrType rr = TypeCNAME then sameName (rrCNAME rr) (rrCNAME rr')
      else if rrType rr = TypeSOA then
        (\<exists>soa soa'. rrSOA rr = Some soa \<and> rrSOA rr' = Some soa' \<and> sameSOA soa soa')
      else Raw rr' = Raw rr)"

definition sameRR :: "RR \<Rightarrow> RR \<Rightarrow> bool" where
  "sameRR rr rr' =
     (sameName (rrName rr) (rrName rr') \<and> rrType rr' = rrType rr \<and> rrClass rr' = rrClass rr \<and>
      TTL rr' = TTL rr \<and> sameRdata rr rr')"

text \<open>
  What reading the RDATA back amounts to: from any record under construction with the right
  type and length, \<open>readRdata\<close> consumes exactly the bytes written.
\<close>

abbreviation readsRdata :: "RR \<Rightarrow> byte list \<Rightarrow> nat \<Rightarrow> nat \<Rightarrow> bool" where
  "readsRdata rr \<equiv> \<lambda>B a b. b < a + 65536 \<and>
     (\<forall>r. rrType r = rrType rr \<longrightarrow> RDLength r = word_of_nat (b - a) \<longrightarrow>
        (\<exists>r'. readRdata B a r = Inr (r', b) \<and> sameRdata rr r' \<and> rrName r' = rrName r \<and>
          rrType r' = rrType r \<and> rrClass r' = rrClass r \<and> TTL r' = TTL r \<and> RDLength r' = RDLength r))"

lemma plainName_read:
  assumes "plainName bs" "drop a B = bs @ rest"
  shows "\<exists>n. readName B a = Inr (n, a + length bs) \<and> encodeName n = Inr bs" "length bs \<le> 256"
proof -
  obtain n where n: "okName n" "encodeName n = Inr bs"
    using assms(1) by (auto simp: plainName_def dest: readName_ok split: sum.splits)
  then have bs: "bs = encLabels (splitName n) @ [0]" by (simp add: encodeName_eq)
  with n(1) show "length bs \<le> 256" by (simp add: okName_def)
  have "drop a B = encLabels (splitName n) @ 0 # rest" using assms(2) bs by simp
  from readName_plain [OF n(1) this] have
    r: "readName B a = Inr (if trimDot n = [] then [dot] else trimDot n, a + length bs)"
    by (simp add: bs)
  show "\<exists>n. readName B a = Inr (n, a + length bs) \<and> encodeName n = Inr bs"
    using r readName_encodeName [OF r] trimDot_joinDot [of "splitName n"] n(1) bs
    by (auto simp: okName_def splitName_def Let_def trimDot_def split: if_splits)
qed

lemma writeRdata_simps:
  "rrType rr = TypeA \<Longrightarrow> To4 (rrA rr) = Some b \<Longrightarrow> writeRdata u rr = (\<lambda>e. Inr (emit b e))"
  "rrType rr = TypeAAAA \<Longrightarrow> To16 (rrAAAA rr) = Some b \<Longrightarrow> writeRdata u rr = (\<lambda>e. Inr (emit b e))"
  "rrType rr = TypeNS \<Longrightarrow> writeRdata u rr = writeName u (rrNS rr)"
  "rrType rr = TypeCNAME \<Longrightarrow> writeRdata u rr = writeName u (rrCNAME rr)"
  "rrType rr = TypeSOA \<Longrightarrow> rrSOA rr = Some soa \<Longrightarrow> writeRdata u rr = writeSOA u soa"
  "rrType rr \<notin> {TypeA, TypeAAAA, TypeNS, TypeCNAME, TypeSOA} \<Longrightarrow>
     writeRdata u rr = (\<lambda>e. Inr (emit (Raw rr) e))"
  by (auto simp: writeRdata_def fun_eq_iff)

lemma unat_small: "k < 65536 \<Longrightarrow> unat (word_of_nat k :: u16) = k"
  by (simp add: unat_of_nat take_bit_nat_eq_self)

lemma writes_rdata_mx:
  assumes "wfRR rr" and mx: "rrType rr = TypeMX"
  shows "writes u (writeRdata u rr) (readsRdata rr)"
proof -
  have p: "plainName (drop 2 (Raw rr))" "2 \<le> length (Raw rr)"
    using assms(1) mx by (simp_all add: wfRR_def)
  from mx have w: "writeRdata u rr = (\<lambda>e. Inr (emit (Raw rr) e))" by (intro writeRdata_simps(6)) simp
  show ?thesis unfolding w
  proof (rule writes_mono [OF writes_bytes], goal_cases)
    case (1 B a b)
    then have d: "drop a B = take 2 (Raw rr) @ (drop 2 (Raw rr) @ drop b B)" by simp
    then have d2: "drop (a + 2) B = drop 2 (Raw rr) @ drop b B" using drop_appendD [OF d] p(2) by simp
    from plainName_read [OF p(1) d2] obtain n where n: "readName B (a + 2) = Inr (n, b)"
      "encodeName n = Inr (drop 2 (Raw rr))" "length (Raw rr) \<le> 258"
      using 1 p(2) by auto
    obtain x y where xy: "take 2 (Raw rr) = [x, y]"
      using p(2) by (cases "Raw rr"; cases "tl (Raw rr)") auto
    then have "take 2 (drop a B) = put16 (be16 x y)" using d by simp
    from readUint16_written [OF this] have "readUint16 B a = Inr (be16 x y, a + 2)" .
    moreover have "[x, y] @ drop 2 (Raw rr) = Raw rr" using xy by (metis append_take_drop_id)
    ultimately show ?case using n 1 p(2) by (auto simp: mx readRdata_def sameRdata_def)
  qed
qed

lemma writes_rdata:
  assumes "wfRR rr"
  shows "writes u (writeRdata u rr) (readsRdata rr)"
proof -
  consider (a) "rrType rr = TypeA" | (aaaa) "rrType rr = TypeAAAA" | (ns) "rrType rr = TypeNS"
    | (cname) "rrType rr = TypeCNAME" | (soa) "rrType rr = TypeSOA" | (ptr) "rrType rr = TypePTR"
    | (mx) "rrType rr = TypeMX"
    | (raw) "rrType rr \<notin> {TypeA, TypeAAAA, TypeNS, TypeCNAME, TypeSOA, TypePTR, TypeMX}"
    by auto
  then show ?thesis
  proof cases
    case a
    then obtain b where b: "rrA rr = Some b" "length b = 4" using assms by (auto simp: wfRR_def split: option.splits)
    then have "To4 (rrA rr) = Some b" by (simp add: To4_def)
    from writeRdata_simps(1) [OF a this] show ?thesis
      by simp (rule writes_mono [OF writes_bytes], auto simp: a b readRdata_def sameRdata_def)
  next
    case aaaa
    then obtain b where b: "rrAAAA rr = Some b" "length b = 16" using assms by (auto simp: wfRR_def split: option.splits)
    then have "To16 (rrAAAA rr) = Some b" by (simp add: To16_def)
    from writeRdata_simps(2) [OF aaaa this] show ?thesis
      by simp (rule writes_mono [OF writes_bytes], auto simp: aaaa b readRdata_def sameRdata_def)
  next
    case ns
    then have "okName (rrNS rr)" "isASCII (rrNS rr)" using assms by (simp_all add: wfRR_def)
    then show ?thesis unfolding writeRdata_simps(3) [OF ns]
      by (intro writes_mono [OF writes_name]) (auto simp: ns readRdata_def sameRdata_def)
  next
    case cname
    then have "okName (rrCNAME rr)" "isASCII (rrCNAME rr)" using assms by (simp_all add: wfRR_def)
    then show ?thesis unfolding writeRdata_simps(4) [OF cname]
      by (intro writes_mono [OF writes_name]) (auto simp: cname readRdata_def sameRdata_def)
  next
    case soa
    then obtain s where s: "rrSOA rr = Some s" "okName (MName s)" "isASCII (MName s)"
      "okName (RName s)" "isASCII (RName s)" using assms by (auto simp: wfRR_def split: option.splits)
    then show ?thesis unfolding writeRdata_simps(5) [OF soa s(1)]
      by (intro writes_mono [OF writes_soa]) (auto simp: soa s(1) readRdata_def sameRdata_def)
  next
    case ptr
    then have p: "plainName (Raw rr)" using assms by (simp add: wfRR_def)
    from ptr have "writeRdata u rr = (\<lambda>e. Inr (emit (Raw rr) e))" by (intro writeRdata_simps(6)) simp
    then show ?thesis
      by simp (rule writes_mono [OF writes_bytes],
        use plainName_read [OF p] in \<open>fastforce simp: ptr readRdata_def sameRdata_def\<close>)
  next
    case mx
    then show ?thesis by (rule writes_rdata_mx [OF assms])
  next
    case raw
    then have r: "length (Raw rr) < 65536" using assms by (simp add: wfRR_def)
    from raw have "writeRdata u rr = (\<lambda>e. Inr (emit (Raw rr) e))" by (intro writeRdata_simps(6)) simp
    then show ?thesis
      by simp (rule writes_mono [OF writes_bytes], use raw r in \<open>auto simp: readRdata_def sameRdata_def unat_small\<close>)
  qed
qed

text \<open>The length field and the RDATA: the placeholder is patched once the RDATA is known.\<close>

definition writeLenRdata :: "unicode \<Rightarrow> RR \<Rightarrow> encoder \<Rightarrow> wireErr + encoder" where
  "writeLenRdata u rr e =
     (let e1 = writeUint16 0 e
      in bindR (writeRdata u rr e1) (\<lambda>e2.
           Inr (e2\<lparr>ebuf := patch16 (length (ebuf e))
                    (word_of_nat (length (ebuf e2) - length (ebuf e1))) (ebuf e2)\<rparr>)))"

lemma writeRR_seq:
  "writeRR u rr = (\<lambda>e. bindR (writeName u (rrName rr) e)
     (\<lambda>e. bindR (Inr (writeUint32 (TTL rr) (writeUint16 (rrClass rr) (writeUint16 (rrType rr) e))))
       (writeLenRdata u rr)))"
  by (rule ext) (simp add: writeRR_def writeLenRdata_def Let_def)

lemma patch16_placeholder: "patch16 (length b) v (b @ [x, y] @ ext) = b @ put16 v @ ext"
  by (simp add: patch16_def put16_def list_update_append)

lemma writes_lenRdata:
  assumes "wfRR rr"
  shows "writes u (writeLenRdata u rr) (\<lambda>B a c. \<exists>v. readUint16 B a = Inr (v, a + 2) \<and>
    v = word_of_nat (c - (a + 2)) \<and> a + 2 \<le> c \<and> readsRdata rr B (a + 2) c)"
  unfolding writes_def
proof (intro allI impI)
  fix e assume inv: "encInv u e"
  have w: "writeUint16 v e = emit [ucast (drop_bit 8 v), ucast v] e" for v
    by (simp add: writeUint16_def put16_def)
  obtain e2 where e2: "writeRdata u rr (writeUint16 0 e) = Inr e2"
    using writes_rdata [OF assms, of u] encInv_emit [OF inv] unfolding writes_def w by blast
  from rdata_writer.grows [OF this] obtain ext where
    ext: "ebuf e2 = ebuf (writeUint16 0 e) @ ext" by blast
  define v where "v = (word_of_nat (length ext) :: u16)"
  define e3 where "e3 = e2\<lparr>ebuf := ebuf e @ put16 v @ ext\<rparr>"
  have run: "writeRdata u rr (writeUint16 v e) = Inr e3"
    using rdata_writer.patched [OF e2 [unfolded w], of "put16 v"] ext
    by (auto simp: e3_def w emit_def put16_def)
  have inv3: "encInv u e3" and read: "\<And>rest. readsRdata rr (ebuf e3 @ rest)
      (length (ebuf (writeUint16 v e))) (length (ebuf e3))"
    using writesD [OF writes_rdata [OF assms] _ run] encInv_emit [OF inv] unfolding w by blast+
  have fin: "writeLenRdata u rr e = Inr e3"
    using e2 ext patch16_placeholder [of "ebuf e" v 0 0 ext]
    by (simp add: writeLenRdata_def Let_def e3_def v_def w emit_def put16_def)
  have len: "length (ebuf (writeUint16 v e)) = length (ebuf e) + 2"
    "length (ebuf e3) = length (ebuf e) + 2 + length ext"
    by (simp_all add: w emit_def e3_def)
  have "readUint16 (ebuf e3 @ rest) (length (ebuf e)) = Inr (v, length (ebuf e) + 2)" for rest
    by (rule readUint16_written) (simp add: e3_def)
  with read have "\<forall>rest. \<exists>v. readUint16 (ebuf e3 @ rest) (length (ebuf e)) = Inr (v, length (ebuf e) + 2) \<and>
      v = word_of_nat (length (ebuf e3) - (length (ebuf e) + 2)) \<and> length (ebuf e) + 2 \<le> length (ebuf e3) \<and>
      readsRdata rr (ebuf e3 @ rest) (length (ebuf e) + 2) (length (ebuf e3))"
    unfolding len(1) by (simp add: len(2) v_def)
  with fin inv3 show "\<exists>e' ex. writeLenRdata u rr e = Inr e' \<and> encInv u e' \<and> ebuf e' = ebuf e @ ex \<and>
      (\<forall>rest. \<exists>v. readUint16 (ebuf e' @ rest) (length (ebuf e)) = Inr (v, length (ebuf e) + 2) \<and>
        v = word_of_nat (length (ebuf e') - (length (ebuf e) + 2)) \<and> length (ebuf e) + 2 \<le> length (ebuf e') \<and>
        readsRdata rr (ebuf e' @ rest) (length (ebuf e) + 2) (length (ebuf e')))"
    by (intro exI [of _ e3] exI [of _ "put16 v @ ext"]) (simp add: e3_def)
qed

lemma writes_rr:
  assumes "wfRR rr"
  shows "writes u (writeRR u rr) (\<lambda>B a b. \<exists>rr'. readRR B a = Inr (rr', b) \<and> sameRR rr rr')"
proof -
  have n: "okName (rrName rr)" "isASCII (rrName rr)" using assms by (simp_all add: wfRR_def)
  show ?thesis unfolding writeRR_seq
  proof (rule writes_mono [OF writes_seq [OF writes_name [OF n] writes_seq [OF writes_comp
        [OF writes_comp [OF writes_uint16 writes_uint16] writes_uint32] writes_lenRdata [OF assms]]]], goal_cases)
    case (1 B a c)
    then obtain b b2 b4 b8 where "readsName (rrName rr) B a b"
      and fields: "b2 = b + 2" "readUint16 B b = Inr (rrType rr, b2)" "b4 = b2 + 2"
        "readUint16 B b2 = Inr (rrClass rr, b4)" "b8 = b4 + 4" "readUint32 B b4 = Inr (TTL rr, b8)"
        "readUint16 B b8 = Inr (word_of_nat (c - (b8 + 2)), b8 + 2)" "readsRdata rr B (b8 + 2) c"
        "b8 + 2 \<le> c"
      by blast
    then obtain n' where name: "readName B a = Inr (n', b)" "sameName (rrName rr) n'" by blast
    define k where "k = c - (b8 + 2)"
    note fields = fields [folded k_def]
    have c: "c = b8 + 2 + k" "k < 65536" using fields(8,9) by (auto simp: k_def)
    define r where "r = zeroRR\<lparr>rrName := n', rrType := rrType rr, rrClass := rrClass rr,
      TTL := TTL rr, RDLength := word_of_nat k\<rparr>"
    have "rrType r = rrType rr" "RDLength r = word_of_nat k" by (simp_all add: r_def)
    with fields(8) obtain r' where r': "readRdata B (b8 + 2) r = Inr (r', c)" "sameRdata rr r'"
      "rrName r' = rrName r" "rrType r' = rrType r" "rrClass r' = rrClass r" "TTL r' = TTL r"
      by blast
    have "readRR B a = Inr (r', c)"
      using name fields(2,4,6,7) r'(1) c by (simp add: readRR_def Let_def r_def [symmetric] unat_small)
    moreover have "sameRR rr r'" using r' name(2) by (simp add: sameRR_def r_def)
    ultimately show ?case by blast
  qed
qed

lemma writes_rrs:
  "list_all wfRR rrs \<Longrightarrow> writes u (writeRRs u rrs)
     (\<lambda>B a b. \<exists>rrs'. readRRs B a (length rrs) = Inr (rrs', b) \<and> list_all2 sameRR rrs rrs')"
proof (induction rrs)
  case Nil
  then show ?case by (auto simp: writes_def)
next
  case (Cons rr rrs)
  have eq: "writeRRs u (rr # rrs) = (\<lambda>e. bindR (writeRR u rr e) (writeRRs u rrs))" by (rule ext) simp
  show ?case unfolding eq
    by (rule writes_mono [OF writes_seq [OF writes_rr Cons.IH]]) (use Cons.prems in auto)
qed

lemma writes_questions:
  "list_all (\<lambda>q. okName (qName q) \<and> isASCII (qName q)) qs \<Longrightarrow> writes u (writeQuestions u qs)
     (\<lambda>B a b. \<exists>qs'. readQuestions B a (length qs) = Inr (qs', b) \<and> list_all2 sameQuestion qs qs')"
proof (induction qs)
  case Nil
  then show ?case by (auto simp: writes_def)
next
  case (Cons q qs)
  have eq: "writeQuestions u (q # qs) = (\<lambda>e. bindR (writeQuestion u q e) (writeQuestions u qs))" by (rule ext) simp
  show ?case unfolding eq
    by (rule writes_mono [OF writes_seq [OF writes_question Cons.IH]]) (use Cons.prems in auto)
qed

section \<open>Messages\<close>

text \<open>
  The header fields the wire carries: a four-bit opcode and response code survive, the
  counts are those of the sections.
\<close>

definition wfMsg :: "Message \<Rightarrow> bool" where
  "wfMsg m =
     (unat (Opcode (header m)) < 16 \<and> unat (RCode (header m)) < 16 \<and>
      length (Questions m) < 65536 \<and> length (Answers m) < 65536 \<and>
      length (Authorities m) < 65536 \<and> length (Additionals m) < 65536 \<and>
      list_all (\<lambda>q. okName (qName q) \<and> isASCII (qName q)) (Questions m) \<and>
      list_all wfRR (Answers m) \<and> list_all wfRR (Authorities m) \<and> list_all wfRR (Additionals m))"

definition sameMsg :: "Message \<Rightarrow> Message \<Rightarrow> bool" where
  "sameMsg m m' =
     (header m' = (header m)\<lparr>QDCount := word_of_nat (length (Questions m)),
        ANCount := word_of_nat (length (Answers m)), NSCount := word_of_nat (length (Authorities m)),
        ARCount := word_of_nat (length (Additionals m))\<rparr> \<and>
      list_all2 sameQuestion (Questions m) (Questions m') \<and>
      list_all2 sameRR (Answers m) (Answers m') \<and>
      list_all2 sameRR (Authorities m) (Authorities m') \<and>
      list_all2 sameRR (Additionals m) (Additionals m'))"

lemma nibble_take_bit: "unat (x :: byte) < 16 \<Longrightarrow> take_bit 4 x = x"
  using take_bit_nat_eq_self [of "unat x" 4] by (simp add: word_unat_eq_iff unsigned_take_bit_eq)

lemma nibble: "unat (x :: byte) < 16 \<Longrightarrow> x AND 0x0F = x"
  using nibble_take_bit [of x] by (simp add: take_bit_eq_mask mask_eq_exp_minus_1)

lemma nibble_bits: "unat (x :: byte) < 16 \<Longrightarrow> 4 \<le> n \<Longrightarrow> \<not> bit x n"
  by (metis nibble_take_bit bit_take_bit_iff not_le)

lemma byte_flag: "x AND 0x80 \<noteq> 0 \<longleftrightarrow> bit (x :: byte) 7" "x AND 0x20 \<noteq> 0 \<longleftrightarrow> bit x 5"
  "x AND 0x10 \<noteq> 0 \<longleftrightarrow> bit x 4" "x AND 0x04 \<noteq> 0 \<longleftrightarrow> bit x 2" "x AND 0x02 \<noteq> 0 \<longleftrightarrow> bit x 1"
  "x AND 0x01 \<noteq> 0 \<longleftrightarrow> bit x 0"
  using and_exp_eq_0_iff_not_bit [of x 7] and_exp_eq_0_iff_not_bit [of x 5]
    and_exp_eq_0_iff_not_bit [of x 4] and_exp_eq_0_iff_not_bit [of x 2]
    and_exp_eq_0_iff_not_bit [of x 1] and_exp_eq_0_iff_not_bit [of x 0] by simp_all

lemma flags1_bits:
  assumes "unat (Opcode h) < 16"
  shows "flags1 h AND 0x80 \<noteq> 0 \<longleftrightarrow> QR h" "flags1 h AND 0x04 \<noteq> 0 \<longleftrightarrow> AA h"
    "flags1 h AND 0x02 \<noteq> 0 \<longleftrightarrow> TC h" "flags1 h AND 0x01 \<noteq> 0 \<longleftrightarrow> RD h"
  unfolding byte_flag flags1_def nibble [OF assms]
  using nibble_bits [OF assms] by (simp_all add: bit_simps)

lemma flags1_opcode:
  assumes "unat (Opcode h) < 16"
  shows "drop_bit 3 (flags1 h) AND 0x0F = Opcode h"
proof -
  have low: "n < 4" if "bit (Opcode h) n" for n
    using nibble_bits [OF assms, of n] that by (meson not_le)
  have "drop_bit 3 (push_bit 3 (Opcode h)) = Opcode h"
    by (rule bit_word_eqI) (auto simp: bit_simps dest: low)
  then show ?thesis
    unfolding flags1_def nibble [OF assms]
    by (simp add: bit.conj_disj_distrib2 nibble [OF assms])
qed

lemma flags2_bits:
  assumes "unat (RCode h) < 16"
  shows "flags2 h AND 0x80 \<noteq> 0 \<longleftrightarrow> RA h" "flags2 h AND 0x20 \<noteq> 0 \<longleftrightarrow> AD h"
    "flags2 h AND 0x10 \<noteq> 0 \<longleftrightarrow> CD h" "flags2 h AND 0x0F = RCode h"
proof -
  show "flags2 h AND 0x80 \<noteq> 0 \<longleftrightarrow> RA h" "flags2 h AND 0x20 \<noteq> 0 \<longleftrightarrow> AD h"
    "flags2 h AND 0x10 \<noteq> 0 \<longleftrightarrow> CD h"
    unfolding byte_flag flags2_def nibble [OF assms]
    using nibble_bits [OF assms] by (simp_all add: bit_simps)
  show "flags2 h AND 0x0F = RCode h"
    unfolding flags2_def nibble [OF assms] by (simp add: bit.conj_disj_distrib2 nibble [OF assms])
qed

lemma readHeader_written:
  assumes "unat (Opcode (header m)) < 16" "unat (RCode (header m)) < 16"
  shows "readHeader (headerBytes m @ rest) 0 =
    Inr ((header m)\<lparr>QDCount := word_of_nat (length (Questions m)),
        ANCount := word_of_nat (length (Answers m)), NSCount := word_of_nat (length (Authorities m)),
        ARCount := word_of_nat (length (Additionals m))\<rparr>, 12)"
  using flags1_bits [OF assms(1)] flags1_opcode [OF assms(1)] flags2_bits [OF assms(2)]
  by (simp add: readHeader_def readUint16_def readUint8_def headerBytes_def put16_def)

lemma headerBytes_length [simp]: "length (headerBytes m) = 12"
  by (simp add: headerBytes_def)

section \<open>Encoding never fails on well-formed input\<close>

lemma writeName_total:
  assumes "okName n"
  shows "\<exists>e'. writeName u n e = Inr e'"
proof (cases "findSuffix u (names e) (splitName n)")
  case None
  have "\<forall>l\<in>set (splitName n). okLabel l" using assms by (simp add: okName_def)
  then obtain e1 where "writeLabels u (splitName n) e = Inr e1" using writeLabels_total by blast
  then show ?thesis
    using None okName_length [OF assms] by (simp add: writeName_def Let_def splitName_def)
next
  case (Some p)
  obtain before off where p: "p = (before, off)" by (cases p)
  have "\<forall>l\<in>set before. l \<noteq> [] \<and> length l \<le> maxLabelLength"
    using findSuffix_Some [OF Some [unfolded p]] assms by (auto simp: okName_def okLabel_def)
  then have "appendLabels before (ebuf e) = Inr (ebuf e @ encLabels before)"
    by (simp add: appendLabels_Inr)
  then show ?thesis
    using Some p okName_length [OF assms] by (simp add: writeName_def Let_def splitName_def)
qed

lemma writeSOA_total:
  "okName (MName soa) \<Longrightarrow> okName (RName soa) \<Longrightarrow> \<exists>e'. writeSOA u soa e = Inr e'"
  using writeName_total [of "MName soa" u e] writeName_total [of "RName soa" u]
  by (force simp: writeSOA_def bindR_eq_Inr)

lemma writeRR_total:
  assumes "okRR rr"
  shows "\<exists>e'. writeRR u rr e = Inr e'"
proof -
  have "\<exists>e'. writeRdata u rr e1 = Inr e'" for e1
    using assms by (auto simp: okRR_def writeRdata_def writeName_total writeSOA_total split: option.splits)
  moreover have "\<exists>e'. writeName u (rrName rr) e = Inr e'"
    using assms by (simp add: okRR_def writeName_total)
  ultimately show ?thesis by (force simp: writeRR_seq writeLenRdata_def Let_def bindR_eq_Inr)
qed

lemma writeRRs_total: "list_all okRR rrs \<Longrightarrow> \<exists>e'. writeRRs u rrs e = Inr e'"
proof (induction rrs arbitrary: e)
  case (Cons rr rrs)
  then obtain e1 where "writeRR u rr e = Inr e1" using writeRR_total [of rr u e] by auto
  with Cons show ?case by simp
qed simp

lemma writeQuestions_total:
  "list_all (\<lambda>q. okName (qName q)) qs \<Longrightarrow> \<exists>e'. writeQuestions u qs e = Inr e'"
proof (induction qs arbitrary: e)
  case (Cons q qs)
  then obtain e1 where "writeName u (qName q) e = Inr e1" using writeName_total [of "qName q" u e] by auto
  with Cons show ?case by (simp add: writeQuestion_def)
qed simp

section \<open>Properties of the codec\<close>

lemma pack_roundtrip:
  assumes "wfMsg m"
  shows "\<exists>bs m'. Pack u m = Inr bs \<and> Unpack bs = Inr m' \<and> sameMsg m m'"
proof -
  define e0 where "e0 = newEncoder\<lparr>ebuf := headerBytes m\<rparr>"
  have wf: "list_all (\<lambda>q. okName (qName q) \<and> isASCII (qName q)) (Questions m)"
    "list_all wfRR (Answers m)" "list_all wfRR (Authorities m)" "list_all wfRR (Additionals m)"
    using assms by (simp_all add: wfMsg_def)
  have inv: "encInv u e0" by (simp add: encInv_def e0_def newEncoder_def)
  obtain e1 x1 where 1: "writeQuestions u (Questions m) e0 = Inr e1" "encInv u e1" "ebuf e1 = ebuf e0 @ x1"
    and r1: "\<And>rest. \<exists>qs'. readQuestions (ebuf e1 @ rest) (length (ebuf e0)) (length (Questions m))
      = Inr (qs', length (ebuf e1)) \<and> list_all2 sameQuestion (Questions m) qs'"
    by (rule writesE [OF writes_questions [OF wf(1)] inv]) blast
  obtain e2 x2 where 2: "writeRRs u (Answers m) e1 = Inr e2" "encInv u e2" "ebuf e2 = ebuf e1 @ x2"
    and r2: "\<And>rest. \<exists>rs. readRRs (ebuf e2 @ rest) (length (ebuf e1)) (length (Answers m))
      = Inr (rs, length (ebuf e2)) \<and> list_all2 sameRR (Answers m) rs"
    by (rule writesE [OF writes_rrs [OF wf(2)] 1(2)]) blast
  obtain e3 x3 where 3: "writeRRs u (Authorities m) e2 = Inr e3" "encInv u e3" "ebuf e3 = ebuf e2 @ x3"
    and r3: "\<And>rest. \<exists>rs. readRRs (ebuf e3 @ rest) (length (ebuf e2)) (length (Authorities m))
      = Inr (rs, length (ebuf e3)) \<and> list_all2 sameRR (Authorities m) rs"
    by (rule writesE [OF writes_rrs [OF wf(3)] 2(2)]) blast
  obtain e4 x4 where 4: "writeRRs u (Additionals m) e3 = Inr e4" "ebuf e4 = ebuf e3 @ x4"
    and r4: "\<And>rest. \<exists>rs. readRRs (ebuf e4 @ rest) (length (ebuf e3)) (length (Additionals m))
      = Inr (rs, length (ebuf e4)) \<and> list_all2 sameRR (Additionals m) rs"
    by (rule writesE [OF writes_rrs [OF wf(4)] 3(2)]) blast
  have B: "ebuf e1 @ x2 @ x3 @ x4 = ebuf e4" "ebuf e2 @ x3 @ x4 = ebuf e4" "ebuf e3 @ x4 = ebuf e4"
    using 2 3 4 by simp_all
  have e0: "length (ebuf e0) = 12" by (simp add: e0_def)
  have "Pack u m = Inr (ebuf e4)"
    using 1 2 3 4 by (simp add: Pack_def e0_def [symmetric])
  moreover have "readHeader (ebuf e4) 0 = Inr ((header m)\<lparr>QDCount := word_of_nat (length (Questions m)),
        ANCount := word_of_nat (length (Answers m)), NSCount := word_of_nat (length (Authorities m)),
        ARCount := word_of_nat (length (Additionals m))\<rparr>, 12)"
    using readHeader_written [of m "x1 @ x2 @ x3 @ x4"] assms 1 2 3 4
    by (simp add: wfMsg_def e0_def newEncoder_def)
  ultimately show ?thesis
    using r1 [of "x2 @ x3 @ x4"] r2 [of "x3 @ x4"] r3 [of x4] r4 [of "[]"] assms unfolding B e0
    by (auto simp: Unpack_def sameMsg_def wfMsg_def unat_small)
qed

text \<open>
  (C16) Round trip of the message codec.  Packing any well-formed message succeeds, and
  unpacking the bytes gives back the same header, with the counts of the sections, and the
  same questions and records in the same order; the names agree up to the case of ASCII
  letters, since a compressed name takes the spelling of its first occurrence.
\<close>

theorem Pack_Unpack:
  assumes "wfMsg m"
  shows "\<exists>bs m'. Pack u m = Inr bs \<and> Unpack bs = Inr m' \<and> sameMsg m m'"
  using assms by (rule pack_roundtrip)

definition sampleMsg :: Message where
  "sampleMsg = \<lparr>header = zeroHeader\<lparr>ID := 4660, QR := True, RD := True, RA := True\<rparr>,
     Questions = [\<lparr>qName = lit ''www.Example.com'', qType = TypeA, qClass = ClassIN\<rparr>],
     Answers = [zeroRR\<lparr>rrName := lit ''www.example.com.'', rrType := TypeA, rrClass := ClassIN,
                  TTL := 300, rrA := Some [192, 0, 2, 1]\<rparr>],
     Authorities = [zeroRR\<lparr>rrName := lit ''example.com'', rrType := TypeNS, rrClass := ClassIN,
                  TTL := 3600, rrNS := lit ''ns.example.com''\<rparr>],
     Additionals = []\<rparr>"

lemma sampleMsg_wf: "wfMsg sampleMsg"
  by (simp add: wfMsg_def wfRR_def sampleMsg_def zeroHeader_def zeroRR_def name_eval)

theorem Pack_Unpack_witness:
  "wfMsg sampleMsg \<and> (\<exists>bs m'. Pack plainUnicode sampleMsg = Inr bs \<and> Unpack bs = Inr m' \<and> sameMsg sampleMsg m')"
  using sampleMsg_wf Pack_Unpack [OF sampleMsg_wf] by blast


definition samplePacket :: "byte list" where
  "samplePacket = [18, 52, 129, 128, 0, 1, 0, 1, 0, 0, 0, 0,
     2, 104, 105, 0, 0, 1, 0, 1, 192, 12, 0, 1, 0, 1, 0, 0, 1, 44, 0, 4, 192, 0, 2, 1]"

lemma samplePacket_Unpack: "\<exists>m. Unpack samplePacket = Inr m \<and> map rrName (Answers m) = [lit ''hi'']"
proof -
  have "case Unpack samplePacket of Inl _ \<Rightarrow> False | Inr m \<Rightarrow> map rrName (Answers m) = [lit ''hi'']"
    by code_simp
  then show ?thesis by (auto split: sum.splits)
qed


text \<open>
  Whatever the decoder accepts the encoder can write: a server that echoes a question, or
  a resolver that passes records on, never fails for want of an encoding.
\<close>

theorem Unpack_then_Pack:
  assumes "Unpack buf = Inr m"
  shows "\<exists>bs. Pack u m = Inr bs"
proof -
  have ok: "okMsg m" using Unpack_sections [OF assms] by simp
  obtain e1 where e1: "writeQuestions u (Questions m) (newEncoder\<lparr>ebuf := headerBytes m\<rparr>) = Inr e1"
    using ok writeQuestions_total by (fastforce simp: okMsg_def)
  obtain e2 where e2: "writeRRs u (Answers m) e1 = Inr e2"
    using ok writeRRs_total by (fastforce simp: okMsg_def)
  obtain e3 where e3: "writeRRs u (Authorities m) e2 = Inr e3"
    using ok writeRRs_total by (fastforce simp: okMsg_def)
  obtain e4 where e4: "writeRRs u (Additionals m) e3 = Inr e4"
    using ok writeRRs_total by (fastforce simp: okMsg_def)
  show ?thesis using e1 e2 e3 e4 by (simp add: Pack_def)
qed

theorem Unpack_then_Pack_witness:
  "\<exists>m bs. Unpack samplePacket = Inr m \<and> Pack plainUnicode m = Inr bs"
  using samplePacket_Unpack Unpack_then_Pack by blast

text \<open>
  Uncompressed names: encoding a name of wire labels and reading it at any place in any
  buffer gives the name back without its trailing dot (the root as a single dot), and
  consumes exactly the encoding.
\<close>

theorem encodeName_readName:
  assumes "okName n" "length n \<le> maxNameLength"
  shows "\<exists>bs. encodeName n = Inr bs \<and>
    readName (pre @ bs @ post) (length pre) =
      Inr (if trimDot n = [] then [dot] else trimDot n, length pre + length bs)"
proof -
  have "encodeName n = Inr (encLabels (splitName n) @ [0])"
    using assms by (simp add: encodeName_eq okName_def)
  moreover have "drop (length pre) (pre @ (encLabels (splitName n) @ [0]) @ post)
      = encLabels (splitName n) @ 0 # post" by simp
  from readName_plain [OF assms(1) this] have
    "readName (pre @ (encLabels (splitName n) @ [0]) @ post) (length pre) =
      Inr (if trimDot n = [] then [dot] else trimDot n,
        length pre + length (encLabels (splitName n) @ [0]))" by simp
  ultimately show ?thesis by blast
qed

theorem encodeName_readName_witness:
  "\<exists>bs. encodeName (lit ''example.com.'') = Inr bs \<and>
     readName ([1, 2, 3] @ bs @ [4]) (length [1, 2, 3 :: byte]) =
       Inr (lit ''example.com'', length [1, 2, 3 :: byte] + length bs)"
proof -
  have "okName (lit ''example.com.'')" "length (lit ''example.com.'') \<le> maxNameLength"
    by (simp_all add: name_eval)
  from encodeName_readName [OF this, of "[1, 2, 3]" "[4]"] show ?thesis by (simp add: name_eval)
qed

text \<open>
  Pointer loops.  A compression pointer that points at itself is not followed forever:
  the decoder gives up with an error after twenty jumps.
\<close>

theorem readName_self_pointer:
  assumes "drop pos buf = pointerBytes pos @ rest" "pos \<le> maxPointerOffset"
  shows "readName buf pos = Inl ErrTooManyJumps"
proof -
  have stop: "readNameLoop buf off pos jumped 20 n ls = Inl ErrTooManyJumps" for off jumped n ls
  proof -
    from assms(1) have d: "drop pos buf = word_of_nat (0xC0 OR drop_bit 8 pos) # word_of_nat pos # rest"
      by (simp add: pointerBytes_def)
    note d1 = drop_ConsD [OF d]
    from d1 have d2: "drop (pos + 1) buf = word_of_nat pos # rest" by simp
    show ?thesis using d1 drop_ConsD [OF d2] pointerBytes_read [OF assms(2)]
      by (subst readNameLoop.simps) (simp add: Let_def)
  qed
  have "readNameLoop buf off pos jumped jumps n ls = Inl ErrTooManyJumps" if "jumps \<le> 20"
    for off jumped jumps n ls
    using that
  proof (induction "20 - jumps" arbitrary: off jumped jumps)
    case (Suc k)
    then show ?case using readNameLoop_pointer [OF assms(1,2), of jumps] by simp
  qed (use stop in simp)
  then show ?thesis by (simp add: readName_def)
qed

theorem readName_self_pointer_witness: "readName (0 # pointerBytes 1) 1 = Inl ErrTooManyJumps"
  by (rule readName_self_pointer [where rest = "[]"]) simp_all

end
