(* ===== verification/Dnssec_Records.thy ===== *)
theory Dnssec_Records
  imports Wire_Roundtrip
begin

text \<open>
  The EDNS0 pseudo-record (\<open>dnsmsg/edns.go\<close>) and the DNSSEC record types
  (\<open>dnsmsg/dnssec.go\<close>): parsing of their RDATA, key tags and type bitmaps.
\<close>

section \<open>EDNS0\<close>

abbreviation (input) DefaultUDPSize :: u16 where "DefaultUDPSize \<equiv> 1232"
abbreviation (input) ednsDOBit :: u32 where "ednsDOBit \<equiv> 0x8000"
abbreviation (input) RCodeBadVers :: u16 where "RCodeBadVers \<equiv> 16"
abbreviation (input) RequestDNSSEC :: bool where "RequestDNSSEC \<equiv> True"
abbreviation (input) NoDNSSEC :: bool where "NoDNSSEC \<equiv> False"

definition NewOPT :: "u16 \<Rightarrow> bool \<Rightarrow> RR" where
  "NewOPT udpSize do =
     (let rr = zeroRR\<lparr>rrName := [dot], rrType := TypeOPT, rrClass := udpSize\<rparr>
      in if do then rr\<lparr>TTL := ednsDOBit\<rparr> else rr)"

definition UDPSize :: "RR \<Rightarrow> u16" where
  "UDPSize rr = rrClass rr"

definition DO :: "RR \<Rightarrow> bool" where
  "DO rr = (TTL rr AND ednsDOBit \<noteq> 0)"

definition OPT :: "Message \<Rightarrow> RR option" where
  "OPT m = find (\<lambda>rr. rrType rr = TypeOPT) (Additionals m)"

definition ExtendedRCode :: "Message \<Rightarrow> u16" where
  "ExtendedRCode m =
     (let rcode = ucast (RCode (header m)) in
      case OPT m of
        Some opt \<Rightarrow> rcode OR push_bit 4 (ucast (drop_bit 24 (TTL opt)))
      | None \<Rightarrow> rcode)"

text \<open>The message \<open>PackQueryEDNS0\<close> builds, and its encoding.\<close>

definition queryEDNS0 :: "u16 \<Rightarrow> gostr \<Rightarrow> u16 \<Rightarrow> u16 \<Rightarrow> bool \<Rightarrow> Message" where
  "queryEDNS0 qid name qtype udpSize do =
     \<lparr>header = zeroHeader\<lparr>ID := qid\<rparr>,
      Questions = [\<lparr>qName = name, qType = qtype, qClass = ClassIN\<rparr>],
      Answers = [], Authorities = [], Additionals = [NewOPT udpSize do]\<rparr>"

definition PackQueryEDNS0 ::
  "unicode \<Rightarrow> u16 \<Rightarrow> gostr \<Rightarrow> u16 \<Rightarrow> u16 \<Rightarrow> bool \<Rightarrow> wireErr + byte list" where
  "PackQueryEDNS0 u qid name qtype udpSize do = Pack u (queryEDNS0 qid name qtype udpSize do)"

section \<open>DNSSEC records\<close>

abbreviation (input) DNSKEYFlagZoneKey :: u16 where "DNSKEYFlagZoneKey \<equiv> 0x100"
abbreviation (input) NSEC3FlagOptOut :: byte where "NSEC3FlagOptOut \<equiv> 1"

datatype rdataErr =
    ErrRdataShort | ErrNameRunsPast | ErrCompressedLabel | ErrLabelRunsPast
  | ErrEndsInSalt | ErrEndsInHash

record DNSKEY =
  keyFlags :: u16
  keyProtocol :: byte
  keyAlgorithm :: byte
  PublicKey :: "byte list"

record RRSIG =
  TypeCovered :: u16
  sigAlgorithm :: byte
  sigLabels :: byte
  OriginalTTL :: u32
  Expiration :: u32
  Inception :: u32
  sigKeyTag :: u16
  SignerName :: gostr
  Signature :: "byte list"

record DS =
  dsKeyTag :: u16
  dsAlgorithm :: byte
  DigestType :: byte
  Digest :: "byte list"

record NSEC =
  NextDomain :: gostr
  nsecBitmap :: "byte list"

record NSEC3 =
  n3Algorithm :: byte
  n3Flags :: byte
  Iterations :: u16
  Salt :: "byte list"
  NextHashed :: "byte list"
  n3Bitmap :: "byte list"

definition OptOut :: "NSEC3 \<Rightarrow> bool" where
  "OptOut n = (n3Flags n AND NSEC3FlagOptOut \<noteq> 0)"

text \<open>
  \<open>binary.BigEndian.Uint16(raw[i:i+2])\<close> and \<open>Uint32\<close>; the callers have checked the length.
\<close>

definition uint16At :: "byte list \<Rightarrow> nat \<Rightarrow> u16" where
  "uint16At raw i = be16 (raw ! i) (raw ! (i + 1))"

definition uint32At :: "byte list \<Rightarrow> nat \<Rightarrow> u32" where
  "uint32At raw i = be32 (raw ! i) (raw ! (i + 1)) (raw ! (i + 2)) (raw ! (i + 3))"

definition parseDNSKEY :: "byte list \<Rightarrow> rdataErr + DNSKEY" where
  "parseDNSKEY raw =
     (if length raw < 4 then Inl ErrRdataShort
      else Inr \<lparr>keyFlags = uint16At raw 0, keyProtocol = raw ! 2, keyAlgorithm = raw ! 3,
                PublicKey = drop 4 raw\<rparr>)"

definition parseDS :: "byte list \<Rightarrow> rdataErr + DS" where
  "parseDS raw =
     (if length raw < 4 then Inl ErrRdataShort
      else Inr \<lparr>dsKeyTag = uint16At raw 0, dsAlgorithm = raw ! 2, DigestType = raw ! 3,
                Digest = drop 4 raw\<rparr>)"

text \<open>The loop of \<open>readUncompressedName\<close>, then the function.\<close>

function readUncompressedLoop :: "byte list \<Rightarrow> nat \<Rightarrow> gostr list \<Rightarrow> rdataErr + (gostr list \<times> nat)" where
  "readUncompressedLoop buf off labels =
     (if off \<ge> length buf then Inl ErrNameRunsPast
      else let len = buf ! off in
        if len = 0 then Inr (labels, off + 1)
        else if len AND 0xC0 \<noteq> 0 then Inl ErrCompressedLabel
        else let off = off + 1; n = unat len in
          if off + n > length buf then Inl ErrLabelRunsPast
          else readUncompressedLoop buf (off + n) (labels @ [take n (drop off buf)]))"
  by pat_completeness auto
termination
  by (relation "measure (\<lambda>(buf, off, _). length buf - off)") auto

declare readUncompressedLoop.simps [simp del]

definition readUncompressedName :: "byte list \<Rightarrow> rdataErr + (gostr \<times> nat)" where
  "readUncompressedName buf =
     bindR (readUncompressedLoop buf 0 []) (\<lambda>(labels, off).
       Inr (if labels = [] then [dot] else joinDot labels, off))"

definition parseRRSIG :: "byte list \<Rightarrow> rdataErr + RRSIG" where
  "parseRRSIG raw =
     (if length raw < 18 then Inl ErrRdataShort
      else bindR (readUncompressedName (drop 18 raw)) (\<lambda>(name, n).
        Inr \<lparr>TypeCovered = uint16At raw 0, sigAlgorithm = raw ! 2, sigLabels = raw ! 3,
             OriginalTTL = uint32At raw 4, Expiration = uint32At raw 8,
             Inception = uint32At raw 12, sigKeyTag = uint16At raw 16,
             SignerName = name, Signature = drop (18 + n) raw\<rparr>))"

definition parseNSEC :: "byte list \<Rightarrow> rdataErr + NSEC" where
  "parseNSEC raw =
     bindR (readUncompressedName raw) (\<lambda>(name, n).
       Inr \<lparr>NextDomain = name, nsecBitmap = drop n raw\<rparr>)"

definition parseNSEC3 :: "byte list \<Rightarrow> rdataErr + NSEC3" where
  "parseNSEC3 raw =
     (if length raw < 5 then Inl ErrRdataShort
      else let saltLen = unat (raw ! 4) in
        if length raw < 5 + saltLen + 1 then Inl ErrEndsInSalt
        else let rest = drop (5 + saltLen) raw; hashLen = unat (rest ! 0) in
          if length rest < 1 + hashLen then Inl ErrEndsInHash
          else Inr \<lparr>n3Algorithm = raw ! 0, n3Flags = raw ! 1, Iterations = uint16At raw 2,
                    Salt = take saltLen (drop 5 raw), NextHashed = take hashLen (drop 1 rest),
                    n3Bitmap = drop (1 + hashLen) rest\<rparr>)"

text \<open>The \<open>(value, ok)\<close> pairs of the accessors, as options.\<close>

definition okOf :: "'e + 'a \<Rightarrow> 'a option" where
  "okOf r = (case r of Inl _ \<Rightarrow> None | Inr x \<Rightarrow> Some x)"

definition AsDNSKEY :: "RR \<Rightarrow> DNSKEY option" where
  "AsDNSKEY rr = (if rrType rr \<noteq> TypeDNSKEY then None else okOf (parseDNSKEY (Raw rr)))"

definition AsDS :: "RR \<Rightarrow> DS option" where
  "AsDS rr = (if rrType rr \<noteq> TypeDS then None else okOf (parseDS (Raw rr)))"

definition AsRRSIG :: "RR \<Rightarrow> RRSIG option" where
  "AsRRSIG rr = (if rrType rr \<noteq> TypeRRSIG then None else okOf (parseRRSIG (Raw rr)))"

definition AsNSEC :: "RR \<Rightarrow> NSEC option" where
  "AsNSEC rr = (if rrType rr \<noteq> TypeNSEC then None else okOf (parseNSEC (Raw rr)))"

definition AsNSEC3 :: "RR \<Rightarrow> NSEC3 option" where
  "AsNSEC3 rr = (if rrType rr \<noteq> TypeNSEC3 then None else okOf (parseNSEC3 (Raw rr)))"

definition rdata :: "DNSKEY \<Rightarrow> byte list" where
  "rdata k = put16 (keyFlags k) @ [keyProtocol k, keyAlgorithm k] @ PublicKey k"

text \<open>The loop of \<open>KeyTag\<close>; \<open>ev\<close> is \<open>i&1 == 0\<close>.\<close>

fun keyTagSum :: "bool \<Rightarrow> byte list \<Rightarrow> u32 \<Rightarrow> u32" where
  "keyTagSum ev [] s = s"
| "keyTagSum ev (b # bs) s =
     keyTagSum (\<not> ev) bs (s + (if ev then push_bit 8 (ucast b) else ucast b))"

definition KeyTag :: "DNSKEY \<Rightarrow> u16" where
  "KeyTag k =
     (let s = keyTagSum True (rdata k) 0;
          s = s + (drop_bit 16 s AND 0xFFFF)
      in ucast (s AND 0xFFFF))"

definition IsZoneKey :: "DNSKEY \<Rightarrow> bool" where
  "IsZoneKey k = (keyFlags k AND DNSKEYFlagZoneKey \<noteq> 0)"

function typeInBitmap :: "byte list \<Rightarrow> u16 \<Rightarrow> bool" where
  "typeInBitmap buf t =
     (if length buf < 2 then False
      else let window = buf ! 0; len = unat (buf ! 1) in
        if length buf < 2 + len then False
        else let bitmap = take len (drop 2 buf) in
          if (ucast window :: u16) = drop_bit 8 t then
            (let offset = unat (t AND 0xFF); i = offset div 8 in
             if i < length bitmap then bitmap ! i AND drop_bit (offset mod 8) 0x80 \<noteq> 0 else False)
          else typeInBitmap (drop (2 + len) buf) t)"
  by pat_completeness auto
termination
  by (relation "measure (\<lambda>(buf, _). length buf)") auto

declare typeInBitmap.simps [simp del]

definition NSEC_TypeInBitmap :: "NSEC \<Rightarrow> u16 \<Rightarrow> bool" where
  "NSEC_TypeInBitmap n t = typeInBitmap (nsecBitmap n) t"

definition NSEC3_TypeInBitmap :: "NSEC3 \<Rightarrow> u16 \<Rightarrow> bool" where
  "NSEC3_TypeInBitmap n t = typeInBitmap (n3Bitmap n) t"

section \<open>Parsing and printing\<close>

lemma readUncompressedLoop_written:
  assumes "\<forall>l\<in>set ls. l \<noteq> [] \<and> length l \<le> maxLabelLength"
    and "drop off buf = encLabels ls @ 0 # rest"
  shows "readUncompressedLoop buf off acc = Inr (acc @ ls, off + length (encLabels ls) + 1)"
  using assms
proof (induction ls arbitrary: off acc)
  case Nil
  then show ?case using drop_ConsD [of off buf 0 rest]
    by (subst readUncompressedLoop.simps) (simp add: Let_def)
next
  case (Cons l ls)
  then have l: "length l \<le> 63" "length l \<noteq> 0" by auto
  from Cons.prems have d: "drop off buf = word_of_nat (length l) # l @ encLabels ls @ 0 # rest"
    by simp
  note d1 = drop_ConsD [OF d]
  then have d2: "drop (off + 1 + length l) buf = encLabels ls @ 0 # rest"
    using drop_appendD by blast
  have "length (drop (off + 1) buf) = length (l @ encLabels ls @ 0 # rest)" using d1 by simp
  then have "off + 1 + length l \<le> length buf" using d1 by simp
  moreover have "take (length l) (drop (off + 1) buf) = l" using d1 by simp
  ultimately show ?case
    using Cons.IH [OF _ d2, of "acc @ [l]"] Cons.prems(1) d1 label_byte [OF l]
    by (subst readUncompressedLoop.simps) (simp add: Let_def)
qed

lemma readUncompressedName_written:
  assumes "\<forall>l\<in>set ls. okLabel l"
  shows "readUncompressedName (encLabels ls @ 0 # rest) =
    Inr (if ls = [] then [dot] else joinDot ls, length (encLabels ls) + 1)"
  using readUncompressedLoop_written [of ls 0 "encLabels ls @ 0 # rest" rest "[]"] assms
  by (simp add: readUncompressedName_def okLabel_def)

lemma uint16At_put16 [simp]: "uint16At (put16 v @ rest) 0 = v"
  by (simp add: uint16At_def put16_def)

lemma at_least_four: "4 \<le> length raw \<Longrightarrow> \<exists>a b c d rest. raw = a # b # c # d # rest"
  by (auto simp: numeral_eq_Suc Suc_le_length_iff)

lemma rdata_parse:
  assumes "parseDNSKEY raw = Inr k"
  shows "rdata k = raw"
proof -
  from assms have "4 \<le> length raw" and k: "k = \<lparr>keyFlags = uint16At raw 0, keyProtocol = raw ! 2,
      keyAlgorithm = raw ! 3, PublicKey = drop 4 raw\<rparr>"
    by (auto simp: parseDNSKEY_def split: if_splits)
  then obtain a b c d rest where "raw = a # b # c # d # rest"
    using at_least_four by blast
  then show ?thesis by (simp add: k rdata_def uint16At_def)
qed

lemma parse_rdata: "parseDNSKEY (rdata k) = Inr k"
  by (simp add: parseDNSKEY_def rdata_def uint16At_def put16_def)

section \<open>Key tags\<close>

text \<open>The sum of appendix B of RFC 4034, over the natural numbers.\<close>

fun keySum :: "bool \<Rightarrow> byte list \<Rightarrow> nat" where
  "keySum ev [] = 0"
| "keySum ev (b # bs) = (if ev then 256 * unat b else unat b) + keySum (\<not> ev) bs"

lemma unat_byte: "unat (b :: byte) \<le> 255"
  using unsigned_less [of b, where ?'a = nat] by simp

lemma keySum_bound: "keySum ev bs \<le> 65280 * length bs"
proof (induction bs arbitrary: ev)
  case (Cons b bs)
  have "(if ev then 256 * unat b else unat b) \<le> 65280" using unat_byte [of b] by simp
  then show ?case using Cons [of "\<not> ev"] by simp
qed simp

lemma unat_byte_term:
  "unat (if ev then push_bit 8 (ucast (b :: byte)) else ucast b :: u32)
     = (if ev then 256 * unat b else unat b)"
proof -
  have "unat (ucast b :: u32) = unat b"
    using unat_byte [of b] by (simp add: unsigned_ucast_eq take_bit_nat_eq_self)
  moreover have "unat (push_bit 8 (ucast b) :: u32) = 256 * unat (ucast b :: u32)"
    using unat_byte [of b] calculation
    by (simp add: push_bit_eq_mult unat_word_ariths)
  ultimately show ?thesis by simp
qed

lemma keyTagSum_unat:
  "unat s + keySum ev bs < 2 ^ 32 \<Longrightarrow> unat (keyTagSum ev bs s) = unat s + keySum ev bs"
proof (induction bs arbitrary: ev s)
  case (Cons b bs)
  let ?t = "if ev then push_bit 8 (ucast b) else ucast b :: u32"
  have "unat (s + ?t) = unat s + unat ?t"
    using Cons.prems by (subst unat_plus_simple [THEN iffD1, OF _]) (auto simp: no_olen_add_nat unat_byte_term)
  then show ?case
    using Cons.IH [of "s + ?t" "\<not> ev"] Cons.prems by (simp add: unat_byte_term)
qed simp

lemma KeyTag_nat:
  assumes "length (rdata k) < 65536"
  shows "unat (KeyTag k) = (keySum True (rdata k) + keySum True (rdata k) div 65536) mod 65536"
proof -
  define S where "S = keySum True (rdata k)"
  define s where "s = keyTagSum True (rdata k) 0"
  have S: "S \<le> 65280 * 65535"
    using keySum_bound [of True "rdata k"] assms by (simp add: S_def)
  have s: "unat s = S" using keyTagSum_unat [of 0 True "rdata k"] S by (simp add: s_def S_def)
  have "unat (drop_bit 16 s) = S div 65536" by (simp add: drop_bit_eq_div unat_div s)
  moreover have "drop_bit 16 s AND 0xFFFF = drop_bit 16 s"
  proof (rule word_unat_eq_iff [THEN iffD2])
    have "drop_bit 16 s AND 0xFFFF = take_bit 16 (drop_bit 16 s)"
      by (simp add: take_bit_eq_mask mask_eq_exp_minus_1)
    then show "unat (drop_bit 16 s AND 0xFFFF) = unat (drop_bit 16 s)"
      using calculation S by (simp add: unsigned_take_bit_eq take_bit_nat_eq_self)
  qed
  ultimately have t: "unat (s + (drop_bit 16 s AND 0xFFFF)) = S + S div 65536"
    using S s by (subst unat_add_lem [THEN iffD1]) auto
  have c: "ucast (x AND 0xFFFF) = (ucast x :: u16)" for x :: u32
  proof -
    have "x AND 0xFFFF = take_bit 16 x" by (simp add: take_bit_eq_mask mask_eq_exp_minus_1)
    then show ?thesis by (simp only:) (auto intro!: bit_word_eqI simp: bit_simps)
  qed
  show ?thesis
    by (simp add: KeyTag_def Let_def s_def [symmetric] c unsigned_ucast_eq t S_def take_bit_eq_mod)
qed

section \<open>Type bitmaps\<close>

text \<open>
  A type bitmap is a sequence of blocks, one per window of 256 types that has any: the
  window number, the length of the bitmap and the bitmap (RFC 4034, section 4.1.2).
\<close>

definition bitmapBytes :: "(byte \<times> byte list) list \<Rightarrow> byte list" where
  "bitmapBytes blocks = concat (map (\<lambda>(w, bm). w # word_of_nat (length bm) # bm) blocks)"

definition bitmapHas :: "(byte \<times> byte list) list \<Rightarrow> u16 \<Rightarrow> bool" where
  "bitmapHas blocks t =
     list_ex (\<lambda>(w, bm). unat w = unat t div 256 \<and> unat t mod 256 div 8 < length bm
       \<and> bit (bm ! (unat t mod 256 div 8)) (7 - unat t mod 8)) blocks"

lemma and_single_bit: "(b :: byte) AND drop_bit k 0x80 \<noteq> 0 \<longleftrightarrow> bit b (7 - k)" if "k < 8"
proof -
  have "k \<in> {0, 1, 2, 3, 4, 5, 6, 7}" using that by auto
  then have "drop_bit k 0x80 = (push_bit (7 - k) 1 :: byte)"
    by (auto simp: drop_bit_eq_div push_bit_eq_mult)
  then show ?thesis
    using that by (simp add: bit_iff_and_push_bit_not_eq_0)
qed

lemma window_eq: "(ucast (w :: byte) :: u16) = drop_bit 8 t \<longleftrightarrow> unat w = unat t div 256"
proof -
  have "unat (ucast w :: u16) = unat w"
    using unat_byte [of w] by (simp add: unsigned_ucast_eq take_bit_nat_eq_self)
  moreover have "unat (drop_bit 8 t) = unat t div 256"
    by (simp add: drop_bit_eq_div unat_div)
  ultimately show ?thesis by (metis word_unat_eq_iff)
qed

lemma low_byte: "unat (t AND 0xFF :: u16) = unat t mod 256"
proof -
  have "t AND 0xFF = take_bit 8 t" by (simp add: take_bit_eq_mask mask_eq_exp_minus_1)
  then show ?thesis by (simp add: take_bit_eq_mod unat_mod)
qed

lemma typeInBitmap_blocks:
  assumes "distinct (map fst blocks)" "list_all (\<lambda>(_, bm). length bm \<le> 255) blocks"
  shows "typeInBitmap (bitmapBytes blocks) t = bitmapHas blocks t"
  using assms
proof (induction blocks)
  case Nil
  then show ?case by (subst typeInBitmap.simps) (simp add: bitmapBytes_def bitmapHas_def)
next
  case (Cons b blocks)
  obtain w bm where b [simp]: "b = (w, bm)" by (cases b)
  have len: "unat (word_of_nat (length bm) :: byte) = length bm"
    using Cons.prems by (simp add: unat_of_nat take_bit_nat_eq_self)
  have rest: "unat w = unat t div 256 \<Longrightarrow> \<not> bitmapHas blocks t"
    using Cons.prems by (force simp: bitmapHas_def list_ex_iff word_unat_eq_iff)
  have mod: "unat t mod 256 mod 8 = unat t mod 8" by (simp add: mod_mod_cancel)
  have "typeInBitmap (bitmapBytes (b # blocks)) t =
      (if unat w = unat t div 256
       then unat t mod 256 div 8 < length bm
         \<and> bit (bm ! (unat t mod 256 div 8)) (7 - unat t mod 8)
       else typeInBitmap (bitmapBytes blocks) t)"
    by (subst typeInBitmap.simps)
      (simp add: bitmapBytes_def len window_eq low_byte and_single_bit mod Let_def)
  then show ?case using Cons rest by (auto simp: bitmapHas_def)
qed

section \<open>EDNS0 queries\<close>

lemma DO_bit [simp]: "DO (NewOPT sz do) = do"
  by (simp add: DO_def NewOPT_def zeroRR_def Let_def)

lemma NewOPT_fields [simp]:
  "rrType (NewOPT sz do) = TypeOPT" "rrClass (NewOPT sz do) = sz"
  "rrName (NewOPT sz do) = [dot]" "Raw (NewOPT sz do) = []"
  "TTL (NewOPT sz do) = (if do then ednsDOBit else 0)"
  by (simp_all add: NewOPT_def zeroRR_def Let_def)

lemma queryEDNS0_wf: "okName name \<Longrightarrow> isASCII name \<Longrightarrow> wfMsg (queryEDNS0 qid name qtype sz do)"
  by (simp add: wfMsg_def queryEDNS0_def zeroHeader_def wfRR_def)

section \<open>Properties\<close>

text \<open>
  A query built by \<open>PackQueryEDNS0\<close> for any encodable name decodes to a message with the
  same ID and exactly the question asked, whose OPT record advertises the UDP size and the
  DNSSEC OK flag that were passed in.
\<close>

theorem PackQueryEDNS0_decodes:
  assumes "okName name" "isASCII name"
  shows "\<exists>bs m q opt. PackQueryEDNS0 u qid name qtype sz do = Inr bs \<and> Unpack bs = Inr m \<and>
    ID (header m) = qid \<and> Questions m = [q] \<and> sameName name (qName q) \<and> qType q = qtype \<and>
    qClass q = ClassIN \<and> OPT m = Some opt \<and> UDPSize opt = sz \<and> DO opt = do \<and>
    ExtendedRCode m = 0"
proof -
  obtain bs m where p: "PackQueryEDNS0 u qid name qtype sz do = Inr bs" "Unpack bs = Inr m"
    and same: "sameMsg (queryEDNS0 qid name qtype sz do) m"
    using pack_roundtrip [OF queryEDNS0_wf [OF assms, of qid qtype sz do], of u]
    by (auto simp: PackQueryEDNS0_def)
  from same obtain q opt where q: "Questions m = [q]" "sameQuestion \<lparr>qName = name, qType = qtype, qClass = ClassIN\<rparr> q"
    and opt: "Additionals m = [opt]" "sameRR (NewOPT sz do) opt"
    and h: "ID (header m) = qid" "RCode (header m) = 0"
    by (auto simp: sameMsg_def queryEDNS0_def list_all2_Cons1 zeroHeader_def)
  have "OPT m = Some opt" "UDPSize opt = sz" "DO opt = do" "TTL opt = (if do then ednsDOBit else 0)"
    using opt by (auto simp: OPT_def sameRR_def UDPSize_def DO_def)
  then show ?thesis using p q h by (auto simp: sameQuestion_def ExtendedRCode_def Let_def)
qed

theorem PackQueryEDNS0_decodes_witness:
  "\<exists>bs m q. PackQueryEDNS0 plainUnicode 4660 (lit ''example.com'') TypeA DefaultUDPSize RequestDNSSEC = Inr bs
     \<and> Unpack bs = Inr m \<and> Questions m = [q] \<and> sameName (lit ''example.com'') (qName q)"
  using PackQueryEDNS0_decodes [of "lit ''example.com''" plainUnicode 4660 TypeA DefaultUDPSize RequestDNSSEC]
  by (auto simp: name_eval)

text \<open>
  The extended response code has the header's four bits at the bottom and the eight bits of
  the OPT record above them, so it is a twelve-bit number and neither part disturbs the other.
\<close>

theorem ExtendedRCode_value:
  assumes "unat (RCode (header m)) < 16"
  shows "unat (ExtendedRCode m) = unat (RCode (header m)) +
    (case OPT m of None \<Rightarrow> 0 | Some opt \<Rightarrow> 16 * (unat (TTL opt) div 2 ^ 24))"
proof -
  define r where "r = (ucast (RCode (header m)) :: u16)"
  have r: "unat r = unat (RCode (header m))"
    using unat_byte [of "RCode (header m)"] by (simp add: r_def unsigned_ucast_eq take_bit_nat_eq_self)
  show ?thesis
  proof (cases "OPT m")
    case None
    then show ?thesis using r by (simp add: ExtendedRCode_def r_def)
  next
    case (Some opt)
    define x where "x = (ucast (drop_bit 24 (TTL opt)) :: u16)"
    have lt: "unat (TTL opt) div 2 ^ 24 < 256"
      using unsigned_less [of "TTL opt", where ?'a = nat] by simp
    have x: "unat x = unat (TTL opt) div 2 ^ 24"
      using lt by (simp add: x_def unsigned_ucast_eq drop_bit_eq_div unat_div take_bit_nat_eq_self)
    have px: "unat (push_bit 4 x) = 16 * unat x"
      using lt x by (simp add: push_bit_eq_mult unat_word_ariths)
    have "r AND push_bit 4 x = 0"
    proof (rule bit_word_eqI)
      fix n assume "n < LENGTH(16)"
      have "r = take_bit 4 r"
        using assms r by (simp add: word_unat_eq_iff unsigned_take_bit_eq take_bit_nat_eq_self)
      then have "bit r n \<Longrightarrow> n < 4" by (metis bit_take_bit_iff)
      then show "bit (r AND push_bit 4 x) n = bit 0 n" by (auto simp: bit_simps)
    qed
    then have "r OR push_bit 4 x = r + push_bit 4 x" by (simp add: disjunctive_add_eq_or)
    moreover have "unat (r + push_bit 4 x) = unat r + unat (push_bit 4 x)"
      using assms r px x lt by (subst unat_add_lem [THEN iffD1]) auto
    ultimately show ?thesis using Some px x r by (simp add: ExtendedRCode_def Let_def r_def x_def)
  qed
qed

theorem ExtendedRCode_value_witness:
  "unat (ExtendedRCode (queryEDNS0 1 [] 1 1232 True)) = 0"
  using ExtendedRCode_value [of "queryEDNS0 1 [] 1 1232 True"]
  by (simp add: queryEDNS0_def OPT_def zeroHeader_def)

text \<open>
  Key tags.  For a key whose RDATA fits in a record the 32-bit accumulator never wraps, so
  the tag is the checksum of RFC 4034: the sum of the RDATA's 16-bit words plus its carry,
  modulo \<open>2 ^ 16\<close>.
\<close>

theorem KeyTag_checksum:
  assumes "length (rdata k) < 65536"
  shows "unat (KeyTag k) = (keySum True (rdata k) + keySum True (rdata k) div 65536) mod 65536"
  using assms by (rule KeyTag_nat)

theorem KeyTag_checksum_witness:
  "unat (KeyTag \<lparr>keyFlags = 257, keyProtocol = 3, keyAlgorithm = 13, PublicKey = [255, 2]\<rparr>)
     = (257 + 3 * 256 + 13 + 255 * 256 + 2 + 1) mod 65536"
  using KeyTag_checksum [of "\<lparr>keyFlags = 257, keyProtocol = 3, keyAlgorithm = 13, PublicKey = [255, 2]\<rparr>"]
  by (simp add: rdata_def put16_def drop_bit_eq_div)

text \<open>
  Type bitmaps.  On the encoding of any list of blocks with distinct windows and bitmaps of
  at most 255 bytes, \<open>typeInBitmap\<close> answers whether the bit of that type is set in the
  block of its window.
\<close>

theorem typeInBitmap_correct:
  assumes "distinct (map fst blocks)" "list_all (\<lambda>(_, bm). length bm \<le> 255) blocks"
  shows "typeInBitmap (bitmapBytes blocks) t = bitmapHas blocks t"
  using assms by (rule typeInBitmap_blocks)

theorem typeInBitmap_correct_witness:
  "typeInBitmap (bitmapBytes [(0, [0x62, 0x01])]) TypeNS \<and> \<not> typeInBitmap (bitmapBytes [(0, [0x62, 0x01])]) TypeDS"
  using typeInBitmap_correct [of "[(0, [0x62, 0x01])]" TypeNS] typeInBitmap_correct [of "[(0, [0x62, 0x01])]" TypeDS]
  by (simp add: bitmapHas_def)

text \<open>
  Keys: printing and parsing DNSKEY RDATA are inverse to each other, so the bytes the key
  tag and the DS digest are computed over are the bytes that arrived.
\<close>

theorem DNSKEY_roundtrip:
  "parseDNSKEY (rdata k) = Inr k \<and> (\<forall>raw k'. parseDNSKEY raw = Inr k' \<longrightarrow> rdata k' = raw)"
  using parse_rdata rdata_parse by blast

theorem DNSKEY_roundtrip_witness:
  "\<exists>k. parseDNSKEY [1, 1, 3, 13, 9] = Inr k \<and> rdata k = [1, 1, 3, 13, 9]"
  using DNSKEY_roundtrip by (auto simp: parseDNSKEY_def)

end
