(* ===== verification/Dnssec_Verify.thy ===== *)
theory Dnssec_Verify
  imports Dnssec_Records "HOL-Library.List_Lexorder"
begin

text \<open>
  Signature verification (\<open>dnssec/verify.go\<close>): the canonical form of names and records, the
  bytes a signature is made over, the validity period, the key formats of the signature
  algorithms, and the digest that ties a DS record to a key.

  The arithmetic of the cryptographic packages of the standard library is the record
  \<open>crypto\<close>, an argument of every definition that needs it.  Nothing is assumed about it.
\<close>

section \<open>Cryptography\<close>

datatype curve = P256 | P384

datatype hash = crypto256 | crypto384 | crypto512

text \<open>
  \<open>rsaVerifyPKCS1v15 n e h digest sig\<close>, \<open>isOnCurve c x y\<close>, \<open>ecdsaVerify c x y digest r s\<close>
  and \<open>ed25519Verify key data sig\<close> are the standard library's functions of those names.
\<close>

record crypto =
  sha1Sum :: "byte list \<Rightarrow> byte list"
  sha256Sum :: "byte list \<Rightarrow> byte list"
  sha384Sum :: "byte list \<Rightarrow> byte list"
  sha512Sum :: "byte list \<Rightarrow> byte list"
  rsaVerifyPKCS1v15 :: "nat \<Rightarrow> int \<Rightarrow> hash \<Rightarrow> byte list \<Rightarrow> byte list \<Rightarrow> bool"
  isOnCurve :: "curve \<Rightarrow> nat \<Rightarrow> nat \<Rightarrow> bool"
  ecdsaVerify :: "curve \<Rightarrow> nat \<Rightarrow> nat \<Rightarrow> byte list \<Rightarrow> nat \<Rightarrow> nat \<Rightarrow> bool"
  ed25519Verify :: "byte list \<Rightarrow> byte list \<Rightarrow> byte list \<Rightarrow> bool"

text \<open>
  The errors of package \<open>dnssec\<close>.  The first three are the sentinels callers test for with
  \<open>errors.Is\<close>; the others are the messages.
\<close>

datatype dnssecErr =
    ErrUnsupportedAlgorithm | ErrNoDenial | ErrUnsupportedDenial
  | ErrNoRecords | ErrNotOneSet | ErrAlgorithmMismatch | ErrKeyTagMismatch | ErrNotZoneKey
  | ErrSignerNotAuthoritative | ErrNotYetValid | ErrExpired | ErrLabelCount | ErrBadLabel
  | ErrNoAddress | ErrSOAEmpty | ErrMXShort | ErrMalformedName | ErrUnterminatedName
  | ErrKeySize | ErrSignatureSize | ErrBadKey | ErrBadSignature | ErrDSOtherKey | ErrDSDigest

abbreviation (input) algRSASHA256 :: byte where "algRSASHA256 \<equiv> 8"
abbreviation (input) algRSASHA512 :: byte where "algRSASHA512 \<equiv> 10"
abbreviation (input) algECDSAP256SHA256 :: byte where "algECDSAP256SHA256 \<equiv> 13"
abbreviation (input) algECDSAP384SHA384 :: byte where "algECDSAP384SHA384 \<equiv> 14"
abbreviation (input) algEd25519 :: byte where "algEd25519 \<equiv> 15"
abbreviation (input) digestSHA256 :: byte where "digestSHA256 \<equiv> 2"
abbreviation (input) digestSHA384 :: byte where "digestSHA384 \<equiv> 4"

section \<open>Canonical form\<close>

fun canonicalLabels :: "gostr list \<Rightarrow> byte list \<Rightarrow> dnssecErr + byte list" where
  "canonicalLabels [] out = Inr out"
| "canonicalLabels (label # labels) out =
     (if length label = 0 \<or> length label > 63 then Inl ErrBadLabel
      else canonicalLabels labels (out @ [word_of_nat (length label)] @ map lowerByte label))"

definition canonicalName :: "gostr \<Rightarrow> dnssecErr + byte list" where
  "canonicalName name =
     (let name = trimDot name in
      if name = [] then Inr [0]
      else bindR (canonicalLabels (splitDot name) []) (\<lambda>out. Inr (out @ [0])))"

text \<open>
  The loop of \<open>lowercaseWireName\<close>; the inner loop lowercases the bytes from \<open>off + 1\<close> to
  \<open>off + 1 + len\<close> in place.
\<close>

function lowercaseWireLoop :: "byte list \<Rightarrow> nat \<Rightarrow> dnssecErr + byte list" where
  "lowercaseWireLoop out off =
     (if off < length out then
        (let len = out ! off; n = unat len in
         if len = 0 then Inr (take (off + 1) out)
         else if len AND 0xC0 \<noteq> 0 \<or> off + 1 + n > length out then Inl ErrMalformedName
         else lowercaseWireLoop
                (take (off + 1) out @ map lowerByte (take n (drop (off + 1) out))
                   @ drop (off + 1 + n) out)
                (off + 1 + n))
      else Inl ErrUnterminatedName)"
  by pat_completeness auto
termination
  by (relation "measure (\<lambda>(out, off). length out - off)") auto

declare lowercaseWireLoop.simps [simp del]

definition lowercaseWireName :: "byte list \<Rightarrow> dnssecErr + byte list" where
  "lowercaseWireName buf = lowercaseWireLoop buf 0"

definition canonicalRDATA :: "RR \<Rightarrow> dnssecErr + byte list" where
  "canonicalRDATA rr =
     (if rrType rr = TypeA then
        (case To4 (rrA rr) of None \<Rightarrow> Inl ErrNoAddress | Some ip \<Rightarrow> Inr ip)
      else if rrType rr = TypeAAAA then
        (case To16 (rrAAAA rr) of None \<Rightarrow> Inl ErrNoAddress | Some ip \<Rightarrow> Inr ip)
      else if rrType rr = TypeNS then canonicalName (rrNS rr)
      else if rrType rr = TypeCNAME then canonicalName (rrCNAME rr)
      else if rrType rr = TypeSOA then
        (case rrSOA rr of None \<Rightarrow> Inl ErrSOAEmpty
         | Some soa \<Rightarrow>
             bindR (canonicalName (MName soa)) (\<lambda>mname.
             bindR (canonicalName (RName soa)) (\<lambda>rname.
               Inr (mname @ rname @ put32 (Serial soa) @ put32 (Refresh soa) @ put32 (Retry soa)
                 @ put32 (Expire soa) @ put32 (Minimum soa)))))
      else if rrType rr = TypeMX then
        (if length (Raw rr) < 2 then Inl ErrMXShort
         else bindR (lowercaseWireName (drop 2 (Raw rr))) (\<lambda>name. Inr (take 2 (Raw rr) @ name)))
      else if rrType rr = TypePTR then lowercaseWireName (Raw rr)
      else Inr (Raw rr))"

definition star :: gostr where
  "star = [42]"

definition signedOwnerName :: "gostr \<Rightarrow> RRSIG \<Rightarrow> dnssecErr + byte list" where
  "signedOwnerName owner sig =
     (let labels = splitName owner; n = unat (sigLabels sig) in
      if n > length labels then Inl ErrLabelCount
      else canonicalName (if n < length labels
             then joinDot (star # drop (length labels - n) labels) else owner))"

text \<open>The RRSIG's own fields, as \<open>signedData\<close> writes them before the signer name.\<close>

definition rrsigFields :: "RRSIG \<Rightarrow> byte list" where
  "rrsigFields sig = put16 (TypeCovered sig) @ [sigAlgorithm sig, sigLabels sig]
     @ put32 (OriginalTTL sig) @ put32 (Expiration sig) @ put32 (Inception sig)
     @ put16 (sigKeyTag sig)"

fun canonicalRecords :: "RR list \<Rightarrow> dnssecErr + byte list list" where
  "canonicalRecords [] = Inr []"
| "canonicalRecords (rr # rrs) =
     bindR (canonicalRDATA rr) (\<lambda>rd. bindR (canonicalRecords rrs) (\<lambda>rds. Inr (rd # rds)))"

definition signedRecord :: "byte list \<Rightarrow> RRSIG \<Rightarrow> byte list \<Rightarrow> byte list" where
  "signedRecord owner sig rd = owner @ put16 (TypeCovered sig) @ put16 ClassIN
     @ put32 (OriginalTTL sig) @ put16 (word_of_nat (length rd)) @ rd"

text \<open>
  \<open>slices.SortFunc\<close> with \<open>bytes.Compare\<close> is \<open>sort\<close> for the lexicographic order on byte
  lists, and skipping a record equal to the one before it is \<open>remdups_adj\<close>.  The RRset is
  not empty: \<open>VerifyRRSet\<close>, the only caller, has checked.
\<close>

definition signedData :: "RR list \<Rightarrow> RRSIG \<Rightarrow> dnssecErr + byte list" where
  "signedData rrset sig =
     bindR (canonicalName (SignerName sig)) (\<lambda>signer.
     bindR (signedOwnerName (rrName (hd rrset)) sig) (\<lambda>owner.
     bindR (canonicalRecords rrset) (\<lambda>records.
       Inr (rrsigFields sig @ signer
            @ concat (map (signedRecord owner sig) (remdups_adj (sort records)))))))"

section \<open>Validity\<close>

definition serialBefore :: "u32 \<Rightarrow> u32 \<Rightarrow> bool" where
  "serialBefore a b = (a \<noteq> b \<and> b - a < 0x80000000)"

text \<open>\<open>now\<close> is the clock in seconds since the epoch, \<open>now.Unix()\<close>.\<close>

definition checkValidityPeriod :: "RRSIG \<Rightarrow> int \<Rightarrow> dnssecErr + unit" where
  "checkValidityPeriod sig now =
     (let t = word_of_int now in
      if serialBefore t (Inception sig) then Inl ErrNotYetValid
      else if serialBefore (Expiration sig) t then Inl ErrExpired
      else Inr ())"

section \<open>Signatures\<close>

definition hashSum :: "crypto \<Rightarrow> hash \<Rightarrow> byte list \<Rightarrow> byte list" where
  "hashSum cr h data =
     (case h of crypto384 \<Rightarrow> sha384Sum cr data | crypto512 \<Rightarrow> sha512Sum cr data
      | crypto256 \<Rightarrow> sha256Sum cr data)"

text \<open>\<open>new(big.Int).SetBytes\<close>: a big-endian natural number.\<close>

definition bigInt :: "byte list \<Rightarrow> nat" where
  "bigInt bs = foldl (\<lambda>n b. n * 256 + unat b) 0 bs"

definition verifyRSA :: "crypto \<Rightarrow> byte list \<Rightarrow> byte list \<Rightarrow> byte list \<Rightarrow> hash \<Rightarrow> dnssecErr + unit" where
  "verifyRSA cr publicKey data sig h =
     (if length publicKey < 3 then Inl ErrKeySize
      else let expLen = unat (publicKey ! 0);
               (expLen, offset) =
                 (if expLen = 0 then (unat (publicKey ! 1) * 256 + unat (publicKey ! 2), 3)
                  else (expLen, 1))
        in if expLen = 0 \<or> offset + expLen \<ge> length publicKey then Inl ErrKeySize
           else let n = bigInt (drop (offset + expLen) publicKey);
                    e = sint (word_of_nat (bigInt (take expLen (drop offset publicKey))) :: 64 word)
             in if e = 0 \<or> n = 0 then Inl ErrBadKey
                else if rsaVerifyPKCS1v15 cr n e (if h = crypto512 then crypto512 else crypto256)
                          (hashSum cr h data) sig
                then Inr () else Inl ErrBadSignature)"

definition curveSize :: "curve \<Rightarrow> nat" where
  "curveSize c = ((case c of P256 \<Rightarrow> 256 | P384 \<Rightarrow> 384) + 7) div 8"

definition verifyECDSA ::
  "crypto \<Rightarrow> curve \<Rightarrow> byte list \<Rightarrow> byte list \<Rightarrow> byte list \<Rightarrow> hash \<Rightarrow> dnssecErr + unit" where
  "verifyECDSA cr curve publicKey data sig h =
     (let sz = curveSize curve in
      if length publicKey \<noteq> 2 * sz then Inl ErrKeySize
      else if length sig \<noteq> 2 * sz then Inl ErrSignatureSize
      else let x = bigInt (take sz publicKey); y = bigInt (drop sz publicKey) in
        if \<not> isOnCurve cr curve x y then Inl ErrBadKey
        else if ecdsaVerify cr curve x y (hashSum cr h data)
                  (bigInt (take sz sig)) (bigInt (drop sz sig))
        then Inr () else Inl ErrBadSignature)"

definition verifySignature ::
  "crypto \<Rightarrow> byte \<Rightarrow> byte list \<Rightarrow> byte list \<Rightarrow> byte list \<Rightarrow> dnssecErr + unit" where
  "verifySignature cr algorithm publicKey data sig =
     (if algorithm = algRSASHA256 then verifyRSA cr publicKey data sig crypto256
      else if algorithm = algRSASHA512 then verifyRSA cr publicKey data sig crypto512
      else if algorithm = algECDSAP256SHA256 then verifyECDSA cr P256 publicKey data sig crypto256
      else if algorithm = algECDSAP384SHA384 then verifyECDSA cr P384 publicKey data sig crypto384
      else if algorithm = algEd25519 then
        (if length publicKey \<noteq> 32 then Inl ErrKeySize
         else if ed25519Verify cr publicKey data sig then Inr () else Inl ErrBadSignature)
      else Inl ErrUnsupportedAlgorithm)"

definition VerifyRRSet ::
  "unicode \<Rightarrow> crypto \<Rightarrow> RR list \<Rightarrow> RRSIG \<Rightarrow> DNSKEY \<Rightarrow> int \<Rightarrow> dnssecErr + unit" where
  "VerifyRRSet u cr rrset sig key now =
     (if rrset = [] then Inl ErrNoRecords
      else let owner = rrName (hd rrset) in
        if list_ex (\<lambda>rr. rrType rr \<noteq> TypeCovered sig \<or> \<not> equalName u (rrName rr) owner) rrset
        then Inl ErrNotOneSet
        else if sigAlgorithm sig \<noteq> keyAlgorithm key then Inl ErrAlgorithmMismatch
        else if sigKeyTag sig \<noteq> KeyTag key then Inl ErrKeyTagMismatch
        else if \<not> IsZoneKey key then Inl ErrNotZoneKey
        else if \<not> isSubdomainOrEqual u owner (SignerName sig) then Inl ErrSignerNotAuthoritative
        else bindR (checkValidityPeriod sig now) (\<lambda>_.
             bindR (signedData rrset sig) (\<lambda>signed.
               verifySignature cr (sigAlgorithm sig) (PublicKey key) signed (Signature sig))))"

section \<open>Delegation signers\<close>

definition keyRDATA :: "DNSKEY \<Rightarrow> byte list" where
  "keyRDATA k = [ucast (drop_bit 8 (keyFlags k)), ucast (keyFlags k), keyProtocol k, keyAlgorithm k]
     @ PublicKey k"

definition VerifyDS :: "crypto \<Rightarrow> gostr \<Rightarrow> DNSKEY \<Rightarrow> DS \<Rightarrow> dnssecErr + unit" where
  "VerifyDS cr owner key ds =
     (if dsKeyTag ds \<noteq> KeyTag key \<or> dsAlgorithm ds \<noteq> keyAlgorithm key then Inl ErrDSOtherKey
      else bindR (canonicalName owner) (\<lambda>name.
        let material = name @ keyRDATA key in
        if DigestType ds = digestSHA256 then
          (if sha256Sum cr material \<noteq> Digest ds then Inl ErrDSDigest else Inr ())
        else if DigestType ds = digestSHA384 then
          (if sha384Sum cr material \<noteq> Digest ds then Inl ErrDSDigest else Inr ())
        else Inl ErrUnsupportedAlgorithm))"

end
