(* ===== verification/Name_Order.thy ===== *)
theory Name_Order
  imports Dns_Names
begin

text \<open>
  The canonical order of names.  \<open>comparison\<close> is the contract of a three-way comparison
  function such as \<open>strings.Compare\<close>: it is a linear order presented by the sign of a
  number.  The contract is closed under the lexicographic lifting to lists, which is how
  the comparison of bytes gives that of labels and the comparison of labels gives
  \<open>CompareNames\<close>.  The facts about gaps (\<open>inGap\<close>) are proved once from the contract and
  used for NSEC and NSEC3 alike.
\<close>

text \<open>
  \<open>inGap cmp owner next x\<close>: \<open>x\<close> is strictly inside the gap that a denial record with the
  given ends describes; the last record of a zone wraps around.
\<close>

definition inGap :: "('a \<Rightarrow> 'a \<Rightarrow> int) \<Rightarrow> 'a \<Rightarrow> 'a \<Rightarrow> 'a \<Rightarrow> bool" where
  "inGap cmp owner next x =
     (let afterOwner = cmp x owner > 0; beforeNext = cmp x next < 0
      in if cmp owner next \<ge> 0 then afterOwner \<or> beforeNext else afterOwner \<and> beforeNext)"

locale comparison =
  fixes cmp :: "'a \<Rightarrow> 'a \<Rightarrow> int"
  assumes cmp_zero: "cmp x y = 0 \<longleftrightarrow> x = y"
    and cmp_swap: "cmp y x = - cmp x y"
    and cmp_trans: "cmp x y < 0 \<Longrightarrow> cmp y z < 0 \<Longrightarrow> cmp x z < 0"
begin

lemma refl [simp]: "cmp x x = 0"
  by (simp add: cmp_zero)

lemma pos_iff: "cmp x y > 0 \<longleftrightarrow> cmp y x < 0"
  using cmp_swap [of x y] by simp

lemma total: "cmp x y < 0 \<or> x = y \<or> cmp y x < 0"
  using cmp_zero [of x y] cmp_swap [of x y] by linarith

lemma gap_not_ends: "inGap cmp a b x \<Longrightarrow> x = a \<or> x = b \<Longrightarrow> cmp a b \<ge> 0"
  by (auto simp: inGap_def split: if_splits)

lemma lexCmp_zero: "lexCmp cmp xs ys = 0 \<longleftrightarrow> xs = ys"
proof (induction xs arbitrary: ys)
  case Nil
  then show ?case by (cases ys) auto
next
  case (Cons x xs)
  then show ?case by (cases ys) (auto simp: Let_def cmp_zero)
qed

lemma lexCmp_swap: "lexCmp cmp ys xs = - lexCmp cmp xs ys"
proof (induction xs arbitrary: ys)
  case Nil
  then show ?case by (cases ys) auto
next
  case (Cons x xs)
  show ?case
  proof (cases ys)
    case ys: (Cons y zs)
    have "cmp y x = - cmp x y" by (rule cmp_swap)
    with Cons.IH [of zs] ys show ?thesis by (simp add: Let_def)
  qed auto
qed

lemma lexCmp_Cons_neg:
  "lexCmp cmp (x # xs) (y # ys) < 0 \<longleftrightarrow> cmp x y < 0 \<or> (x = y \<and> lexCmp cmp xs ys < 0)"
  using cmp_zero [of x y] by (auto simp: Let_def)

lemma lexCmp_trans:
  "lexCmp cmp xs ys < 0 \<Longrightarrow> lexCmp cmp ys zs < 0 \<Longrightarrow> lexCmp cmp xs zs < 0"
proof (induction xs arbitrary: ys zs)
  case Nil
  then show ?case by (cases zs; cases ys) auto
next
  case (Cons x xs)
  then obtain y ys' z zs' where [simp]: "ys = y # ys'" "zs = z # zs'"
    by (cases ys; cases zs) auto
  from Cons.prems have
    "cmp x y < 0 \<or> x = y \<and> lexCmp cmp xs ys' < 0" "cmp y z < 0 \<or> y = z \<and> lexCmp cmp ys' zs' < 0"
    by (simp_all only: lexCmp_Cons_neg \<open>ys = y # ys'\<close> \<open>zs = z # zs'\<close>)
  then have "cmp x z < 0 \<or> x = z \<and> lexCmp cmp xs zs' < 0"
    using cmp_trans [of x y z] Cons.IH [of ys' zs'] by auto
  then show ?case by (simp only: lexCmp_Cons_neg \<open>zs = z # zs'\<close>)
qed

text \<open>The extensions of a list are convex: what lies between two of them is one of them.\<close>

lemma lexCmp_between:
  "lexCmp cmp (p @ xs) m \<le> 0 \<Longrightarrow> lexCmp cmp m (p @ ys) \<le> 0 \<Longrightarrow> \<exists>zs. m = p @ zs"
proof (induction p arbitrary: m)
  case (Cons a p)
  from Cons.prems(1) obtain b m' where m: "m = b # m'" by (cases m) auto
  have "a = b"
    using Cons.prems cmp_zero [of a b] cmp_zero [of b a] cmp_swap [of a b]
    by (auto simp: m Let_def split: if_splits)
  with Cons.prems Cons.IH [of m'] show ?case by (auto simp: m Let_def)
qed simp

lemma comparison_lexCmp: "comparison (lexCmp cmp)"
  by unfold_locales (fact lexCmp_zero lexCmp_swap lexCmp_trans)+

end

text \<open>A list sorts before every proper extension of it: an ancestor precedes its descendants.\<close>

lemma lexCmp_prefix: "(\<And>x. cmp x x = 0) \<Longrightarrow> lexCmp cmp xs (xs @ y # ys) = -1"
  by (induction xs) (auto simp: Let_def)

text \<open>\<open>strings.Compare\<close> is the lexicographic lifting of the order on bytes.\<close>

definition cmpByte :: "byte \<Rightarrow> byte \<Rightarrow> int" where
  "cmpByte a b = (if a < b then -1 else if b < a then 1 else 0)"

lemma compareBytes_lexCmp: "compareBytes = lexCmp cmpByte"
proof (intro ext)
  fix s t show "compareBytes s t = lexCmp cmpByte s t"
    by (induction s t rule: compareBytes.induct) (auto simp: Let_def cmpByte_def)
qed

interpretation byte_order: comparison cmpByte
  by unfold_locales (auto simp: cmpByte_def split: if_splits)

interpretation label_order: comparison compareBytes
  unfolding compareBytes_lexCmp by (rule byte_order.comparison_lexCmp)

interpretation labels_order: comparison "lexCmp compareBytes"
  by (rule label_order.comparison_lexCmp)

text \<open>\<open>CompareNames\<close> is that order on the reversed label lists.\<close>

abbreviation ckey :: "gostr \<Rightarrow> gostr list" where
  "ckey n \<equiv> rev (canon n)"

lemma CompareNames_canon [name_simps]:
  assumes "isASCII a" "isASCII b"
  shows "CompareNames u a b = lexCmp compareBytes (ckey a) (ckey b)"
  using assms by (simp add: CompareNames_def ToLower_ascii splitName_map_lower canon_def)

lemma CompareNames_zero:
  assumes "isASCII a" "isASCII b"
  shows "CompareNames u a b = 0 \<longleftrightarrow> equalName u a b"
  using assms by (simp add: CompareNames_canon labels_order.cmp_zero equalName_iff)

text \<open>A proper ancestor sorts strictly before its descendants.\<close>

lemma CompareNames_ancestor:
  assumes "isASCII n" "isASCII z" "isProperSubdomain u n z"
  shows "CompareNames u z n < 0"
proof -
  from assms obtain p where p: "canon n = p @ canon z" "p \<noteq> []"
    by (auto simp: isProperSubdomain_iff strict_suffix_def suffix_def)
  then obtain y ys where "rev p = y # ys" by (cases "rev p") auto
  with p have "ckey n = ckey z @ y # ys" by simp
  then have "lexCmp compareBytes (ckey z) (ckey n) = -1"
    by (simp only: lexCmp_prefix label_order.refl)
  with assms show ?thesis by (simp add: CompareNames_canon)
qed

section \<open>Common suffixes\<close>

lemma sharedTop_le: "sharedTop as bs \<le> length as" "sharedTop as bs \<le> length bs"
  by (induction as bs rule: sharedTop.induct) auto

lemma sharedTop_take: "take (sharedTop as bs) as = take (sharedTop as bs) bs"
  by (induction as bs rule: sharedTop.induct) auto

lemma sharedTop_max:
  "take k as = take k bs \<Longrightarrow> k \<le> length as \<Longrightarrow> k \<le> length bs \<Longrightarrow> k \<le> sharedTop as bs"
proof (induction as bs arbitrary: k rule: sharedTop.induct)
  case (1 a as b bs)
  then show ?case by (cases k) auto
qed auto

end
