(* ===== verification/Dnssec_Nsec3.thy ===== *)
theory Dnssec_Nsec3
  imports Dnssec_Verify Name_Order
begin

text \<open>
  Denial of existence over hashed names (\<open>dnssec/nsec3.go\<close>): the base32hex encoding of
  hashes, hashing of names, the search for matching and covering records, the closest
  encloser, and the four proofs.
\<close>

section \<open>base32hex\<close>

text \<open>
  \<open>base32.HexEncoding.WithPadding(NoPadding).EncodeToString\<close> of the standard library: the
  bits of the bytes, most significant first, five at a time with zeros at the end, each group
  a digit of the alphabet \<open>0-9A-V\<close>.
\<close>

definition bitsOf :: "byte \<Rightarrow> bool list" where
  "bitsOf b = map (bit b) [7, 6, 5, 4, 3, 2, 1, 0]"

fun groups5 :: "bool list \<Rightarrow> bool list list" where
  "groups5 [] = []"
| "groups5 (a # b # c # d # e # bs) = [a, b, c, d, e] # groups5 bs"
| "groups5 bs = [take 5 (bs @ replicate 5 False)]"

definition digitValue :: "bool list \<Rightarrow> nat" where
  "digitValue bs = foldl (\<lambda>n b. 2 * n + (if b then 1 else 0)) 0 bs"

definition base32Digit :: "nat \<Rightarrow> byte" where
  "base32Digit n = (if n < 10 then word_of_nat (48 + n) else word_of_nat (55 + n))"

definition base32Hex :: "byte list \<Rightarrow> gostr" where
  "base32Hex bs = map (base32Digit \<circ> digitValue) (groups5 (concat (map bitsOf bs)))"

section \<open>Records\<close>

abbreviation (input) nsec3HashSHA1 :: byte where "nsec3HashSHA1 \<equiv> 1"
abbreviation (input) maxNSEC3Iterations :: u16 where "maxNSEC3Iterations \<equiv> 100"

record nsec3Record =
  n3owner :: gostr
  n3zone :: gostr
  n3rr :: NSEC3

text \<open>\<open>nsec3Record.covers\<close> compares strings; the gap test is the one of \<open>nsecRecord.covers\<close>.\<close>

definition covers3 :: "unicode \<Rightarrow> nsec3Record \<Rightarrow> gostr \<Rightarrow> bool" where
  "covers3 u n hash =
     (let next = ToUpper u (base32Hex (NextHashed (n3rr n)))
      in inGap compareBytes (n3owner n) next hash)"

definition matches :: "nsec3Record \<Rightarrow> gostr \<Rightarrow> bool" where
  "matches n hash = (hash = n3owner n)"

definition hashName :: "unicode \<Rightarrow> crypto \<Rightarrow> nsec3Record \<Rightarrow> gostr \<Rightarrow> dnssecErr + gostr" where
  "hashName u cr n name =
     (if n3Algorithm (n3rr n) \<noteq> nsec3HashSHA1 then Inl ErrUnsupportedDenial
      else if Iterations (n3rr n) > maxNSEC3Iterations then Inl ErrUnsupportedDenial
      else bindR (canonicalName name) (\<lambda>wire.
        let salt = Salt (n3rr n);
            s = sha1Sum cr (wire @ salt);
            s = ((\<lambda>s. sha1Sum cr (s @ salt)) ^^ unat (Iterations (n3rr n))) s
        in Inr (ToUpper u (base32Hex s))))"

fun findMatch :: "unicode \<Rightarrow> crypto \<Rightarrow> nsec3Record list \<Rightarrow> gostr \<Rightarrow> dnssecErr + nsec3Record option" where
  "findMatch u cr [] name = Inr None"
| "findMatch u cr (n # ns) name =
     bindR (hashName u cr n name) (\<lambda>hash.
       if matches n hash then Inr (Some n) else findMatch u cr ns name)"

fun findCover :: "unicode \<Rightarrow> crypto \<Rightarrow> nsec3Record list \<Rightarrow> gostr \<Rightarrow> dnssecErr + nsec3Record option" where
  "findCover u cr [] name = Inr None"
| "findCover u cr (n # ns) name =
     bindR (hashName u cr n name) (\<lambda>hash.
       if covers3 u n hash then Inr (Some n) else findCover u cr ns name)"

section \<open>The closest encloser\<close>

text \<open>
  The loop of \<open>closestEncloser\<close>: its argument is \<open>labels[i-1:]\<close>, so the candidate is the
  tail and the condition is \<open>len(labels)-i >= zoneLabels\<close>.
\<close>

fun encloserLoop ::
  "unicode \<Rightarrow> crypto \<Rightarrow> nsec3Record list \<Rightarrow> nat \<Rightarrow> gostr list \<Rightarrow> dnssecErr + (gostr \<times> gostr)" where
  "encloserLoop u cr nsec3s zoneLabels [] = Inl ErrNoDenial"
| "encloserLoop u cr nsec3s zoneLabels (l # labels) =
     (if length labels \<ge> zoneLabels then
        (let candidate = joinDot labels in
         bindR (findMatch u cr nsec3s candidate) (\<lambda>match.
           if match \<noteq> None then Inr (candidate, joinDot (l # labels))
           else encloserLoop u cr nsec3s zoneLabels labels))
      else Inl ErrNoDenial)"

definition closestEncloser3 ::
  "unicode \<Rightarrow> crypto \<Rightarrow> nsec3Record list \<Rightarrow> gostr \<Rightarrow> gostr \<Rightarrow> dnssecErr + (gostr \<times> gostr)" where
  "closestEncloser3 u cr nsec3s name zone =
     (let labels = splitName name; zoneLabels = length (splitName zone) in
      if length labels < zoneLabels then Inl ErrNoDenial
      else encloserLoop u cr nsec3s zoneLabels labels)"

section \<open>The proofs\<close>

definition proveNoDSNSEC3 :: "unicode \<Rightarrow> crypto \<Rightarrow> nsec3Record list \<Rightarrow> gostr \<Rightarrow> dnssecErr + unit" where
  "proveNoDSNSEC3 u cr nsec3s zone =
     bindR (findMatch u cr nsec3s zone) (\<lambda>match.
       case match of
         Some n \<Rightarrow>
           (if NSEC3_TypeInBitmap (n3rr n) TypeSOA then Inl ErrNoDenial
            else if NSEC3_TypeInBitmap (n3rr n) TypeDS then Inl ErrNoDenial
            else Inr ())
       | None \<Rightarrow>
           bindR (findCover u cr nsec3s zone) (\<lambda>cover.
             case cover of
               Some c \<Rightarrow> (if OptOut (n3rr c) then Inr () else Inl ErrNoDenial)
             | None \<Rightarrow> Inl ErrNoDenial))"

definition wildcardOf :: "gostr \<Rightarrow> gostr" where
  "wildcardOf n = star @ dot # n"

definition proveNameErrorNSEC3 ::
  "unicode \<Rightarrow> crypto \<Rightarrow> nsec3Record list \<Rightarrow> gostr \<Rightarrow> gostr \<Rightarrow> dnssecErr + unit" where
  "proveNameErrorNSEC3 u cr nsec3s qname zone =
     bindR (closestEncloser3 u cr nsec3s qname zone) (\<lambda>(encloser, nextCloser).
     bindR (findCover u cr nsec3s nextCloser) (\<lambda>cover.
       if cover = None then Inl ErrNoDenial
       else bindR (findCover u cr nsec3s (wildcardOf encloser)) (\<lambda>wildcard.
         if wildcard = None then Inl ErrNoDenial else Inr ())))"

definition proveNoDataNSEC3 ::
  "unicode \<Rightarrow> crypto \<Rightarrow> nsec3Record list \<Rightarrow> gostr \<Rightarrow> u16 \<Rightarrow> gostr \<Rightarrow> dnssecErr + unit" where
  "proveNoDataNSEC3 u cr nsec3s qname qtype zone =
     bindR (findMatch u cr nsec3s qname) (\<lambda>match.
       case match of
         Some n \<Rightarrow>
           (if NSEC3_TypeInBitmap (n3rr n) qtype then Inl ErrNoDenial
            else if NSEC3_TypeInBitmap (n3rr n) TypeCNAME then Inl ErrNoDenial
            else if qtype \<noteq> TypeDS \<and> NSEC3_TypeInBitmap (n3rr n) TypeNS
                      \<and> \<not> NSEC3_TypeInBitmap (n3rr n) TypeSOA then Inl ErrNoDenial
            else Inr ())
       | None \<Rightarrow>
           bindR (closestEncloser3 u cr nsec3s qname zone) (\<lambda>(encloser, nextCloser).
           bindR (findCover u cr nsec3s nextCloser) (\<lambda>cover.
             case cover of
               None \<Rightarrow> Inl ErrNoDenial
             | Some c \<Rightarrow>
                 if qtype = TypeDS \<and> OptOut (n3rr c) then Inr ()
                 else bindR (findMatch u cr nsec3s (wildcardOf encloser)) (\<lambda>wildcard.
                   case wildcard of
                     Some w \<Rightarrow>
                       (if \<not> NSEC3_TypeInBitmap (n3rr w) qtype then Inr () else Inl ErrNoDenial)
                   | None \<Rightarrow> Inl ErrNoDenial))))"

definition proveNoCloserMatchNSEC3 ::
  "unicode \<Rightarrow> crypto \<Rightarrow> nsec3Record list \<Rightarrow> gostr \<Rightarrow> gostr \<Rightarrow> dnssecErr + unit" where
  "proveNoCloserMatchNSEC3 u cr nsec3s qname zone =
     bindR (closestEncloser3 u cr nsec3s qname zone) (\<lambda>(_, nextCloser).
     bindR (findCover u cr nsec3s nextCloser) (\<lambda>cover.
       if cover = None then Inl ErrNoDenial else Inr ()))"

section \<open>Collecting the records of a section\<close>

definition sameParameters :: "NSEC3 \<Rightarrow> NSEC3 \<Rightarrow> bool" where
  "sameParameters a b =
     (n3Algorithm a = n3Algorithm b \<and> Iterations a = Iterations b \<and> Salt a = Salt b)"

text \<open>The loop of \<open>nsec3Records\<close>, with the records so far and the zone they belong to.\<close>

fun nsec3Loop ::
  "unicode \<Rightarrow> RR list \<Rightarrow> nsec3Record list \<Rightarrow> gostr \<Rightarrow> dnssecErr + (nsec3Record list \<times> gostr)" where
  "nsec3Loop u [] out zone = Inr (out, zone)"
| "nsec3Loop u (rr # rrs) out zone =
     (case AsNSEC3 rr of
        None \<Rightarrow> nsec3Loop u rrs out zone
      | Some n \<Rightarrow>
          (case cutDot (trimDot (rrName rr)) of (label, rest, found) \<Rightarrow>
             if label = [] then Inl ErrNoDenial
             else let rest = (if found then rest else [dot]) in
               if zone \<noteq> [] \<and> \<not> equalName u rest zone then Inl ErrNoDenial
               else let zone = (if zone = [] then rest else zone) in
                 if out \<noteq> [] \<and> \<not> sameParameters (n3rr (hd out)) n then Inl ErrNoDenial
                 else nsec3Loop u rrs
                        (out @ [\<lparr>n3owner = ToUpper u label, n3zone = rest, n3rr = n\<rparr>]) zone))"

definition nsec3Records :: "unicode \<Rightarrow> RR list \<Rightarrow> dnssecErr + (nsec3Record list \<times> gostr)" where
  "nsec3Records u records = nsec3Loop u records [] []"

end
