(* ===== verification/Dnssec_Denial.thy ===== *)
theory Dnssec_Denial
  imports Dnssec_Nsec3
begin

text \<open>
  Denial of existence (\<open>dnssec/denial.go\<close>): the records of a section, sorted into NSEC and
  NSEC3, and the four proofs a response may owe: that a delegation has no DS, that a name
  does not exist, that a name lacks a type, and that no closer name stood before a wildcard.
\<close>

section \<open>NSEC records\<close>

record nsecRecord =
  nowner :: gostr
  nrr :: NSEC

definition covers :: "unicode \<Rightarrow> nsecRecord \<Rightarrow> gostr \<Rightarrow> bool" where
  "covers u n name = inGap (CompareNames u) (nowner n) (NextDomain (nrr n)) name"

definition closestEncloser :: "unicode \<Rightarrow> nsecRecord \<Rightarrow> gostr \<Rightarrow> gostr" where
  "closestEncloser u n name =
     (let a = commonSuffix u name (nowner n); b = commonSuffix u name (NextDomain (nrr n))
      in if length (splitName a) \<ge> length (splitName b) then a else b)"

definition findCovering :: "unicode \<Rightarrow> nsecRecord list \<Rightarrow> gostr \<Rightarrow> nsecRecord option" where
  "findCovering u nsecs name = find (\<lambda>n. covers u n name) nsecs"

section \<open>The denial records of a section\<close>

record denial =
  dnsec :: "nsecRecord list"
  dnsec3 :: "nsec3Record list"
  dzone :: gostr

definition nsecOf :: "RR list \<Rightarrow> nsecRecord list" where
  "nsecOf records =
     List.map_filter (\<lambda>rr. map_option (\<lambda>nsec. \<lparr>nowner = rrName rr, nrr = nsec\<rparr>) (AsNSEC rr)) records"

definition collectDenial :: "unicode \<Rightarrow> RR list \<Rightarrow> dnssecErr + denial" where
  "collectDenial u records =
     (if nsecOf records \<noteq> [] then Inr \<lparr>dnsec = nsecOf records, dnsec3 = [], dzone = []\<rparr>
      else bindR (nsec3Records u records) (\<lambda>(nsec3s, zone).
        if nsec3s = [] then Inl ErrNoDenial
        else Inr \<lparr>dnsec = [], dnsec3 = nsec3s, dzone = zone\<rparr>))"

section \<open>The proofs\<close>

text \<open>The first loop of each proof stops at the first record of the name: \<open>nsecAt\<close>.\<close>

definition nsecAt :: "unicode \<Rightarrow> nsecRecord list \<Rightarrow> gostr \<Rightarrow> nsecRecord option" where
  "nsecAt u nsecs name = find (\<lambda>n. equalName u (nowner n) name) nsecs"

definition ProveNoDS :: "unicode \<Rightarrow> crypto \<Rightarrow> RR list \<Rightarrow> gostr \<Rightarrow> dnssecErr + unit" where
  "ProveNoDS u cr records zone =
     bindR (collectDenial u records) (\<lambda>d.
       if dnsec3 d \<noteq> [] then proveNoDSNSEC3 u cr (dnsec3 d) zone
       else case nsecAt u (dnsec d) zone of
         Some n \<Rightarrow>
           (if NSEC_TypeInBitmap (nrr n) TypeSOA then Inl ErrNoDenial
            else if NSEC_TypeInBitmap (nrr n) TypeDS then Inl ErrNoDenial
            else Inr ())
       | None \<Rightarrow> (if list_ex (\<lambda>n. covers u n zone) (dnsec d) then Inr () else Inl ErrNoDenial))"

definition ProveNameError :: "unicode \<Rightarrow> crypto \<Rightarrow> RR list \<Rightarrow> gostr \<Rightarrow> dnssecErr + unit" where
  "ProveNameError u cr records qname =
     bindR (collectDenial u records) (\<lambda>d.
       if dnsec3 d \<noteq> [] then proveNameErrorNSEC3 u cr (dnsec3 d) qname (dzone d)
       else case findCovering u (dnsec d) qname of
         None \<Rightarrow> Inl ErrNoDenial
       | Some covering \<Rightarrow>
           (if findCovering u (dnsec d) (wildcardOf (closestEncloser u covering qname)) = None
            then Inl ErrNoDenial else Inr ()))"

definition ProveNoData :: "unicode \<Rightarrow> crypto \<Rightarrow> RR list \<Rightarrow> gostr \<Rightarrow> u16 \<Rightarrow> dnssecErr + unit" where
  "ProveNoData u cr records qname qtype =
     bindR (collectDenial u records) (\<lambda>d.
       if dnsec3 d \<noteq> [] then proveNoDataNSEC3 u cr (dnsec3 d) qname qtype (dzone d)
       else case nsecAt u (dnsec d) qname of
         Some n \<Rightarrow>
           (if NSEC_TypeInBitmap (nrr n) qtype then Inl ErrNoDenial
            else if NSEC_TypeInBitmap (nrr n) TypeCNAME then Inl ErrNoDenial
            else if qtype \<noteq> TypeDS \<and> NSEC_TypeInBitmap (nrr n) TypeNS
                      \<and> \<not> NSEC_TypeInBitmap (nrr n) TypeSOA then Inl ErrNoDenial
            else Inr ())
       | None \<Rightarrow>
           (case findCovering u (dnsec d) qname of
              None \<Rightarrow> Inl ErrNoDenial
            | Some covering \<Rightarrow>
                if isProperSubdomain u (NextDomain (nrr covering)) qname then Inr ()
                else let wildcard = wildcardOf (closestEncloser u covering qname) in
                  if list_ex (\<lambda>n. equalName u (nowner n) wildcard
                        \<and> \<not> NSEC_TypeInBitmap (nrr n) qtype) (dnsec d)
                  then Inr () else Inl ErrNoDenial))"

definition ProveNoCloserMatch :: "unicode \<Rightarrow> crypto \<Rightarrow> RR list \<Rightarrow> gostr \<Rightarrow> dnssecErr + unit" where
  "ProveNoCloserMatch u cr records qname =
     bindR (collectDenial u records) (\<lambda>d.
       if dnsec3 d \<noteq> [] then proveNoCloserMatchNSEC3 u cr (dnsec3 d) qname (dzone d)
       else if findCovering u (dnsec d) qname = None then Inl ErrNoDenial else Inr ())"

definition IsWildcardExpansion :: "gostr \<Rightarrow> RRSIG \<Rightarrow> bool" where
  "IsWildcardExpansion owner sig = (unat (sigLabels sig) < length (splitName owner))"

end
