(* ===== verification/Verify_Facts.thy ===== *)
theory Verify_Facts
  imports Dnssec_Verify Name_Order
begin

text \<open>
  Facts about signature verification: what the canonical forms are, that the signed bytes
  determine the signed data, that they do not depend on the order in which records arrive,
  and how the circular arithmetic of validity periods relates to real time.
\<close>

section \<open>Canonical names\<close>

definition wireLabel :: "gostr \<Rightarrow> bool" where
  "wireLabel l = (l \<noteq> [] \<and> length l \<le> 63)"

lemma canonicalLabels_Inr:
  "canonicalLabels ls out = Inr r \<longleftrightarrow>
     list_all wireLabel ls \<and> r = out @ encLabels (map (map lowerByte) ls)"
  by (induction ls arbitrary: out) (auto simp: wireLabel_def)

lemma canonicalName_eq:
  "canonicalName n = Inr bs \<longleftrightarrow>
     list_all wireLabel (splitName n) \<and> bs = encLabels (canon n) @ [0]"
  by (auto simp: canonicalName_def canon_def splitName_def Let_def bindR_eq_Inr canonicalLabels_Inr)

lemma wireLabel_lower [simp]: "wireLabel (map lowerByte l) = wireLabel l"
  by (simp add: wireLabel_def)

lemma wireLabel_canon: "list_all wireLabel (splitName n) \<longleftrightarrow> list_all wireLabel (canon n)"
  by (simp add: canon_def list.pred_map comp_def)

lemma wireLabel_byte:
  assumes "wireLabel l"
  shows "(word_of_nat (length l) :: byte) \<noteq> 0" "unat (word_of_nat (length l) :: byte) = length l"
  using assms label_byte [of "length l"] by (simp_all add: wireLabel_def)

text \<open>
  The terminated wire form of a name is a prefix code: reading two names off the same bytes
  gives the same labels and leaves the same rest.
\<close>

lemma encLabels_prefix_free:
  assumes "list_all wireLabel ls" "list_all wireLabel ks"
    and "encLabels ls @ 0 # r = encLabels ks @ 0 # s"
  shows "ls = ks \<and> r = s"
  using assms
proof (induction ls arbitrary: ks)
  case Nil
  then show ?case using wireLabel_byte by (cases ks) auto
next
  case (Cons l ls)
  from Cons.prems obtain k ks' where ks: "ks = k # ks'" using wireLabel_byte by (cases ks) auto
  with Cons.prems have "wireLabel l" "wireLabel k"
    "(word_of_nat (length l) :: byte) = word_of_nat (length k)" by simp_all
  then have "length l = length k" by (metis wireLabel_byte(2))
  with Cons.prems ks have "l = k" "encLabels ls @ 0 # r = encLabels ks' @ 0 # s" by simp_all
  with Cons ks show ?case by simp
qed

lemma canonicalName_prefix_free:
  assumes "canonicalName a = Inr x" "canonicalName b = Inr y" "x @ r = y @ s"
  shows "canon a = canon b \<and> x = y \<and> r = s"
  using assms encLabels_prefix_free [of "canon a" "canon b" r s]
  by (auto simp: canonicalName_eq wireLabel_canon)

lemma canonicalName_canon:
  "canon a = canon b \<Longrightarrow> canonicalName a = Inr x \<Longrightarrow> canonicalName b = Inr x"
  by (simp add: canonicalName_eq wireLabel_canon)

section \<open>The order of records\<close>

lemma compareBytes_less: "compareBytes a b < 0 \<longleftrightarrow> a < b"
  by (induction a b rule: compareBytes.induct) auto

lemma canonicalRecords_Inr:
  "canonicalRecords rrs = Inr rds \<longleftrightarrow> map canonicalRDATA rrs = map Inr rds"
proof (induction rrs arbitrary: rds)
  case (Cons rr rrs)
  then show ?case by (cases rds) (auto simp: bindR_eq_Inr)
qed auto

text \<open>Sorting and dropping repetitions leaves a list that depends only on the set of records.\<close>

lemma canonical_order:
  fixes xs :: "'a :: linorder list"
  shows "remdups_adj (sort xs) = sorted_list_of_set (set xs)"
proof (rule sorted_distinct_set_unique)
  have "sorted ys \<Longrightarrow> distinct (remdups_adj ys)" for ys :: "'a list"
    by (induction ys rule: remdups_adj.induct) auto
  then show "sorted (remdups_adj (sort xs))" "distinct (remdups_adj (sort xs))"
    by (simp_all add: sorted_remdups_adj)
qed simp_all

lemma canonicalRecords_set:
  assumes "canonicalRecords rrs = Inr rds" "canonicalRDATA ` set rrs' = canonicalRDATA ` set rrs"
  shows "\<exists>rds'. canonicalRecords rrs' = Inr rds' \<and> set rds' = set rds"
proof -
  from assms(1) have eq: "canonicalRDATA ` set rrs = Inr ` set rds"
    by (metis canonicalRecords_Inr list.set_map)
  define rds' where "rds' = map (\<lambda>rr. projr (canonicalRDATA rr)) rrs'"
  have "canonicalRDATA rr = Inr (projr (canonicalRDATA rr))" if "rr \<in> set rrs'" for rr
  proof -
    have "canonicalRDATA rr \<in> Inr ` set rds" using that eq assms(2) by blast
    then show ?thesis by auto
  qed
  then have m: "map canonicalRDATA rrs' = map Inr rds'" by (simp add: rds'_def)
  then have "Inr ` set rds' = canonicalRDATA ` set rrs'" by (metis list.set_map)
  then have "(Inr ` set rds' :: (dnssecErr + byte list) set) = Inr ` set rds" by (simp only: eq assms(2))
  then have "set rds' = set rds" by (simp add: inj_image_eq_iff inj_on_def)
  with m show ?thesis by (auto simp: canonicalRecords_Inr)
qed

section \<open>Signed bytes\<close>

lemma rrsigFields_length [simp]: "length (rrsigFields s) = 18"
  by (simp add: rrsigFields_def)

lemma put16_inj [simp]: "put16 a = put16 b \<longleftrightarrow> a = b"
proof
  assume "put16 a = put16 b"
  then have "be16 (ucast (drop_bit 8 a)) (ucast a) = be16 (ucast (drop_bit 8 b)) (ucast b)"
    by (simp only: put16_def list.inject)
  then show "a = b" by (simp only: be16_put16)
qed simp

lemma put32_inj [simp]: "put32 a = put32 b \<longleftrightarrow> a = b"
proof
  assume "put32 a = put32 b"
  then have "be32 (ucast (drop_bit 24 a)) (ucast (drop_bit 16 a)) (ucast (drop_bit 8 a)) (ucast a)
      = be32 (ucast (drop_bit 24 b)) (ucast (drop_bit 16 b)) (ucast (drop_bit 8 b)) (ucast b)"
    by (simp only: put32_def list.inject)
  then show "a = b" by (simp only: be32_put32)
qed simp

definition sameFields :: "RRSIG \<Rightarrow> RRSIG \<Rightarrow> bool" where
  "sameFields s t = (TypeCovered s = TypeCovered t \<and> sigAlgorithm s = sigAlgorithm t
     \<and> sigLabels s = sigLabels t \<and> OriginalTTL s = OriginalTTL t \<and> Expiration s = Expiration t
     \<and> Inception s = Inception t \<and> sigKeyTag s = sigKeyTag t)"

lemma rrsigFields_inj: "rrsigFields s = rrsigFields t \<longleftrightarrow> sameFields s t"
  by (auto simp: rrsigFields_def sameFields_def)

lemma signedRecord_not_Nil [simp]: "signedRecord own sig rd \<noteq> []"
  by (simp add: signedRecord_def put16_def)

lemma signedRecord_prefix_free:
  assumes "length rd < 65536" "length rd' < 65536"
    and "signedRecord own sig rd @ r = signedRecord own sig rd' @ s"
  shows "rd = rd' \<and> r = s"
proof -
  have "put16 (word_of_nat (length rd)) @ rd @ r = put16 (word_of_nat (length rd')) @ rd' @ s"
    using assms(3) by (simp only: signedRecord_def append_assoc same_append_eq)
  then have "put16 (word_of_nat (length rd)) = put16 (word_of_nat (length rd')) \<and> rd @ r = rd' @ s"
    by (rule append_eq_append_conv [THEN iffD1, rotated]) simp
  then have w: "word_of_nat (length rd) = (word_of_nat (length rd') :: u16)"
    and e: "rd @ r = rd' @ s" by (simp_all only: put16_inj)
  have "unat (word_of_nat (length rd) :: u16) = unat (word_of_nat (length rd') :: u16)"
    by (simp only: w)
  then have "length rd = length rd'" using assms(1,2) by (simp only: unat_small)
  with e show ?thesis by simp
qed

lemma signedRecords_inj:
  assumes "list_all (\<lambda>rd. length rd < 65536) rds" "list_all (\<lambda>rd. length rd < 65536) rds'"
    and "concat (map (signedRecord own sig) rds) = concat (map (signedRecord own sig) rds')"
  shows "rds = rds'"
  using assms
proof (induction rds arbitrary: rds')
  case Nil
  then show ?case by (cases rds') auto
next
  case (Cons rd rds)
  from Cons.prems(3) obtain rd' tl where rds': "rds' = rd' # tl" by (cases rds') auto
  from Cons.prems(1,2) have len: "length rd < 65536" "length rd' < 65536" by (simp_all only: rds' list.pred_inject)
  from Cons.prems(3) have "signedRecord own sig rd @ concat (map (signedRecord own sig) rds)
      = signedRecord own sig rd' @ concat (map (signedRecord own sig) tl)"
    by (simp only: rds' list.map concat.simps)
  note eqs = signedRecord_prefix_free [OF len this]
  have "rds = tl" by (rule Cons.IH) (use Cons.prems(1,2) rds' eqs in simp_all)
  with eqs rds' show ?case by simp
qed

text \<open>What a successful \<open>signedData\<close> is made of.\<close>

lemma signedData_Inr:
  assumes "signedData rrset sig = Inr d"
  obtains signer own rds where "canonicalName (SignerName sig) = Inr signer"
    "signedOwnerName (rrName (hd rrset)) sig = Inr own" "canonicalRecords rrset = Inr rds"
    "d = rrsigFields sig @ signer @ concat (map (signedRecord own sig) (sorted_list_of_set (set rds)))"
  using assms by (auto simp: signedData_def bindR_eq_Inr canonical_order)

lemma signedOwnerName_canonical:
  assumes "signedOwnerName n sig = Inr own"
  shows "\<exists>m. canonicalName m = Inr own"
  using assms by (auto simp: signedOwnerName_def Let_def split: if_splits)

lemma signedOwnerName_canon:
  assumes "canon a = canon b" "signedOwnerName a sig = Inr own"
  shows "signedOwnerName b sig = Inr own"
proof -
  have len: "length (splitName a) = length (splitName b)" by (metis assms(1) canon_def length_map)
  show ?thesis
  proof (cases "unat (sigLabels sig) < length (splitName a)")
    case True
    define w where "w n = joinDot (star # drop (length (splitName n) - unat (sigLabels sig)) (splitName n))" for n
    have "map lowerByte (w a) = map lowerByte (w b)"
      using assms(1) len unfolding w_def canon_def
      by (simp only: joinDot_map_lower [symmetric] list.map drop_map [symmetric])
    then have "canon (map lowerByte (w a)) = canon (map lowerByte (w b))" by (simp only:)
    then have "canon (w a) = canon (w b)" by (simp only: canon_lower)
    moreover have "signedOwnerName a sig = canonicalName (w a)" "signedOwnerName b sig = canonicalName (w b)"
      using True len by (simp_all add: signedOwnerName_def w_def Let_def)
    ultimately show ?thesis using assms(2) canonicalName_canon [of "w a" "w b" own] by simp
  next
    case False
    then show ?thesis
      using assms len canonicalName_canon [OF assms(1)]
      by (auto simp: signedOwnerName_def Let_def split: if_splits)
  qed
qed

lemma signedData_canonical:
  assumes "signedData rrset sig = Inr d"
    and "canonicalRDATA ` set rrset' = canonicalRDATA ` set rrset"
    and "canon (rrName (hd rrset')) = canon (rrName (hd rrset))"
  shows "signedData rrset' sig = Inr d"
proof -
  obtain signer own rds where d: "canonicalName (SignerName sig) = Inr signer"
    "signedOwnerName (rrName (hd rrset)) sig = Inr own" "canonicalRecords rrset = Inr rds"
    "d = rrsigFields sig @ signer @ concat (map (signedRecord own sig) (sorted_list_of_set (set rds)))"
    using signedData_Inr [OF assms(1)] .
  obtain rds' where "canonicalRecords rrset' = Inr rds'" "set rds' = set rds"
    using canonicalRecords_set [OF d(3) assms(2)] by blast
  then show ?thesis
    using d signedOwnerName_canon [OF assms(3) [symmetric] d(2)]
    by (simp add: signedData_def canonical_order)
qed

lemma signedData_determines:
  assumes "signedData rrset sig = Inr d" "signedData rrset' sig' = Inr d"
    and "canonicalRecords rrset = Inr rds" "canonicalRecords rrset' = Inr rds'"
    and "rds \<noteq> []" "rds' \<noteq> []"
    and "list_all (\<lambda>rd. length rd < 65536) rds" "list_all (\<lambda>rd. length rd < 65536) rds'"
  shows "sameFields sig sig' \<and> canon (SignerName sig) = canon (SignerName sig')
    \<and> signedOwnerName (rrName (hd rrset)) sig = signedOwnerName (rrName (hd rrset')) sig'
    \<and> set rds = set rds'"
proof -
  let ?ord = "sorted_list_of_set :: byte list set \<Rightarrow> byte list list"
  obtain signer own where 1: "canonicalName (SignerName sig) = Inr signer"
    "signedOwnerName (rrName (hd rrset)) sig = Inr own"
    "d = rrsigFields sig @ signer @ concat (map (signedRecord own sig) (?ord (set rds)))"
    using signedData_Inr [OF assms(1)] assms(3) by (metis sum.inject(2))
  obtain signer' own' where 2: "canonicalName (SignerName sig') = Inr signer'"
    "signedOwnerName (rrName (hd rrset')) sig' = Inr own'"
    "d = rrsigFields sig' @ signer' @ concat (map (signedRecord own' sig') (?ord (set rds')))"
    using signedData_Inr [OF assms(2)] assms(4) by (metis sum.inject(2))
  have f: "sameFields sig sig'"
    and r: "signer @ concat (map (signedRecord own sig) (?ord (set rds)))
      = signer' @ concat (map (signedRecord own' sig') (?ord (set rds')))"
    using 1(3) 2(3) by (simp_all add: rrsigFields_inj [symmetric])
  note s = canonicalName_prefix_free [OF 1(1) 2(1) r]
  have sr: "signedRecord x sig' = signedRecord x sig" for x
    using f by (auto simp: signedRecord_def sameFields_def fun_eq_iff)
  obtain a as where a: "?ord (set rds) = a # as" using assms(5) by (cases "?ord (set rds)") auto
  obtain b bs where b: "?ord (set rds') = b # bs" using assms(6) by (cases "?ord (set rds')") auto
  have "own = own'"
  proof -
    obtain m m' where m: "canonicalName m = Inr own" "canonicalName m' = Inr own'"
      using signedOwnerName_canonical 1(2) 2(2) by blast
    have "\<exists>r s. own @ r = own' @ s" using s by (auto simp: a b signedRecord_def)
    then show ?thesis using canonicalName_prefix_free [OF m] by blast
  qed
  moreover have "?ord (set rds) = ?ord (set rds')"
  proof (rule signedRecords_inj)
    show "concat (map (signedRecord own sig) (?ord (set rds))) = concat (map (signedRecord own sig) (?ord (set rds')))"
      using s sr \<open>own = own'\<close> by simp
  qed (use assms(7,8) in \<open>simp_all add: list_all_iff\<close>)
  then have "set rds = set rds'" by (metis List.finite_set set_sorted_list_of_set)
  ultimately show ?thesis using f s 1(2) 2(2) by simp
qed

section \<open>Validity periods\<close>

lemma serialBefore_int:
  assumes "\<bar>x - y\<bar> < 2 ^ 31"
  shows "serialBefore (word_of_int x) (word_of_int y) \<longleftrightarrow> x < y"
proof -
  have less: "(word_of_int y - word_of_int x :: u32) < 0x80000000 \<longleftrightarrow> (y - x) mod 2 ^ 32 < 2 ^ 31"
  proof -
    have "(word_of_int y - word_of_int x :: u32) = word_of_int (y - x)" by (simp only: wi_hom_sub)
    then have "uint (word_of_int y - word_of_int x :: u32) = (y - x) mod 2 ^ 32"
      by (simp only: uint_word_of_int) simp
    then show ?thesis by (simp add: word_less_def)
  qed
  consider "x < y" | "x = y" | "y < x" by linarith
  then show ?thesis
  proof cases
    case 1
    then have "(y - x) mod 2 ^ 32 = y - x" using assms by (intro mod_pos_pos_trivial) auto
    moreover have "(word_of_int x :: u32) \<noteq> word_of_int y"
    proof
      assume "(word_of_int x :: u32) = word_of_int y"
      then have "uint (word_of_int x :: u32) = uint (word_of_int y :: u32)" by (simp only:)
      then have "x mod 2 ^ 32 = y mod 2 ^ 32" by (simp add: uint_word_of_int)
      then have "(y - x) mod 2 ^ 32 = 0" by (metis diff_self mod_0 mod_diff_cong)
      then show False using 1 calculation by simp
    qed
    ultimately show ?thesis using 1 assms less by (simp add: serialBefore_def)
  next
    case 2
    then show ?thesis by (simp add: serialBefore_def)
  next
    case 3
    have "(y - x) mod 2 ^ 32 = (y - x + 2 ^ 32) mod 2 ^ 32" by simp
    also have "\<dots> = y - x + 2 ^ 32" using 3 assms by (intro mod_pos_pos_trivial) auto
    finally show ?thesis using 3 assms less by (simp add: serialBefore_def)
  qed
qed

section \<open>Acceptance\<close>

lemma VerifyRRSet_Inr:
  "VerifyRRSet u cr rrset sig key now = Inr () \<longleftrightarrow>
     rrset \<noteq> [] \<and>
     (\<forall>rr\<in>set rrset. rrType rr = TypeCovered sig \<and> equalName u (rrName rr) (rrName (hd rrset))) \<and>
     sigAlgorithm sig = keyAlgorithm key \<and> sigKeyTag sig = KeyTag key \<and> IsZoneKey key \<and>
     isSubdomainOrEqual u (rrName (hd rrset)) (SignerName sig) \<and>
     checkValidityPeriod sig now = Inr () \<and>
     (\<exists>d. signedData rrset sig = Inr d \<and>
        verifySignature cr (sigAlgorithm sig) (PublicKey key) d (Signature sig) = Inr ())"
  by (auto simp: VerifyRRSet_def Let_def bindR_eq_Inr list_ex_iff)

lemma keyRDATA_eq: "keyRDATA k = rdata k"
  by (simp add: keyRDATA_def rdata_def put16_def)

lemma VerifyDS_Inr:
  assumes "VerifyDS cr owner key ds = Inr ()"
  obtains name where "canonicalName owner = Inr name"
    "(if DigestType ds = digestSHA256 then sha256Sum cr else sha384Sum cr) (name @ rdata key) = Digest ds"
    "DigestType ds = digestSHA256 \<or> DigestType ds = digestSHA384" "dsKeyTag ds = KeyTag key"
  using assms
  by (auto simp: VerifyDS_def bindR_eq_Inr Let_def keyRDATA_eq split: if_splits)

lemma rdata_inj: "rdata k = rdata k' \<Longrightarrow> k = k'"
  by (metis parse_rdata sum.inject(2))

lemma rrsigFields_parse:
  assumes "\<forall>l\<in>set ls. okLabel l"
  shows "parseRRSIG (rrsigFields sig @ encLabels ls @ 0 # sigBytes) =
    Inr (sig\<lparr>SignerName := (if ls = [] then [dot] else joinDot ls), Signature := sigBytes\<rparr>)"
proof -
  define raw where "raw = rrsigFields sig @ encLabels ls @ 0 # sigBytes"
  have d: "drop 18 raw = encLabels ls @ 0 # sigBytes" by (simp add: raw_def)
  have f: "uint16At raw 0 = TypeCovered sig" "raw ! 2 = sigAlgorithm sig" "raw ! 3 = sigLabels sig"
    "uint32At raw 4 = OriginalTTL sig" "uint32At raw 8 = Expiration sig"
    "uint32At raw 12 = Inception sig" "uint16At raw 16 = sigKeyTag sig"
    by (simp_all add: raw_def rrsigFields_def uint16At_def uint32At_def put16_def put32_def)
  have "length raw \<ge> 18" by (simp add: raw_def)
  moreover have "drop (18 + (length (encLabels ls) + 1)) raw = sigBytes"
    by (simp add: raw_def)
  ultimately show ?thesis
    using readUncompressedName_written [OF assms, of sigBytes] f d
    unfolding raw_def [symmetric] by (simp add: parseRRSIG_def)
qed

section \<open>Properties\<close>

text \<open>A concrete instance for the examples: hashes that keep their argument, checks that pass.\<close>

definition plainCrypto :: crypto where
  "plainCrypto = \<lparr>sha1Sum = (\<lambda>d. d), sha256Sum = (\<lambda>d. d), sha384Sum = (\<lambda>d. d), sha512Sum = (\<lambda>d. d),
     rsaVerifyPKCS1v15 = (\<lambda>n e h d s. True), isOnCurve = (\<lambda>c x y. True),
     ecdsaVerify = (\<lambda>c x y d r s. True), ed25519Verify = (\<lambda>k d s. True)\<rparr>"

definition sampleKey :: DNSKEY where
  "sampleKey = \<lparr>keyFlags = 257, keyProtocol = 3, keyAlgorithm = 15, PublicKey = replicate 32 0\<rparr>"

definition sampleSig :: RRSIG where
  "sampleSig = \<lparr>TypeCovered = 1, sigAlgorithm = 15, sigLabels = 3, OriginalTTL = 300,
     Expiration = 2000, Inception = 1000, sigKeyTag = 1040, SignerName = lit ''example.com'',
     Signature = []\<rparr>"

definition sampleA :: "byte \<Rightarrow> RR" where
  "sampleA b = zeroRR\<lparr>rrName := lit ''www.example.com'', rrType := 1, rrClass := 1, TTL := 77,
     rrA := Some [192, 0, 2, b]\<rparr>"

text \<open>
  (C18) The signed bytes determine what was signed.  If two RRsets with their signatures give the
  same bytes, then every field of the signatures up to the signature itself, the signer, the
  owner name as signed and the set of record data agree: no two different claims share a
  signature, whatever the lengths of names and records are, as long as each record's data
  fits the sixteen-bit length that is hashed with it.
\<close>

theorem signedData_injective:
  assumes "signedData rrset sig = Inr d" "signedData rrset' sig' = Inr d"
    and "canonicalRecords rrset = Inr rds" "canonicalRecords rrset' = Inr rds'"
    and "rds \<noteq> []" "rds' \<noteq> []"
    and "list_all (\<lambda>rd. length rd < 65536) rds" "list_all (\<lambda>rd. length rd < 65536) rds'"
  shows "sameFields sig sig' \<and> canon (SignerName sig) = canon (SignerName sig')
    \<and> signedOwnerName (rrName (hd rrset)) sig = signedOwnerName (rrName (hd rrset')) sig'
    \<and> set rds = set rds'"
  using assms by (rule signedData_determines)

theorem signedData_injective_witness:
  "sameFields sampleSig (sampleSig\<lparr>SignerName := lit ''EXAMPLE.com.''\<rparr>) \<and>
   set [[192, 0, 2, 1 :: byte], [192, 0, 2, 2]] = set [[192, 0, 2, 2], [192, 0, 2, 1], [192, 0, 2, 2]]"
proof -
  let ?d = "projr (signedData [sampleA 1, sampleA 2] sampleSig)"
  have "signedData [sampleA 1, sampleA 2] sampleSig = Inr ?d"
    "signedData [sampleA 2, sampleA 1, sampleA 2] (sampleSig\<lparr>SignerName := lit ''EXAMPLE.com.''\<rparr>) = Inr ?d"
    "canonicalRecords [sampleA 1, sampleA 2] = Inr [[192, 0, 2, 1], [192, 0, 2, 2]]"
    "canonicalRecords [sampleA 2, sampleA 1, sampleA 2] = Inr [[192, 0, 2, 2], [192, 0, 2, 1], [192, 0, 2, 2]]"
    by code_simp+
  from signedData_injective [OF this] show ?thesis by simp
qed

text \<open>
  (C19) Acceptance does not depend on how the records arrived: reordering them, repeating them,
  changing their TTLs or the case of their owner names leaves an accepted RRset accepted.
\<close>

theorem VerifyRRSet_order_independent:
  assumes "VerifyRRSet u cr rrset sig key now = Inr ()"
    and "canonicalRDATA ` set rrset' = canonicalRDATA ` set rrset"
    and "list_all (\<lambda>rr. rrType rr = TypeCovered sig \<and> isASCII (rrName rr)
           \<and> canon (rrName rr) = canon (rrName (hd rrset))) rrset'"
    and "isASCII (rrName (hd rrset))" "isASCII (SignerName sig)"
  shows "VerifyRRSet u cr rrset' sig key now = Inr ()"
proof -
  note v = assms(1) [unfolded VerifyRRSet_Inr]
  have ne: "rrset' \<noteq> []" using assms(2) v by auto
  then have h: "isASCII (rrName (hd rrset'))" "canon (rrName (hd rrset')) = canon (rrName (hd rrset))"
    using assms(3) by (simp_all add: list_all_iff)
  obtain d where d: "signedData rrset sig = Inr d"
    "verifySignature cr (sigAlgorithm sig) (PublicKey key) d (Signature sig) = Inr ()" using v by blast
  have "signedData rrset' sig = Inr d" by (rule signedData_canonical [OF d(1) assms(2) h(2)])
  moreover have "isSubdomainOrEqual u (rrName (hd rrset')) (SignerName sig)"
    using v h assms(4,5) by (simp add: isSubdomainOrEqual_iff)
  moreover have "\<forall>rr\<in>set rrset'. rrType rr = TypeCovered sig \<and> equalName u (rrName rr) (rrName (hd rrset'))"
    using assms(3) h by (auto simp: list_all_iff equalName_iff)
  ultimately show ?thesis unfolding VerifyRRSet_Inr using v d ne by blast
qed

theorem VerifyRRSet_order_independent_witness:
  "VerifyRRSet plainUnicode plainCrypto
     [sampleA 2, (sampleA 1)\<lparr>rrName := lit ''WWW.example.COM.'', TTL := 5\<rparr>, sampleA 2] sampleSig sampleKey 1500 = Inr ()"
proof (rule VerifyRRSet_order_independent)
  show "VerifyRRSet plainUnicode plainCrypto [sampleA 1, sampleA 2] sampleSig sampleKey 1500 = Inr ()"
    by code_simp
  show "canonicalRDATA ` set [sampleA 2, (sampleA 1)\<lparr>rrName := lit ''WWW.example.COM.'', TTL := 5\<rparr>, sampleA 2]
      = canonicalRDATA ` set [sampleA 1, sampleA 2]"
    by (auto simp: sampleA_def canonicalRDATA_def zeroRR_def)
qed code_simp+

text \<open>
  (C20) What acceptance means: the RRset is one name and one type, the signer is the owner or an
  ancestor of it, the key is a zone key of the signature's algorithm and tag, the clock is
  inside the validity period, and the cryptographic check passed on the signed bytes.  A
  signer outside the owner's ancestry is refused whatever the signature says.
\<close>

theorem VerifyRRSet_sound:
  assumes "VerifyRRSet u cr rrset sig key now = Inr ()"
    and "list_all (\<lambda>rr. isASCII (rrName rr)) rrset" "isASCII (SignerName sig)"
    and "\<bar>now - uint (Inception sig)\<bar> < 2 ^ 31" "\<bar>uint (Expiration sig) - now\<bar> < 2 ^ 31"
  shows "(\<exists>owner. (\<forall>rr\<in>set rrset. canon (rrName rr) = owner \<and> rrType rr = TypeCovered sig)
           \<and> suffix (canon (SignerName sig)) owner)
    \<and> uint (Inception sig) \<le> now \<and> now \<le> uint (Expiration sig)
    \<and> KeyTag key = sigKeyTag sig \<and> IsZoneKey key
    \<and> (\<exists>d. signedData rrset sig = Inr d \<and>
         verifySignature cr (keyAlgorithm key) (PublicKey key) d (Signature sig) = Inr ())"
proof -
  note v = assms(1) [unfolded VerifyRRSet_Inr]
  have hd: "isASCII (rrName (hd rrset))" using v assms(2) by (simp add: list_all_iff)
  have "serialBefore (word_of_int now) (Inception sig) \<longleftrightarrow> now < uint (Inception sig)"
    using serialBefore_int [of now "uint (Inception sig)"] assms(4) by simp
  moreover have "serialBefore (Expiration sig) (word_of_int now) \<longleftrightarrow> uint (Expiration sig) < now"
    using serialBefore_int [of "uint (Expiration sig)" now] assms(5) by simp
  moreover have "checkValidityPeriod sig now = Inr ()" using v by blast
  ultimately have t: "uint (Inception sig) \<le> now" "now \<le> uint (Expiration sig)"
    by (simp_all add: checkValidityPeriod_def Let_def split: if_splits)
  have "\<forall>rr\<in>set rrset. canon (rrName rr) = canon (rrName (hd rrset)) \<and> rrType rr = TypeCovered sig"
    using v assms(2) equalName_iff [OF _ hd] unfolding list_all_iff by blast
  moreover have "suffix (canon (SignerName sig)) (canon (rrName (hd rrset)))"
    using v hd assms(3) by (simp add: isSubdomainOrEqual_iff)
  moreover have "KeyTag key = sigKeyTag sig" "IsZoneKey key" "sigAlgorithm sig = keyAlgorithm key"
    using v by simp_all
  ultimately show ?thesis using v t by metis
qed

theorem VerifyRRSet_sound_witness:
  "KeyTag sampleKey = sigKeyTag sampleSig \<and> IsZoneKey sampleKey \<and> uint (Inception sampleSig) \<le> 1500"
proof -
  have "VerifyRRSet plainUnicode plainCrypto [sampleA 1, sampleA 2] sampleSig sampleKey 1500 = Inr ()"
    "list_all (\<lambda>rr. isASCII (rrName rr)) [sampleA 1, sampleA 2]" "isASCII (SignerName sampleSig)"
    by code_simp+
  from VerifyRRSet_sound [OF this] show ?thesis by (simp add: sampleSig_def)
qed

text \<open>
  (C21) Validity periods survive the wrap of the 32-bit clock.  When the inception and the
  expiration are the low 32 bits of real instants less than \<open>2 ^ 31\<close> seconds from now, a
  signature is in its period exactly when the real instants say so.
\<close>

theorem checkValidityPeriod_real_time:
  assumes "Inception sig = word_of_int inc" "Expiration sig = word_of_int exp"
    and "\<bar>now - inc\<bar> < 2 ^ 31" "\<bar>exp - now\<bar> < 2 ^ 31"
  shows "checkValidityPeriod sig now = (if now < inc then Inl ErrNotYetValid
    else if exp < now then Inl ErrExpired else Inr ())"
  using assms serialBefore_int [of now inc] serialBefore_int [of exp now]
  by (simp add: checkValidityPeriod_def)

theorem checkValidityPeriod_real_time_witness:
  "checkValidityPeriod (sampleSig\<lparr>Inception := word_of_int (2 ^ 32 - 100), Expiration := word_of_int (2 ^ 32 + 100)\<rparr>)
     (2 ^ 32 + 50) = Inr ()"
  using checkValidityPeriod_real_time [of
      "sampleSig\<lparr>Inception := word_of_int (2 ^ 32 - 100), Expiration := word_of_int (2 ^ 32 + 100)\<rparr>"
      "2 ^ 32 - 100" "2 ^ 32 + 100" "2 ^ 32 + 50"]
  by simp



text \<open>
  The signed bytes begin with the RRSIG's RDATA up to the signature, exactly as it was
  received, whenever the received signer name is in lower case (RFC 4034, section 3.1.8.1):
  parsing those bytes and writing them back is the identity.
\<close>

theorem signedData_starts_with_rdata:
  assumes "\<forall>l\<in>set ls. okLabel l \<and> map lowerByte l = l"
    and "raw = rrsigFields sig0 @ encLabels ls @ 0 # sigBytes"
    and "parseRRSIG raw = Inr sig" "signedData rrset sig = Inr d"
  shows "\<exists>rest. d = take (length raw - length (Signature sig)) raw @ rest"
proof -
  have ok: "\<forall>l\<in>set ls. okLabel l" using assms(1) by blast
  have sig: "sig = sig0\<lparr>SignerName := (if ls = [] then [dot] else joinDot ls), Signature := sigBytes\<rparr>"
    using rrsigFields_parse [OF ok, of sig0 sigBytes] assms(2,3) by simp
  obtain signer rest where d: "canonicalName (SignerName sig) = Inr signer" "d = rrsigFields sig @ signer @ rest"
    using signedData_Inr [OF assms(4)] by metis
  have "splitName (SignerName sig) = ls"
    using sig ok splitName_joinDot [OF ok] by (auto simp: trimDot_def splitName_root)
  then have "canon (SignerName sig) = ls" using assms(1) by (simp add: canon_def map_idI)
  then have "signer = encLabels ls @ [0]" using d(1) by (simp add: canonicalName_eq)
  moreover have "rrsigFields sig = rrsigFields sig0" by (simp add: sig rrsigFields_def)
  ultimately show ?thesis using d(2) assms(2) by (simp add: sig)
qed

theorem signedData_starts_with_rdata_witness:
  "\<exists>d rest. signedData [sampleA 1] (sampleSig\<lparr>Signature := [9, 9]\<rparr>) = Inr d \<and>
     d = rrsigFields sampleSig @ encLabels [lit ''example'', lit ''com''] @ [0] @ rest"
proof -
  let ?ls = "[lit ''example'', lit ''com'']"
  let ?raw = "rrsigFields sampleSig @ encLabels ?ls @ 0 # [9, 9]"
  have 1: "\<forall>l\<in>set ?ls. okLabel l \<and> map lowerByte l = l" by (simp add: name_eval lowerByte_def)
  have 2: "parseRRSIG ?raw = Inr (sampleSig\<lparr>Signature := [9, 9]\<rparr>)"
    "signedData [sampleA 1] (sampleSig\<lparr>Signature := [9, 9]\<rparr>)
       = Inr (projr (signedData [sampleA 1] (sampleSig\<lparr>Signature := [9, 9]\<rparr>)))" by code_simp+
  from signedData_starts_with_rdata [OF 1 refl 2] 2(2) show ?thesis
    by (auto simp: lit_def)
qed

end
