(* ===== verification/Denial_Facts.thy ===== *)
theory Denial_Facts
  imports Dnssec_Denial Verify_Facts
begin

text \<open>
  What the NSEC proofs prove.  A zone is described at the level of names: the set \<open>Z\<close> of its
  owner names, as lists of lowercased labels, and the types \<open>T\<close> each of them has.  An NSEC
  record is truthful for the zone when both its ends are owner names, no owner name lies in
  its gap, and its bitmap lists the types of its owner.  The theorems say that proofs accepted
  from truthful records are right about the zone.
\<close>

section \<open>Zones and truthful records\<close>

definition goodName :: "gostr \<Rightarrow> bool" where
  "goodName n = (isASCII n \<and> [] \<notin> set (splitName n))"

type_synonym name_types = "gostr list \<Rightarrow> u16 \<Rightarrow> bool"

definition truthful :: "gostr list set \<Rightarrow> name_types \<Rightarrow> nsecRecord \<Rightarrow> bool" where
  "truthful Z T n =
     (goodName (nowner n) \<and> goodName (NextDomain (nrr n)) \<and>
      canon (nowner n) \<in> Z \<and> canon (NextDomain (nrr n)) \<in> Z \<and>
      (\<forall>z\<in>Z. \<not> inGap (lexCmp compareBytes) (ckey (nowner n)) (ckey (NextDomain (nrr n))) (rev z)) \<and>
      (\<forall>t. NSEC_TypeInBitmap (nrr n) t = T (canon (nowner n)) t))"

text \<open>A name exists in the tree when it or something below it is an owner name.\<close>

definition existsIn :: "gostr list set \<Rightarrow> gostr list \<Rightarrow> bool" where
  "existsIn Z n = (\<exists>z\<in>Z. suffix n z)"

text \<open>\<open>ce\<close> is the deepest ancestor of \<open>n\<close> (or \<open>n\<close> itself) that exists.\<close>

definition isCloseEncloser :: "gostr list set \<Rightarrow> gostr list \<Rightarrow> gostr list \<Rightarrow> bool" where
  "isCloseEncloser Z n ce =
     (suffix ce n \<and> existsIn Z ce \<and> (\<forall>a. suffix a n \<longrightarrow> existsIn Z a \<longrightarrow> suffix a ce))"

section \<open>Labels of good names\<close>

lemma goodName_ascii [simp]: "goodName n \<Longrightarrow> isASCII n"
  by (simp add: goodName_def)

lemma canon_good: "goodName n \<Longrightarrow> l \<in> set (canon n) \<Longrightarrow> l \<noteq> [] \<and> dot \<notin> set l \<and> map lowerByte l = l"
  using canon_no_dot [of l n] by (auto simp: goodName_def canon_def)

lemma last_drop_canon:
  assumes "goodName n" "drop k (canon n) \<noteq> []"
  shows "last (drop k (canon n)) \<noteq> [] \<and> last (last (drop k (canon n))) \<noteq> dot"
proof -
  have "last (drop k (canon n)) \<in> set (canon n)" using assms(2) by (metis in_set_dropD last_in_set)
  then show ?thesis using canon_good [OF assms(1)] by (metis last_in_set)
qed

lemma canon_drop:
  assumes "goodName n"
  shows "canon (joinDot (drop k (canon n))) = drop k (canon n)"
proof (cases "drop k (canon n) = []")
  case False
  have in_canon: "l \<in> set (drop k (canon n)) \<Longrightarrow> l \<in> set (canon n)" for l
    by (rule in_set_dropD)
  have "canon (joinDot (drop k (canon n))) = map (map lowerByte) (drop k (canon n))"
    using canon_good [OF assms] in_canon last_drop_canon [OF assms False]
    by (intro canon_joinDot [OF False]) auto
  then show ?thesis using canon_good [OF assms] in_canon by (simp add: map_idI)
qed (simp add: canon_def)

lemma canon_wildcardOf:
  assumes "n = [] \<or> (n \<noteq> [] \<and> last n \<noteq> dot)"
  shows "canon (wildcardOf n) = star # canon n"
proof (cases "n = []")
  case True
  then show ?thesis
    by (simp add: wildcardOf_def canon_def star_def splitName_def trimDot_def dot_def lowerByte_def)
next
  case False
  with assms have "trimDot (wildcardOf n) = star @ dot # n" "trimDot n = n"
    by (simp_all add: wildcardOf_def trimDot_def)
  then show ?thesis
    using False splitDot_nodot_append [of star n]
    by (simp add: canon_def splitName_def star_def dot_def lowerByte_def)
qed

lemma joinDot_drop_last:
  assumes "goodName n"
  shows "joinDot (drop k (canon n)) = [] \<or> last (joinDot (drop k (canon n))) \<noteq> dot"
proof (cases "drop k (canon n) = []")
  case False
  then show ?thesis using last_drop_canon [OF assms False] last_joinDot [OF False] by simp
qed simp

section \<open>Common suffixes\<close>

abbreviation shared :: "gostr \<Rightarrow> gostr \<Rightarrow> nat" where
  "shared a b \<equiv> sharedTop (ckey a) (ckey b)"

lemma commonSuffix_eq:
  assumes "isASCII a" "isASCII b"
  shows "commonSuffix u a b = joinDot (drop (length (canon a) - shared a b) (canon a))"
  using assms
  by (simp add: commonSuffix_def ToLower_ascii splitName_map_lower canon_def [symmetric] Let_def)

lemma canon_commonSuffix:
  assumes "goodName a" "isASCII b"
  shows "canon (commonSuffix u a b) = drop (length (canon a) - shared a b) (canon a)"
  using assms by (simp add: commonSuffix_eq canon_drop)

lemma length_commonSuffix:
  assumes "goodName a" "isASCII b"
  shows "length (splitName (commonSuffix u a b)) = shared a b"
proof -
  have "length (splitName n) = length (canon n)" for n by (simp add: canon_def)
  then show ?thesis
    using canon_commonSuffix [OF assms] sharedTop_le(1) [of "ckey a" "ckey b"] by simp
qed

text \<open>The label list of the closest encloser of a covering record.\<close>

definition ceLabels :: "nsecRecord \<Rightarrow> gostr \<Rightarrow> gostr list" where
  "ceLabels n q = drop (length (canon q) - max (shared q (nowner n)) (shared q (NextDomain (nrr n)))) (canon q)"

lemma closestEncloser_join:
  assumes "goodName q" "goodName (nowner n)" "goodName (NextDomain (nrr n))"
  shows "closestEncloser u n q = joinDot (ceLabels n q)"
  using assms
  unfolding closestEncloser_def Let_def length_commonSuffix [OF assms(1) goodName_ascii [OF assms(2)]]
    length_commonSuffix [OF assms(1) goodName_ascii [OF assms(3)]]
  by (simp add: commonSuffix_eq ceLabels_def max_def)

lemma wildcard_canon:
  assumes "goodName q" "goodName (nowner n)" "goodName (NextDomain (nrr n))"
  shows "canon (wildcardOf (closestEncloser u n q)) = star # ceLabels n q"
proof -
  have "canon (joinDot (ceLabels n q)) = ceLabels n q"
    using assms(1) by (simp add: ceLabels_def canon_drop)
  moreover have "joinDot (ceLabels n q) = [] \<or> last (joinDot (ceLabels n q)) \<noteq> dot"
    using joinDot_drop_last [OF assms(1)] by (simp add: ceLabels_def)
  ultimately show ?thesis
    by (metis canon_wildcardOf closestEncloser_join [OF assms])
qed

lemma wildcard_ascii:
  assumes "goodName q" "goodName (nowner n)" "goodName (NextDomain (nrr n))"
  shows "isASCII (wildcardOf (closestEncloser u n q))"
proof -
  have "isASCII l" if "l \<in> set (canon q)" for l
    using that isASCII_splitName [OF goodName_ascii [OF assms(1)]] by (auto simp: canon_def)
  then have "\<forall>l\<in>set (ceLabels n q). isASCII l"
    unfolding ceLabels_def by (blast dest: in_set_dropD)
  then have "isASCII (closestEncloser u n q)"
    by (simp add: closestEncloser_join [OF assms] isASCII_joinDot)
  then show ?thesis by (simp add: wildcardOf_def star_def)
qed

section \<open>Gaps\<close>

lemma covers_iff:
  assumes "truthful Z T n" "isASCII q"
  shows "covers u n q \<longleftrightarrow>
    inGap (lexCmp compareBytes) (ckey (nowner n)) (ckey (NextDomain (nrr n))) (ckey q)"
  using assms by (simp add: covers_def truthful_def inGap_def CompareNames_canon)

lemma covers_not_owner:
  assumes "truthful Z T n" "isASCII q" "covers u n q"
  shows "canon q \<notin> Z"
  using assms covers_iff [OF assms(1,2)] by (auto simp: truthful_def)

lemma covered_between:
  assumes "truthful Z T n" "isASCII q" "covers u n q" "z \<in> Z"
  shows "(lexCmp compareBytes (rev z) (ckey (nowner n)) \<le> 0 \<and>
          lexCmp compareBytes (ckey (nowner n)) (ckey q) \<le> 0)
       \<or> (lexCmp compareBytes (ckey q) (ckey (NextDomain (nrr n))) \<le> 0 \<and>
          lexCmp compareBytes (ckey (NextDomain (nrr n))) (rev z) \<le> 0)"
proof -
  let ?o = "ckey (nowner n)" and ?x = "ckey (NextDomain (nrr n))"
  have q: "inGap (lexCmp compareBytes) ?o ?x (ckey q)" using assms covers_iff by blast
  have z: "\<not> inGap (lexCmp compareBytes) ?o ?x (rev z)" using assms by (simp add: truthful_def)
  note swap = labels_order.cmp_swap [of ?o "ckey q"] labels_order.cmp_swap [of ?x "rev z"]
  show ?thesis
  proof (cases "lexCmp compareBytes ?o ?x \<ge> 0")
    case True
    then show ?thesis using q z swap by (auto simp: inGap_def Let_def)
  next
    case False
    then show ?thesis using q z swap by (auto simp: inGap_def Let_def)
  qed
qed

text \<open>Sharing top labels, read as a common prefix of the reversed label lists.\<close>

lemma shared_ge: "ckey a = p @ xs \<Longrightarrow> ckey b = p @ ys \<Longrightarrow> length p \<le> shared a b"
  by (rule sharedTop_max) simp_all

lemma ceLabels_suffix: "suffix (ceLabels n q) (canon q)"
  by (simp add: ceLabels_def suffix_drop)

lemma suffix_rev: "suffix a n \<Longrightarrow> \<exists>xs. rev n = rev a @ xs"
  by (auto simp: suffix_def)

lemma ceLabels_top:
  assumes "suffix a (canon q)"
    and "length a \<le> shared q (nowner n) \<or> length a \<le> shared q (NextDomain (nrr n))"
  shows "suffix a (ceLabels n q)"
proof -
  let ?k = "max (shared q (nowner n)) (shared q (NextDomain (nrr n)))"
  have k: "?k \<le> length (canon q)"
    using sharedTop_le(1) [of "ckey q" "ckey (nowner n)"] sharedTop_le(1) [of "ckey q" "ckey (NextDomain (nrr n))"]
    by simp
  then have "length a \<le> length (ceLabels n q)" using assms(2) by (auto simp: ceLabels_def)
  with assms(1) ceLabels_suffix show ?thesis by (rule suffix_length_suffix)
qed

lemma ceLabels_exists:
  assumes "truthful Z T n"
  shows "existsIn Z (ceLabels n q)"
proof -
  have top: "\<exists>z\<in>{canon a}. suffix (drop (length (canon q) - shared q a) (canon q)) z" for a
  proof -
    have "take (shared q a) (ckey q) = take (shared q a) (ckey a)" by (rule sharedTop_take)
    then have "rev (take (shared q a) (ckey q)) = rev (take (shared q a) (ckey a))" by simp
    then show ?thesis by (simp add: rev_take suffix_drop)
  qed
  then show ?thesis
    using assms unfolding ceLabels_def existsIn_def truthful_def max_def by (auto split: if_splits)
qed

lemma closestEncloser_correct:
  assumes "truthful Z T n" "goodName q" "covers u n q"
  shows "isCloseEncloser Z (canon q) (ceLabels n q)"
  unfolding isCloseEncloser_def
proof (intro conjI allI impI)
  fix a assume a: "suffix a (canon q)" "existsIn Z a"
  then obtain z where z: "z \<in> Z" "suffix a z" by (auto simp: existsIn_def)
  let ?o = "ckey (nowner n)" and ?x = "ckey (NextDomain (nrr n))"
  obtain xs where q: "ckey q = rev a @ xs" using suffix_rev [OF a(1)] by blast
  obtain ys where zs: "rev z = rev a @ ys" using suffix_rev [OF z(2)] by blast
  have "(\<exists>zs. ?o = rev a @ zs) \<or> (\<exists>zs. ?x = rev a @ zs)"
    using covered_between [OF assms(1) _ assms(3) z(1)] assms(2)
      label_order.lexCmp_between [of "rev a" ys ?o xs] label_order.lexCmp_between [of "rev a" xs ?x ys]
    by (auto simp: q zs)
  then have "length a \<le> shared q (nowner n) \<or> length a \<le> shared q (NextDomain (nrr n))"
    using shared_ge [OF q] by fastforce
  then show "suffix a (ceLabels n q)" by (rule ceLabels_top [OF a(1)])
qed (simp_all add: ceLabels_suffix ceLabels_exists [OF assms(1)])

text \<open>
  A record of the child's own chain: both ends inside the child, SOA at the apex, and only the
  last record, whose next name is the apex, wraps around.
\<close>

definition childRecord :: "gostr \<Rightarrow> nsecRecord \<Rightarrow> bool" where
  "childRecord zone n =
     (goodName (nowner n) \<and> goodName (NextDomain (nrr n)) \<and>
      suffix (canon zone) (canon (nowner n)) \<and> suffix (canon zone) (canon (NextDomain (nrr n))) \<and>
      (canon (nowner n) = canon zone \<longrightarrow> NSEC_TypeInBitmap (nrr n) TypeSOA) \<and>
      (lexCmp compareBytes (ckey (nowner n)) (ckey (NextDomain (nrr n))) < 0
         \<or> canon (NextDomain (nrr n)) = canon zone))"

lemma descendant_not_before:
  assumes "suffix (canon zone) (canon m)"
  shows "lexCmp compareBytes (ckey zone) (ckey m) \<le> 0"
proof -
  obtain xs where m: "ckey m = ckey zone @ xs" using suffix_rev [OF assms] by blast
  show ?thesis
    using lexCmp_prefix [of compareBytes "ckey zone"] by (cases xs) (simp_all add: m)
qed

lemma childRecord_not_covers:
  assumes "childRecord zone n" "goodName zone"
  shows "\<not> covers u n zone"
proof -
  let ?o = "ckey (nowner n)" and ?x = "ckey (NextDomain (nrr n))"
  have "lexCmp compareBytes (ckey zone) ?o \<le> 0"
    using assms(1) by (simp add: childRecord_def descendant_not_before)
  moreover have "lexCmp compareBytes ?o ?x < 0 \<or> lexCmp compareBytes (ckey zone) ?x = 0"
    using assms(1) by (auto simp: childRecord_def)
  ultimately show ?thesis
    using assms by (auto simp: covers_def childRecord_def inGap_def CompareNames_canon)
qed

section \<open>From sections to records\<close>

lemma collectDenial_nsec:
  "nsecOf records \<noteq> [] \<Longrightarrow>
     collectDenial u records = Inr \<lparr>dnsec = nsecOf records, dnsec3 = [], dzone = []\<rparr>"
  by (simp add: collectDenial_def)

lemma findCovering_Some:
  "findCovering u nsecs q = Some n \<Longrightarrow> n \<in> set nsecs \<and> covers u n q"
  unfolding findCovering_def by (auto simp: find_Some_iff)

lemma nsecAt_Some:
  "nsecAt u nsecs q = Some n \<Longrightarrow> n \<in> set nsecs \<and> equalName u (nowner n) q"
  unfolding nsecAt_def by (auto simp: find_Some_iff)

text \<open>A covered name that exists in the tree is an ancestor of one of the record's ends.\<close>

lemma covered_branch:
  assumes "truthful Z T n" "goodName q" "covers u n q" "existsIn Z (canon q)"
  shows "suffix (canon q) (canon (nowner n)) \<or> suffix (canon q) (canon (NextDomain (nrr n)))"
proof -
  have "suffix (canon q) (ceLabels n q)"
    using closestEncloser_correct [OF assms(1-3)] assms(4) by (simp add: isCloseEncloser_def)
  then have l: "length (canon q) \<le> max (shared q (nowner n)) (shared q (NextDomain (nrr n)))"
    using suffix_length_le [OF \<open>suffix (canon q) (ceLabels n q)\<close>] unfolding ceLabels_def length_drop
    by linarith
  have "suffix (canon q) (canon a)" if "length (canon q) \<le> shared q a" for a
  proof -
    have "take (length (canon q)) (ckey q) = take (length (canon q)) (ckey a)"
      using arg_cong [OF sharedTop_take [of "ckey q" "ckey a"], of "take (length (canon q))"] that
      by (simp add: take_take min_def)
    then have "rev (ckey q) = rev (take (length (canon q)) (ckey a))" by simp
    then have "canon q = drop (length (canon a) - length (canon q)) (canon a)" by (simp only: rev_take) simp
    then show ?thesis using suffix_drop by metis
  qed
  with l show ?thesis by (auto simp: max_def split: if_splits)
qed

section \<open>Properties\<close>

text \<open>
  (C23) Name errors.  If the NSEC records of a response are truthful for a zone and
  \<open>ProveNameError\<close> accepts them, then the name is not an owner name of the zone; the name it
  computes as the closest encloser really is the deepest ancestor that exists; and the
  wildcard at that ancestor, the only one that could have answered, is not an owner name
  either.
\<close>

theorem ProveNameError_sound:
  assumes "nsecOf records \<noteq> []" "list_all (truthful Z T) (nsecOf records)" "goodName qname"
    and "ProveNameError u cr records qname = Inr ()"
  shows "canon qname \<notin> Z \<and> (\<exists>ce. isCloseEncloser Z (canon qname) ce \<and> star # ce \<notin> Z)"
proof -
  obtain n w where n: "findCovering u (nsecOf records) qname = Some n"
    and w: "findCovering u (nsecOf records) (wildcardOf (closestEncloser u n qname)) = Some w"
    using assms(4) by (auto simp: ProveNameError_def collectDenial_nsec [OF assms(1)] split: option.splits if_splits)
  have tn: "truthful Z T n" "covers u n qname" and tw: "truthful Z T w"
    "covers u w (wildcardOf (closestEncloser u n qname))"
    using findCovering_Some [OF n] findCovering_Some [OF w] assms(2) by (auto simp: list_all_iff)
  have g: "goodName (nowner n)" "goodName (NextDomain (nrr n))" using tn by (simp_all add: truthful_def)
  have "canon (wildcardOf (closestEncloser u n qname)) \<notin> Z"
    by (rule covers_not_owner [OF tw(1) wildcard_ascii [OF assms(3) g] tw(2)])
  then show ?thesis
    using closestEncloser_correct [OF tn(1) assms(3) tn(2)] covers_not_owner [OF tn(1) _ tn(2)] assms(3)
    by (auto simp: wildcard_canon [OF assms(3) g])
qed

text \<open>
  (C24) Unsigned delegations.  The NSEC records may come from the parent, truthful for it, or from
  the child, whose records lie inside the child and mark the apex with SOA.  If \<open>ProveNoDS\<close>
  accepts them, the parent has no DS record for the delegated zone: a child cannot vouch for
  its own lack of one.
\<close>

theorem ProveNoDS_sound:
  assumes "nsecOf records \<noteq> []" "goodName zone" "\<forall>z t. z \<notin> Z \<longrightarrow> \<not> T z t"
    and "list_all (\<lambda>n. truthful Z T n \<or> childRecord zone n) (nsecOf records)"
    and "ProveNoDS u cr records zone = Inr ()"
  shows "\<not> T (canon zone) TypeDS"
proof (cases "nsecAt u (nsecOf records) zone")
  case (Some n)
  then have bits: "\<not> NSEC_TypeInBitmap (nrr n) TypeSOA" "\<not> NSEC_TypeInBitmap (nrr n) TypeDS"
    using assms(5) by (auto simp: ProveNoDS_def collectDenial_nsec [OF assms(1)] split: if_splits)
  have n: "n \<in> set (nsecOf records)" "equalName u (nowner n) zone" using nsecAt_Some [OF Some] by auto
  have "goodName (nowner n)"
    using assms(4) n(1) by (auto simp: list_all_iff truthful_def childRecord_def)
  then have eq: "canon (nowner n) = canon zone"
    using n(2) assms(2) by (simp add: equalName_iff)
  then have "truthful Z T n" using assms(4) n(1) bits by (auto simp: list_all_iff childRecord_def)
  then show ?thesis using bits eq by (simp add: truthful_def)
next
  case None
  then obtain n where n: "n \<in> set (nsecOf records)" "covers u n zone"
    using assms(5) by (auto simp: ProveNoDS_def collectDenial_nsec [OF assms(1)] list_ex_iff split: if_splits)
  then have "truthful Z T n"
    using assms(2,4) childRecord_not_covers by (auto simp: list_all_iff)
  then show ?thesis
    using covers_not_owner [OF _ _ n(2)] assms(2,3) by auto
qed

text \<open>
  (C25) Empty answers.  If \<open>ProveNoData\<close> accepts truthful NSEC records, the name has no record of
  the type, and one of three things holds: the name is an owner name with neither the type
  nor a CNAME, and is not a delegation unless DS was asked for; or it exists only as a branch
  of the tree; or it is missing and the wildcard at its closest encloser exists without the
  type.
\<close>

theorem ProveNoData_sound:
  assumes "nsecOf records \<noteq> []" "list_all (truthful Z T) (nsecOf records)" "goodName qname"
    and "\<forall>z t. z \<notin> Z \<longrightarrow> \<not> T z t" "ProveNoData u cr records qname qtype = Inr ()"
  shows "\<not> T (canon qname) qtype \<and>
    (canon qname \<in> Z \<and> \<not> T (canon qname) TypeCNAME
       \<and> (qtype = TypeDS \<or> \<not> T (canon qname) TypeNS \<or> T (canon qname) TypeSOA)
     \<or> canon qname \<notin> Z \<and> existsIn Z (canon qname)
     \<or> canon qname \<notin> Z \<and> (\<exists>ce. isCloseEncloser Z (canon qname) ce \<and> star # ce \<in> Z \<and> \<not> T (star # ce) qtype))"
proof (cases "nsecAt u (nsecOf records) qname")
  case (Some n)
  have n: "n \<in> set (nsecOf records)" "equalName u (nowner n) qname" using nsecAt_Some [OF Some] by auto
  have t: "truthful Z T n" using assms(2) n(1) by (simp add: list_all_iff)
  then have "canon (nowner n) = canon qname"
    using n(2) assms(3) by (simp add: equalName_iff truthful_def)
  then show ?thesis
    using t assms(5) Some
    by (auto simp: ProveNoData_def collectDenial_nsec [OF assms(1)] truthful_def split: if_splits)
next
  case None
  then obtain n where f: "findCovering u (nsecOf records) qname = Some n"
    and c: "isProperSubdomain u (NextDomain (nrr n)) qname \<or>
      list_ex (\<lambda>m. equalName u (nowner m) (wildcardOf (closestEncloser u n qname))
                 \<and> \<not> NSEC_TypeInBitmap (nrr m) qtype) (nsecOf records)"
    using assms(5) by (auto simp: ProveNoData_def collectDenial_nsec [OF assms(1)] Let_def
        split: option.splits if_splits)
  have t: "truthful Z T n" "covers u n qname"
    using findCovering_Some [OF f] assms(2) by (auto simp: list_all_iff)
  have g: "goodName (nowner n)" "goodName (NextDomain (nrr n))" using t by (simp_all add: truthful_def)
  have q: "canon qname \<notin> Z" using covers_not_owner [OF t(1) _ t(2)] assms(3) by simp
  from c show ?thesis
  proof
    assume "isProperSubdomain u (NextDomain (nrr n)) qname"
    then have "suffix (canon qname) (canon (NextDomain (nrr n)))"
      using g assms(3) by (simp add: isProperSubdomain_iff strict_suffix_def)
    then have "existsIn Z (canon qname)" using t(1) by (auto simp: existsIn_def truthful_def)
    then show ?thesis using q assms(4) by blast
  next
    assume "list_ex (\<lambda>m. equalName u (nowner m) (wildcardOf (closestEncloser u n qname))
                 \<and> \<not> NSEC_TypeInBitmap (nrr m) qtype) (nsecOf records)"
    then obtain m where m: "truthful Z T m" "equalName u (nowner m) (wildcardOf (closestEncloser u n qname))"
      "\<not> NSEC_TypeInBitmap (nrr m) qtype" using assms(2) by (auto simp: list_ex_iff list_all_iff)
    then have "canon (nowner m) = star # ceLabels n qname"
      using wildcard_ascii [OF assms(3) g] wildcard_canon [OF assms(3) g]
      by (simp add: equalName_iff truthful_def)
    then have "star # ceLabels n qname \<in> Z" "\<not> T (star # ceLabels n qname) qtype"
      using m by (auto simp: truthful_def)
    then show ?thesis using q assms(4) closestEncloser_correct [OF t(1) assms(3) t(2)] by blast
  qed
qed

text \<open>
  Wildcard answers.  When \<open>ProveNoCloserMatch\<close> accepts truthful NSEC records the name has no
  records of its own, so a wildcard was entitled to answer for it.
\<close>

theorem ProveNoCloserMatch_sound:
  assumes "nsecOf records \<noteq> []" "list_all (truthful Z T) (nsecOf records)" "goodName qname"
    and "ProveNoCloserMatch u cr records qname = Inr ()"
  shows "canon qname \<notin> Z"
proof -
  obtain n where n: "findCovering u (nsecOf records) qname = Some n"
    using assms(4) by (auto simp: ProveNoCloserMatch_def collectDenial_nsec [OF assms(1)] split: if_splits)
  then have "truthful Z T n" "covers u n qname"
    using findCovering_Some assms(2) by (auto simp: list_all_iff)
  then show ?thesis using covers_not_owner assms(3) by simp
qed

text \<open>
  A small zone for the examples: \<open>example\<close> with NS and SOA, the delegation \<open>sub.example\<close> with
  NS, and \<open>www.example\<close> with an address.
\<close>

definition nsecRR :: "gostr \<Rightarrow> gostr list \<Rightarrow> byte list \<Rightarrow> RR" where
  "nsecRR owner next bitmap = zeroRR\<lparr>rrName := owner, rrType := 47, rrClass := 1,
     Raw := encLabels next @ 0 # bitmap\<rparr>"

definition sampleNsecs :: "RR list" where
  "sampleNsecs =
     [nsecRR (lit ''example'') [lit ''sub'', lit ''example''] [0, 1, 0x22],
      nsecRR (lit ''sub.example'') [lit ''www'', lit ''example''] [0, 1, 0x20],
      nsecRR (lit ''www.example'') [lit ''example''] [0, 1, 0x40]]"

definition sampleZone :: "gostr list set" where
  "sampleZone = {[lit ''example''], [lit ''sub'', lit ''example''], [lit ''www'', lit ''example'']}"

definition sampleTypes :: name_types where
  "sampleTypes z t =
     (z = [lit ''example''] \<and> typeInBitmap [0, 1, 0x22] t
      \<or> z = [lit ''sub'', lit ''example''] \<and> typeInBitmap [0, 1, 0x20] t
      \<or> z = [lit ''www'', lit ''example''] \<and> typeInBitmap [0, 1, 0x40] t)"

lemma sampleNsecs_records:
  "nsecOf sampleNsecs =
     [\<lparr>nowner = lit ''example'', nrr = \<lparr>NextDomain = lit ''sub.example'', nsecBitmap = [0, 1, 0x22]\<rparr>\<rparr>,
      \<lparr>nowner = lit ''sub.example'', nrr = \<lparr>NextDomain = lit ''www.example'', nsecBitmap = [0, 1, 0x20]\<rparr>\<rparr>,
      \<lparr>nowner = lit ''www.example'', nrr = \<lparr>NextDomain = lit ''example'', nsecBitmap = [0, 1, 0x40]\<rparr>\<rparr>]"
  by code_simp

lemma sample_names:
  "canon (lit ''example'') = [lit ''example'']"
  "canon (lit ''sub.example'') = [lit ''sub'', lit ''example'']"
  "canon (lit ''www.example'') = [lit ''www'', lit ''example'']"
  "goodName (lit ''example'')" "goodName (lit ''sub.example'')" "goodName (lit ''www.example'')"
  by code_simp+

lemma sample_labels: "lit ''example'' \<noteq> lit ''sub''" "lit ''example'' \<noteq> lit ''www''" "lit ''sub'' \<noteq> lit ''www''"
  by code_simp+

lemma sample_gaps:
  "\<forall>z\<in>sampleZone. \<not> inGap (lexCmp compareBytes) [lit ''example''] [lit ''example'', lit ''sub''] (rev z)"
  "\<forall>z\<in>sampleZone. \<not> inGap (lexCmp compareBytes) [lit ''example'', lit ''sub''] [lit ''example'', lit ''www''] (rev z)"
  "\<forall>z\<in>sampleZone. \<not> inGap (lexCmp compareBytes) [lit ''example'', lit ''www''] [lit ''example''] (rev z)"
  by code_simp+

lemma sampleNsecs_truthful: "list_all (truthful sampleZone sampleTypes) (nsecOf sampleNsecs)"
  using sample_gaps
  by (simp add: sampleNsecs_records truthful_def sample_names NSEC_TypeInBitmap_def sampleTypes_def
      sample_labels sample_labels [symmetric]) (simp add: sampleZone_def)

lemma sampleNsecs_nonempty: "nsecOf sampleNsecs \<noteq> []"
  by (simp add: sampleNsecs_records)

lemma sampleTypes_outside: "\<forall>z t. z \<notin> sampleZone \<longrightarrow> \<not> sampleTypes z t"
  by (auto simp: sampleZone_def sampleTypes_def)

theorem ProveNameError_sound_witness:
  "canon (lit ''mail.example'') \<notin> sampleZone"
proof -
  have "goodName (lit ''mail.example'')"
    "ProveNameError plainUnicode plainCrypto sampleNsecs (lit ''mail.example'') = Inr ()" by code_simp+
  from ProveNameError_sound [OF sampleNsecs_nonempty sampleNsecs_truthful this] show ?thesis by simp
qed

theorem ProveNoDS_sound_witness: "\<not> sampleTypes (canon (lit ''sub.example'')) TypeDS"
proof -
  have r: "ProveNoDS plainUnicode plainCrypto sampleNsecs (lit ''sub.example'') = Inr ()" by code_simp
  show ?thesis
    by (rule ProveNoDS_sound [OF sampleNsecs_nonempty sample_names(5) sampleTypes_outside _ r])
      (use sampleNsecs_truthful in \<open>simp add: list_all_iff\<close>)
qed

theorem ProveNoData_sound_witness: "\<not> sampleTypes (canon (lit ''www.example'')) TypeAAAA"
proof -
  have r: "ProveNoData plainUnicode plainCrypto sampleNsecs (lit ''www.example'') TypeAAAA = Inr ()"
    by code_simp
  from ProveNoData_sound [OF sampleNsecs_nonempty sampleNsecs_truthful sample_names(6) sampleTypes_outside r]
  show ?thesis by simp
qed

theorem ProveNoCloserMatch_sound_witness: "canon (lit ''mail.example'') \<notin> sampleZone"
proof -
  have "goodName (lit ''mail.example'')"
    "ProveNoCloserMatch plainUnicode plainCrypto sampleNsecs (lit ''mail.example'') = Inr ()" by code_simp+
  from ProveNoCloserMatch_sound [OF sampleNsecs_nonempty sampleNsecs_truthful this] show ?thesis .
qed

text \<open>
  The reach of a delegation's record.  One NSEC record, of any owner whose next name is not
  below it, is accepted by \<open>ProveNameError\<close> as a proof that no name below the owner exists.
  Nothing asks whether the owner is a delegation, in which case the parent's record says
  nothing about the child's names (RFC 6840, section 4.1).
\<close>

theorem ProveNameError_below_owner:
  assumes "nsecOf records = [n]" "goodName (nowner n)" "goodName (NextDomain (nrr n))" "goodName qname"
    and "CompareNames u (nowner n) (NextDomain (nrr n)) < 0"
    and "\<not> isSubdomainOrEqual u (NextDomain (nrr n)) (nowner n)"
    and "isProperSubdomain u qname (nowner n)"
  shows "ProveNameError u cr records qname = Inr ()"
proof -
  let ?o = "ckey (nowner n)" and ?x = "ckey (NextDomain (nrr n))"
  have ox: "lexCmp compareBytes ?o ?x < 0" using assms(2,3,5) by (simp add: CompareNames_canon)
  have not_ext: "\<not> suffix (canon (nowner n)) (canon (NextDomain (nrr n)))"
    using assms(2,3,6) by (simp add: isSubdomainOrEqual_iff)
  have gap: "inGap (lexCmp compareBytes) ?o ?x (?o @ y # ys)" for y ys
  proof -
    have "lexCmp compareBytes ?o (?o @ y # ys) = -1" by (rule lexCmp_prefix) simp
    then have 1: "lexCmp compareBytes (?o @ y # ys) ?o > 0"
      by (simp add: labels_order.cmp_swap [of ?o])
    have "\<not> lexCmp compareBytes ?x (?o @ y # ys) \<le> 0"
    proof
      assume "lexCmp compareBytes ?x (?o @ y # ys) \<le> 0"
      then obtain zs where "?x = ?o @ zs"
        using label_order.lexCmp_between [of ?o "[]" ?x "y # ys"] ox by auto
      then have "canon (NextDomain (nrr n)) = rev zs @ canon (nowner n)"
        by (metis rev_append rev_rev_ident)
      then show False using not_ext by (simp add: suffix_def)
    qed
    then have "lexCmp compareBytes (?o @ y # ys) ?x < 0"
      using labels_order.cmp_swap [of ?x "?o @ y # ys"] by simp
    with 1 ox show ?thesis by (simp add: inGap_def)
  qed
  obtain p where p: "canon qname = p @ canon (nowner n)" "p \<noteq> []"
    using assms(2,4,7) by (auto simp: isProperSubdomain_iff strict_suffix_def suffix_def)
  then obtain y ys where q: "ckey qname = ?o @ y # ys" by (cases "rev p") auto
  have cov: "covers u n qname"
    using gap [of y ys] assms(2-4) q by (simp add: covers_def inGap_def CompareNames_canon)
  have lo: "length ?o \<le> shared qname (nowner n)" by (rule sharedTop_max) (simp_all add: q)
  have "ceLabels n qname = canon (nowner n) \<or> (\<exists>p'. p' \<noteq> [] \<and> ceLabels n qname = p' @ canon (nowner n))"
    using ceLabels_top [of "canon (nowner n)" qname n] p lo by (auto simp: suffix_def)
  then obtain z zs where w: "rev (star # ceLabels n qname) = ?o @ z # zs"
  proof
    assume "ceLabels n qname = canon (nowner n)"
    then show ?thesis by (intro that) simp
  next
    assume "\<exists>p'. p' \<noteq> [] \<and> ceLabels n qname = p' @ canon (nowner n)"
    then obtain p' where "p' \<noteq> []" "ceLabels n qname = p' @ canon (nowner n)" by blast
    then show ?thesis by (cases "rev p'") (auto intro: that)
  qed
  then have "ckey (wildcardOf (closestEncloser u n qname)) = ?o @ z # zs"
    by (simp only: wildcard_canon [OF assms(4,2,3)])
  then have "covers u n (wildcardOf (closestEncloser u n qname))"
    using gap [of z zs] wildcard_ascii [OF assms(4,2,3)] assms(2,3)
    by (simp add: covers_def inGap_def CompareNames_canon)
  with cov show ?thesis
    using assms(1) by (simp add: ProveNameError_def collectDenial_nsec findCovering_def)
qed

theorem ProveNameError_below_owner_witness:
  "ProveNameError plainUnicode plainCrypto [nsecRR (lit ''sub.example'') [lit ''www'', lit ''example''] [0, 1, 0x20]]
     (lit ''host.sub.example'') = Inr ()"
proof (rule ProveNameError_below_owner)
  show "nsecOf [nsecRR (lit ''sub.example'') [lit ''www'', lit ''example''] [0, 1, 0x20]] =
    [\<lparr>nowner = lit ''sub.example'', nrr = \<lparr>NextDomain = lit ''www.example'', nsecBitmap = [0, 1, 0x20]\<rparr>\<rparr>]"
    by code_simp
qed code_simp+

text \<open>
  Empty non-terminals.  Truthful records, accepted by \<open>ProveNameError\<close>, for a name that does
  exist in the tree: in a zone with \<open>example\<close> and \<open>a.b.example\<close>, the gap between the two
  contains the branch \<open>b.example\<close> as well as its wildcard.
\<close>

theorem ProveNameError_empty_nonterminal:
  "\<exists>Z T records qname. nsecOf records \<noteq> [] \<and> list_all (truthful Z T) (nsecOf records) \<and>
     ProveNameError plainUnicode plainCrypto records qname = Inr () \<and> goodName qname \<and> existsIn Z (canon qname)"
proof (intro exI conjI)
  let ?records = "[nsecRR (lit ''example'') [lit ''a'', lit ''b'', lit ''example''] [0, 1, 0x22]]"
  let ?Z = "{[lit ''example''], [lit ''a'', lit ''b'', lit ''example'']}"
  have r: "nsecOf ?records = [\<lparr>nowner = lit ''example'',
      nrr = \<lparr>NextDomain = lit ''a.b.example'', nsecBitmap = [0, 1, 0x22]\<rparr>\<rparr>]" by code_simp
  show "nsecOf ?records \<noteq> []" by (simp add: r)
  have n: "goodName (lit ''example'')" "goodName (lit ''a.b.example'')"
    "canon (lit ''example'') = [lit ''example'']" "canon (lit ''a.b.example'') = [lit ''a'', lit ''b'', lit ''example'']"
    "\<forall>z\<in>?Z. \<not> inGap (lexCmp compareBytes) [lit ''example''] [lit ''example'', lit ''b'', lit ''a''] (rev z)"
    by code_simp+
  show "list_all (truthful ?Z (\<lambda>_. typeInBitmap [0, 1, 0x22])) (nsecOf ?records)"
    using n(5) by (simp add: r truthful_def n(1-4) NSEC_TypeInBitmap_def)
  show "ProveNameError plainUnicode plainCrypto ?records (lit ''b.example'') = Inr ()" by code_simp
  show "goodName (lit ''b.example'')" by code_simp
  have "canon (lit ''b.example'') = [lit ''b'', lit ''example'']" by code_simp
  then show "existsIn ?Z (canon (lit ''b.example''))" by (auto simp: existsIn_def suffix_def)
qed

end
