(* ===== verification/Nsec3_Facts.thy ===== *)
theory Nsec3_Facts
  imports Denial_Facts
begin

text \<open>
  What the NSEC3 proofs prove, and that the base32hex encoding of hashes keeps their order, so
  that comparing encoded owner names is comparing hashes.
\<close>

section \<open>The order of encoded hashes\<close>

definition cmpBit :: "bool \<Rightarrow> bool \<Rightarrow> int" where
  "cmpBit a b = (if a = b then 0 else if b then -1 else 1)"

text \<open>Comparing bit lists of one length is comparing the numbers they denote.\<close>

lemma digitValue_Cons: "digitValue (b # bs) = (if b then 2 ^ length bs else 0) + digitValue bs"
proof -
  have "foldl (\<lambda>n b. 2 * n + (if b then 1 else 0)) k bs = k * 2 ^ length bs + digitValue bs" for k
    unfolding digitValue_def
  proof (induction bs arbitrary: k)
    case (Cons c bs)
    show ?case
      using Cons [of "2 * k + (if c then 1 else 0)"] Cons [of "if c then 1 else 0"]
      by (simp add: algebra_simps)
  qed simp
  from this [of "if b then 1 else 0"] show ?thesis by (simp add: digitValue_def)
qed

lemma digitValue_bound: "digitValue bs < 2 ^ length bs"
  by (induction bs) (auto simp: digitValue_Cons, simp add: digitValue_def)

lemma lexCmp_bits:
  "length xs = length ys \<Longrightarrow>
     lexCmp cmpBit xs ys = sgn (int (digitValue xs) - int (digitValue ys))"
proof (induction xs ys rule: list_induct2)
  case (Cons x xs y ys)
  have b: "int (digitValue xs) < 2 ^ length xs" "int (digitValue ys) < 2 ^ length xs"
    using digitValue_bound [of xs] digitValue_bound [of ys] Cons.hyps by simp_all
  show ?case
  proof (cases "x = y")
    case True
    then show ?thesis using Cons by (simp add: digitValue_Cons cmpBit_def Let_def)
  next
    case False
    have d: "int (digitValue (x # xs)) - int (digitValue (y # ys)) =
        (if x then 2 ^ length xs else - (2 ^ length xs)) + int (digitValue xs) - int (digitValue ys)"
      using False Cons.hyps by (simp add: digitValue_Cons)
    have "sgn \<dots> = (if x then 1 else -1)"
      using b by (simp only: sgn_if split: if_split) linarith
    then show ?thesis using False d by (simp add: cmpBit_def)
  qed
qed simp

text \<open>Lexicographic comparison of lists of blocks is that of their concatenations.\<close>

lemma lexCmp_append:
  "length xs = length ys \<Longrightarrow>
     lexCmp cmp (xs @ xs') (ys @ ys') = (if lexCmp cmp xs ys \<noteq> 0 then lexCmp cmp xs ys else lexCmp cmp xs' ys')"
  by (induction xs ys rule: list_induct2) (auto simp: Let_def)

lemma lexCmp_concat:
  "list_all2 (\<lambda>x y. length x = length y) xss yss \<Longrightarrow>
     lexCmp cmp (concat xss) (concat yss) = lexCmp (lexCmp cmp) xss yss"
  by (induction rule: list_all2_induct) (auto simp: lexCmp_append Let_def)

lemma lexCmp_map_cong:
  "list_all2 (\<lambda>x y. cmp (f x) (f y) = cmp' (g x) (g y)) xs ys \<Longrightarrow>
     lexCmp cmp (map f xs) (map f ys) = lexCmp cmp' (map g xs) (map g ys)"
  by (induction rule: list_all2_induct) (auto simp: Let_def)

lemma digitValue_byte: "digitValue (bitsOf b) = unat b"
proof -
  have upt8: "[0..<8] = [0, 1, 2, 3, 4, 5, 6, 7 :: nat]" by code_simp
  have "bit (unat b) = bit b"
    by (rule ext) (simp add: bit_unsigned_iff)
  then have "unat b = horner_sum of_bool 2 (map (bit b) [0..<8])"
    using horner_sum_bit_eq_take_bit [of "unat b" 8] unsigned_less [of b, where ?'a = nat]
    by (simp add: take_bit_nat_eq_self)
  then show ?thesis
    unfolding upt8 by (simp add: bitsOf_def digitValue_def of_bool_def algebra_simps del: One_nat_def)
qed

text \<open>Lists of one length split alike and are padded alike.\<close>

lemma groups5_alike:
  "length xs = length ys \<Longrightarrow>
     list_all2 (\<lambda>x y. length x = 5 \<and> length y = 5) (groups5 xs) (groups5 ys) \<and>
     (\<exists>pad. concat (groups5 xs) = xs @ pad \<and> concat (groups5 ys) = ys @ pad)"
proof (induction xs arbitrary: ys rule: groups5.induct)
  case (2 a b c d e bs)
  from 2(2) obtain a' b' c' d' e' bs' where "ys = a' # b' # c' # d' # e' # bs'" "length bs = length bs'"
    by (auto simp: Suc_length_conv length_Suc_conv)
  with 2(1) show ?case by auto
qed (auto simp: Suc_length_conv length_Suc_conv)

lemma sgn_nat_diff: "sgn (int m - int n) = (if m < n then -1 else if n < m then 1 else 0)"
  by (simp add: sgn_if)

lemma cmpByte_unat: "cmpByte a b = sgn (int (unat a) - int (unat b))"
  unfolding sgn_nat_diff cmpByte_def word_less_nat_alt ..

lemma base32Digit_unat:
  assumes "k < 32"
  shows "unat (base32Digit k) = (if k < 10 then 48 + k else 55 + k)"
proof -
  have u: "unat (word_of_nat k :: byte) = k" if "k < 256" for k
    using that by (simp add: unat_of_nat take_bit_nat_eq_self)
  show ?thesis
    using assms u [of "48 + k"] u [of "55 + k"] by (simp only: base32Digit_def split: if_split) simp
qed

lemma base32Digit_mono:
  assumes "m < 32" "n < 32"
  shows "cmpByte (base32Digit m) (base32Digit n) = sgn (int m - int n)"
  unfolding cmpByte_unat base32Digit_unat [OF assms(1)] base32Digit_unat [OF assms(2)] sgn_nat_diff
  by auto

lemma compare_base32Hex:
  assumes "length as = length bs"
  shows "compareBytes (base32Hex as) (base32Hex bs) = compareBytes as bs"
proof -
  let ?A = "concat (map bitsOf as)" and ?B = "concat (map bitsOf bs)"
  have bits: "length (bitsOf b) = 8" for b by (simp add: bitsOf_def)
  have len: "length ?A = length ?B" using assms by (simp add: length_concat comp_def bits sum_list_triv)
  have byte: "cmpByte a b = lexCmp cmpBit (bitsOf a) (bitsOf b)" for a b
    by (simp only: lexCmp_bits bits digitValue_byte cmpByte_unat)
  have "compareBytes as bs = lexCmp cmpByte (map id as) (map id bs)"
    by (simp add: compareBytes_lexCmp)
  also have "\<dots> = lexCmp (lexCmp cmpBit) (map bitsOf as) (map bitsOf bs)"
    using assms by (intro lexCmp_map_cong) (simp add: list_all2_iff byte)
  also have "\<dots> = lexCmp cmpBit ?A ?B"
    using assms by (intro lexCmp_concat [symmetric]) (auto simp: list_all2_conv_all_nth bits)
  finally have 1: "compareBytes as bs = lexCmp cmpBit ?A ?B" .
  from groups5_alike [OF len] obtain pad
    where g: "list_all2 (\<lambda>x y. length x = 5 \<and> length y = 5) (groups5 ?A) (groups5 ?B)"
      and pad: "concat (groups5 ?A) = ?A @ pad" "concat (groups5 ?B) = ?B @ pad" by blast
  have "compareBytes (base32Hex as) (base32Hex bs)
      = lexCmp (lexCmp cmpBit) (map id (groups5 ?A)) (map id (groups5 ?B))"
    unfolding base32Hex_def compareBytes_lexCmp
  proof (rule lexCmp_map_cong, rule list.rel_mono_strong [OF g])
    fix x y :: "bool list" assume l: "length x = 5 \<and> length y = 5"
    have "digitValue x < 32" "digitValue y < 32"
      using digitValue_bound [of x] digitValue_bound [of y] l by simp_all
    then show "cmpByte ((base32Digit \<circ> digitValue) x) ((base32Digit \<circ> digitValue) y)
        = lexCmp cmpBit (id x) (id y)"
      using l by (simp add: base32Digit_mono lexCmp_bits)
  qed
  also have "\<dots> = lexCmp cmpBit (concat (groups5 ?A)) (concat (groups5 ?B))"
    unfolding list.map_id by (intro lexCmp_concat [symmetric] list.rel_mono_strong [OF g]) auto
  also have "\<dots> = lexCmp cmpBit ?A ?B"
  proof -
    have z: "lexCmp cmpBit zs zs = 0" for zs by (induction zs) (auto simp: cmpBit_def)
    show ?thesis by (simp only: pad lexCmp_append [OF len] z) simp
  qed
  finally show ?thesis using 1 by simp
qed

lemma groups5_five: "g \<in> set (groups5 xs) \<Longrightarrow> length g = 5"
  using groups5_alike [of xs xs] by (auto simp: list_all2_same)

lemma ToUpper_base32Hex [simp]: "ToUpper u (base32Hex bs) = base32Hex bs"
proof -
  have low: "unat b < 97" if b: "b \<in> set (base32Hex bs)" for b
  proof -
    from b obtain g where g: "g \<in> set (groups5 (concat (map bitsOf bs)))" "b = base32Digit (digitValue g)"
      by (auto simp: base32Hex_def)
    have "digitValue g < 32" using digitValue_bound [of g] groups5_five [OF g(1)] by simp
    then show ?thesis using base32Digit_unat [of "digitValue g"] g(2) by simp
  qed
  then have "\<forall>b\<in>set (base32Hex bs). b < 128 \<and> \<not> 97 \<le> b"
    by (fastforce simp: word_less_nat_alt word_le_nat_alt)
  then have "isASCII (base32Hex bs)"
    by (simp add: isASCII_set)
  moreover have "map upperByte (base32Hex bs) = base32Hex bs"
    using \<open>\<forall>b\<in>set (base32Hex bs). b < 128 \<and> \<not> 97 \<le> b\<close> by (intro map_idI) (simp add: upperByte_def)
  ultimately show ?thesis by (simp add: ToUpper_def)
qed

lemma inGap_base32:
  assumes "length o' = length x" "length x = length h"
  shows "inGap compareBytes (base32Hex o') (base32Hex x) (base32Hex h) = inGap compareBytes o' x h"
  using assms by (simp add: inGap_def compare_base32Hex)

section \<open>Truthful hashed records\<close>

lemma hashName_canon:
  assumes "canon a = canon b" "hashName u cr n a = Inr h"
  shows "hashName u cr n b = Inr h"
  using assms canonicalName_canon [OF assms(1)]
  by (auto simp: hashName_def bindR_eq_Inr split: if_splits)

text \<open>
  The zone with apex \<open>apex\<close> has the signed names \<open>S\<close>, the names \<open>Z\<close> in all, and the types
  \<open>T\<close>.  A record is truthful when the hash of no existing signed name is in its gap, nor, if
  it does not opt out, that of any existing name, and when it lists the types of every name
  that has its hash.
\<close>

definition truthful3 ::
  "unicode \<Rightarrow> crypto \<Rightarrow> gostr list \<Rightarrow> gostr list set \<Rightarrow> gostr list set \<Rightarrow> name_types \<Rightarrow> nsec3Record \<Rightarrow> bool" where
  "truthful3 u cr apex Z S T n =
     (\<forall>m h. hashName u cr n m = Inr h \<longrightarrow> suffix apex (canon m) \<longrightarrow>
        (existsIn S (canon m) \<longrightarrow> \<not> covers3 u n h) \<and>
        (existsIn Z (canon m) \<longrightarrow> \<not> OptOut (n3rr n) \<longrightarrow> \<not> covers3 u n h) \<and>
        (matches n h \<longrightarrow> (\<forall>t. NSEC3_TypeInBitmap (n3rr n) t = T (canon m) t)))"

lemma findMatch_Some:
  "findMatch u cr ns name = Inr (Some n) \<Longrightarrow>
     n \<in> set ns \<and> (\<exists>h. hashName u cr n name = Inr h \<and> matches n h)"
  by (induction ns) (auto simp: bindR_eq_Inr split: if_splits)

lemma findCover_Some:
  "findCover u cr ns name = Inr (Some n) \<Longrightarrow>
     n \<in> set ns \<and> (\<exists>h. hashName u cr n name = Inr h \<and> covers3 u n h)"
  by (induction ns) (auto simp: bindR_eq_Inr split: if_splits)

text \<open>A covered name does not exist, unless the record opts out and the name is unsigned.\<close>

lemma covered3:
  assumes "list_all (truthful3 u cr apex Z S T) ns" "suffix apex (canon name)"
    and "findCover u cr ns name = Inr (Some n)"
  shows "\<not> existsIn S (canon name) \<and> (\<not> OptOut (n3rr n) \<longrightarrow> \<not> existsIn Z (canon name))"
proof -
  obtain h where "n \<in> set ns" "hashName u cr n name = Inr h" "covers3 u n h"
    using findCover_Some [OF assms(3)] by blast
  then show ?thesis using assms(1,2) by (auto simp: list_all_iff truthful3_def)
qed

lemma matched3:
  assumes "list_all (truthful3 u cr apex Z S T) ns" "suffix apex (canon name)"
    and "findMatch u cr ns name = Inr (Some n)"
  shows "NSEC3_TypeInBitmap (n3rr n) t = T (canon name) t"
proof -
  obtain h where "n \<in> set ns" "hashName u cr n name = Inr h" "matches n h"
    using findMatch_Some [OF assms(3)] by blast
  then show ?thesis using assms(1,2) by (auto simp: list_all_iff truthful3_def)
qed

section \<open>The closest encloser\<close>

lemma encloserLoop_Inr:
  "encloserLoop u cr ns zl ls = Inr (c, nc) \<Longrightarrow>
     \<exists>k < length ls. c = joinDot (drop (Suc k) ls) \<and> nc = joinDot (drop k ls) \<and> zl + Suc k \<le> length ls"
proof (induction ls)
  case (Cons l ls)
  then consider "c = joinDot ls" "nc = joinDot (l # ls)" "zl \<le> length ls"
    | "encloserLoop u cr ns zl ls = Inr (c, nc)"
    by (auto simp: bindR_eq_Inr Let_def split: if_splits)
  then show ?case
  proof cases
    case 1
    then show ?thesis by (intro exI [of _ 0]) simp
  next
    case 2
    then obtain k where "k < length ls" "c = joinDot (drop (Suc k) ls)" "nc = joinDot (drop k ls)"
      "zl + Suc k \<le> length ls" using Cons.IH by blast
    then show ?thesis by (intro exI [of _ "Suc k"]) simp
  qed
qed simp

text \<open>The names a section gives out are \<open>qname\<close>'s own suffixes, inside the zone.\<close>

lemma canon_drop_split:
  assumes "goodName n"
  shows "canon (joinDot (drop k (splitName n))) = drop k (canon n)"
proof -
  have "canon (map lowerByte (joinDot (drop k (splitName n)))) = drop k (canon n)"
    using canon_drop [OF assms, of k]
    by (simp add: canon_def joinDot_map_lower [symmetric] drop_map)
  then show ?thesis by simp
qed

lemma joinDot_split_last:
  assumes "goodName n"
  shows "joinDot (drop k (splitName n)) = [] \<or> last (joinDot (drop k (splitName n))) \<noteq> dot"
proof (cases "drop k (splitName n) = []")
  case False
  have "last (drop k (splitName n)) \<in> set (splitName n)" using False by (metis in_set_dropD last_in_set)
  then have "last (drop k (splitName n)) \<noteq> []" "dot \<notin> set (last (drop k (splitName n)))"
    using assms splitName_no_dot by (auto simp: goodName_def)
  then show ?thesis using last_joinDot [OF False] by (metis last_in_set)
qed simp

lemma suffix_apex_drop:
  assumes "suffix apex n" "k + length apex \<le> length n"
  shows "suffix apex (drop k n)"
  using assms by (auto simp: suffix_def)

lemma closestEncloser3_Inr:
  assumes "closestEncloser3 u cr ns qname zone = Inr (c, nc)" "goodName qname"
    and "suffix (canon zone) (canon qname)"
  obtains k where "k < length (canon qname)" "canon nc = drop k (canon qname)"
    "canon (wildcardOf c) = star # drop (Suc k) (canon qname)"
    "suffix (canon zone) (canon nc)" "suffix (canon zone) (canon (wildcardOf c))"
proof -
  have l: "length (splitName x) = length (canon x)" for x by (simp add: canon_def)
  obtain k where k: "k < length (canon qname)" "c = joinDot (drop (Suc k) (splitName qname))"
    "nc = joinDot (drop k (splitName qname))" "length (canon zone) + Suc k \<le> length (canon qname)"
    using assms(1) encloserLoop_Inr [of u cr ns "length (splitName zone)" "splitName qname" c nc]
    by (auto simp: closestEncloser3_def Let_def l split: if_splits)
  have nc: "canon nc = drop k (canon qname)" using canon_drop_split [OF assms(2)] k by simp
  have w: "canon (wildcardOf c) = star # drop (Suc k) (canon qname)"
    using canon_wildcardOf [of c] joinDot_split_last [OF assms(2)] canon_drop_split [OF assms(2)] k
    by metis
  show ?thesis
    by (rule that [OF k(1) nc w])
      (use suffix_apex_drop [OF assms(3)] k(4) in \<open>simp_all add: nc w suffix_ConsI\<close>)
qed

lemma collectDenial_nsec3:
  assumes "nsecOf records = []" "nsec3Records u records = Inr (ns, zone)" "ns \<noteq> []"
  shows "collectDenial u records = Inr \<lparr>dnsec = [], dnsec3 = ns, dzone = zone\<rparr>"
  using assms by (simp add: collectDenial_def)

lemma existsIn_suffix: "existsIn Z n \<Longrightarrow> suffix m n \<Longrightarrow> existsIn Z m"
  unfolding existsIn_def using suffix_order.trans by blast

section \<open>Properties\<close>

text \<open>
  Comparing the encoded hashes of owner names, as the code does, is comparing the hashes: for
  hashes of one length, a record covers a hash exactly when the hash lies in the gap between
  the raw hash of its owner and its raw next hash.
\<close>

theorem covers3_raw:
  assumes "n3owner n = base32Hex o'" "length o' = length (NextHashed (n3rr n))"
    and "length (NextHashed (n3rr n)) = length h"
  shows "covers3 u n (base32Hex h) = inGap compareBytes o' (NextHashed (n3rr n)) h"
  using assms by (simp add: covers3_def inGap_base32)

definition sampleN3 :: "gostr list \<Rightarrow> gostr list \<Rightarrow> nsec3Record" where
  "sampleN3 owner next = \<lparr>n3owner = base32Hex (encLabels owner @ [0]), n3zone = lit ''example'',
     n3rr = \<lparr>n3Algorithm = 1, n3Flags = 0, Iterations = 0, Salt = [],
             NextHashed = encLabels next @ [0], n3Bitmap = [0, 1, 0x40]\<rparr>\<rparr>"

theorem covers3_raw_witness:
  "covers3 plainUnicode (sampleN3 [lit ''b''] [lit ''d'']) (base32Hex [1, 99, 0])"
  using covers3_raw [of "sampleN3 [lit ''b''] [lit ''d'']" "[1, 98, 0]" "[1, 99, 0]" plainUnicode]
  by (simp add: sampleN3_def lit_def inGap_def)

text \<open>
  (C26) Name errors by NSEC3.  From records truthful for the zone, an accepted proof means that
  no signed name is at or below the name asked for, and nothing at all is if no record opts
  out; and at some ancestor of it both the name one label further down and the wildcard are
  missing from the signed names.
\<close>

theorem ProveNameError_nsec3_sound:
  assumes "nsecOf records = []" "nsec3Records u records = Inr (ns, zone)" "ns \<noteq> []"
    and "list_all (truthful3 u cr (canon zone) Z S T) ns"
    and "goodName qname" "suffix (canon zone) (canon qname)"
    and "ProveNameError u cr records qname = Inr ()"
  shows "\<not> existsIn S (canon qname) \<and>
    (list_all (\<lambda>n. \<not> OptOut (n3rr n)) ns \<longrightarrow> \<not> existsIn Z (canon qname)) \<and>
    (\<exists>k < length (canon qname).
       \<not> existsIn S (drop k (canon qname)) \<and> star # drop (Suc k) (canon qname) \<notin> S)"
proof -
  obtain c nc n w where p: "closestEncloser3 u cr ns qname zone = Inr (c, nc)"
    "findCover u cr ns nc = Inr (Some n)" "findCover u cr ns (wildcardOf c) = Inr (Some w)"
    using assms(3,7)
    by (auto simp: ProveNameError_def collectDenial_nsec3 [OF assms(1-3)] proveNameErrorNSEC3_def
        bindR_eq_Inr split: if_splits)
  obtain k where k: "k < length (canon qname)" "canon nc = drop k (canon qname)"
    "canon (wildcardOf c) = star # drop (Suc k) (canon qname)"
    "suffix (canon zone) (canon nc)" "suffix (canon zone) (canon (wildcardOf c))"
    using closestEncloser3_Inr [OF p(1) assms(5,6)] by blast
  note cov = covered3 [OF assms(4) k(4) p(2)] and wc = covered3 [OF assms(4) k(5) p(3)]
  have nc: "suffix (canon nc) (canon qname)" by (simp add: k(2) suffix_drop)
  have "n \<in> set ns" using findCover_Some [OF p(2)] by blast
  then have "list_all (\<lambda>n. \<not> OptOut (n3rr n)) ns \<longrightarrow> \<not> existsIn Z (canon qname)"
    using cov existsIn_suffix [OF _ nc] by (auto simp: list_all_iff)
  moreover have "\<not> existsIn S (canon qname)" using cov existsIn_suffix [OF _ nc] by blast
  moreover have "star # drop (Suc k) (canon qname) \<notin> S"
    using wc by (auto simp: k(3) existsIn_def)
  moreover have "\<not> existsIn S (drop k (canon qname))" using cov k(2) by simp
  ultimately show ?thesis using k(1) by blast
qed

text \<open>
  Unsigned delegations by NSEC3.  From records truthful for the parent, an accepted proof
  means that the delegated name has no DS record: either its own record does not list one,
  or it is not a signed name, and unsigned names have none.
\<close>

theorem ProveNoDS_nsec3_sound:
  assumes "nsecOf records = []" "nsec3Records u records = Inr (ns, apex)" "ns \<noteq> []"
    and "list_all (truthful3 u cr (canon apex) Z S T) ns" "\<forall>z. z \<notin> S \<longrightarrow> \<not> T z TypeDS"
    and "suffix (canon apex) (canon zone)" "ProveNoDS u cr records zone = Inr ()"
  shows "\<not> T (canon zone) TypeDS"
proof -
  have p: "proveNoDSNSEC3 u cr ns zone = Inr ()"
    using assms(3,7) by (simp add: ProveNoDS_def collectDenial_nsec3 [OF assms(1-3)])
  then consider n where "findMatch u cr ns zone = Inr (Some n)" "\<not> NSEC3_TypeInBitmap (n3rr n) TypeDS"
    | c where "findCover u cr ns zone = Inr (Some c)"
    by (auto simp: proveNoDSNSEC3_def bindR_eq_Inr split: option.splits if_splits)
  then show ?thesis
  proof cases
    case 1
    then show ?thesis using matched3 [OF assms(4,6)] by simp
  next
    case 2
    then have "\<not> existsIn S (canon zone)" using covered3 [OF assms(4,6)] by simp
    then show ?thesis using assms(5) by (auto simp: existsIn_def)
  qed
qed


text \<open>
  The work a zone can ask for is bounded: a record that asks for more than a hundred rounds,
  or for another hash, is refused before anything is hashed, and the outcome does not depend
  on the hash function.
\<close>

theorem hashName_bounded:
  assumes "n3Algorithm (n3rr n) \<noteq> 1 \<or> 100 < unat (Iterations (n3rr n))"
  shows "hashName u cr n name = Inl ErrUnsupportedDenial \<and>
    findMatch u cr (n # ns) name = Inl ErrUnsupportedDenial \<and>
    findCover u cr (n # ns) name = Inl ErrUnsupportedDenial"
  using assms by (auto simp: hashName_def word_less_nat_alt)

theorem hashName_bounded_witness:
  "findMatch plainUnicode plainCrypto
     [(sampleN3 [] [])\<lparr>n3rr := (n3rr (sampleN3 [] []))\<lparr>Iterations := 101\<rparr>\<rparr>] (lit ''x'') = Inl ErrUnsupportedDenial"
  using hashName_bounded [of "(sampleN3 [] [])\<lparr>n3rr := (n3rr (sampleN3 [] []))\<lparr>Iterations := 101\<rparr>\<rparr>"
      plainUnicode plainCrypto "lit ''x''" "[]"] by simp

text \<open>A zone with the names \<open>example\<close> and \<open>www.example\<close>, hashed by keeping the wire form.\<close>

definition sampleChain :: "nsec3Record list" where
  "sampleChain = [sampleN3 [lit ''www'', lit ''example''] [lit ''example''],
     sampleN3 [lit ''example''] [lit ''www'', lit ''example'']]"

definition sampleSection :: "RR list" where
  "sampleSection = map (\<lambda>n. zeroRR\<lparr>rrName := n3owner n @ dot # n3zone n, rrType := 50, rrClass := 1,
     Raw := [1, 0, 0, 0, 0, word_of_nat (length (NextHashed (n3rr n)))] @ NextHashed (n3rr n)
       @ n3Bitmap (n3rr n)\<rparr>) sampleChain"

definition sampleSigned :: "gostr list set" where
  "sampleSigned = {[lit ''example''], [lit ''www'', lit ''example'']}"

lemma sampleSection_records:
  "nsecOf sampleSection = []" "nsec3Records plainUnicode sampleSection = Inr (sampleChain, lit ''example'')"
  "sampleChain \<noteq> []"
  by code_simp+

lemma sampleChain_gaps:
  "hashName plainUnicode plainCrypto n (lit ''example'') = Inr h \<Longrightarrow> n \<in> set sampleChain \<Longrightarrow> \<not> covers3 plainUnicode n h"
  "hashName plainUnicode plainCrypto n (lit ''www.example'') = Inr h \<Longrightarrow> n \<in> set sampleChain \<Longrightarrow> \<not> covers3 plainUnicode n h"
proof -
  have "list_all (\<lambda>n. case hashName plainUnicode plainCrypto n (lit ''example'') of Inl _ \<Rightarrow> False
      | Inr h \<Rightarrow> \<not> covers3 plainUnicode n h) sampleChain"
    "list_all (\<lambda>n. case hashName plainUnicode plainCrypto n (lit ''www.example'') of Inl _ \<Rightarrow> False
      | Inr h \<Rightarrow> \<not> covers3 plainUnicode n h) sampleChain" by code_simp+
  then show "hashName plainUnicode plainCrypto n (lit ''example'') = Inr h \<Longrightarrow> n \<in> set sampleChain \<Longrightarrow> \<not> covers3 plainUnicode n h"
    "hashName plainUnicode plainCrypto n (lit ''www.example'') = Inr h \<Longrightarrow> n \<in> set sampleChain \<Longrightarrow> \<not> covers3 plainUnicode n h"
    by (auto simp: list_all_iff)
qed

lemma sampleChain_truthful:
  "list_all (truthful3 plainUnicode plainCrypto (canon (lit ''example'')) sampleSigned sampleSigned
     (\<lambda>_. typeInBitmap [0, 1, 0x40])) sampleChain"
proof -
  have gap: "\<not> covers3 plainUnicode n h"
    if n: "n \<in> set sampleChain" and h: "hashName plainUnicode plainCrypto n m = Inr h"
      and m: "suffix (canon (lit ''example'')) (canon m)" "existsIn sampleSigned (canon m)" for n m h
  proof -
    have "canon m = canon (lit ''example'') \<or> canon m = canon (lit ''www.example'')"
      using m by (auto simp: existsIn_def sampleSigned_def sample_names suffix_Cons)
    then show ?thesis
      using hashName_canon [OF _ h] sampleChain_gaps n by metis
  qed
  have bits: "n3Bitmap (n3rr n) = [0, 1, 0x40]" if "n \<in> set sampleChain" for n
    using that by (auto simp: sampleChain_def sampleN3_def)
  show ?thesis
    using gap bits by (simp add: list_all_iff truthful3_def NSEC3_TypeInBitmap_def)
qed

lemma sample_inside: "suffix (canon (lit ''example'')) (canon (lit ''mail.example''))"
  "suffix (canon (lit ''example'')) (canon (lit ''www.example''))"
  by (simp_all add: canon_def name_eval lowerByte_def suffix_Cons)

theorem ProveNameError_nsec3_sound_witness:
  "\<not> existsIn sampleSigned (canon (lit ''mail.example''))"
proof -
  have "goodName (lit ''mail.example'')" by code_simp
  moreover have "ProveNameError plainUnicode plainCrypto sampleSection (lit ''mail.example'') = Inr ()"
    by code_simp
  ultimately show ?thesis
    using ProveNameError_nsec3_sound [OF sampleSection_records sampleChain_truthful _ sample_inside(1)] by blast
qed

theorem ProveNoDS_nsec3_sound_witness: "\<not> typeInBitmap [0, 1, 0x40] TypeDS"
proof -
  have "ProveNoDS plainUnicode plainCrypto sampleSection (lit ''www.example'') = Inr ()" by code_simp
  moreover have "\<not> typeInBitmap [0, 1, 0x40] TypeDS" by code_simp
  ultimately show ?thesis
    using ProveNoDS_nsec3_sound [OF sampleSection_records sampleChain_truthful _ sample_inside(2)] by blast
qed


end
