(* ===== verification/Handlers.thy ===== *)
theory Handlers
  imports Wire_Types
begin

text \<open>
  The handler chain (\<open>dnsserver/handler.go\<close>).  A handler is given the client's address and a
  request and writes any number of messages; it may change the world \<open>'w\<close> it runs in, which
  holds the clock and whatever state the handlers keep.  Cancellation of the query's context
  is part of the world: a handler that gives up writes nothing.
\<close>

datatype netAddr = UDPAddr "byte list" | TCPAddr "byte list" | OtherAddr

type_synonym 'w handler = "netAddr \<Rightarrow> Message \<Rightarrow> 'w \<Rightarrow> Message list \<times> 'w"

text \<open>\<open>&dnsmsg.Message{Header: h, Questions: qs}\<close>: the sections not given are empty.\<close>

definition reply :: "Header \<Rightarrow> Question list \<Rightarrow> Message" where
  "reply h qs = \<lparr>header = h, Questions = qs, Answers = [], Authorities = [], Additionals = []\<rparr>"

lemma reply_simps [simp]:
  "header (reply h qs) = h" "Questions (reply h qs) = qs" "Answers (reply h qs) = []"
  "Authorities (reply h qs) = []" "Additionals (reply h qs) = []"
  by (simp_all add: reply_def)

end
