(* ===== verification/Lru.thy ===== *)
theory Lru
  imports Go_Prelude "HOL-Library.AList_Mapping"
begin

text \<open>
  The bounded caches.  The message cache and the delegation cache both keep a Go map and a
  \<open>container/list\<close> of its keys, most recently used first, and drop the last key of the list
  while the map is too large.  The pair of the two is modelled here, with the invariant that
  the list holds every key of the map exactly once; an entry's \<open>elem\<close> is the position of its
  key in the list, so removing the element is removing the key.

  \<open>bounded_cache\<close> is the contract the clients rely on, whatever the state around the pair is.
\<close>

section \<open>A map and the order of its keys\<close>

type_synonym ('k, 'v) lru = "('k, 'v) mapping \<times> 'k list"

definition lruInv :: "nat \<Rightarrow> ('k, 'v) lru \<Rightarrow> bool" where
  "lruInv cap l = (distinct (snd l) \<and> set (snd l) = Mapping.keys (fst l) \<and> length (snd l) \<le> cap)"

definition lruRemove :: "'k \<Rightarrow> ('k, 'v) lru \<Rightarrow> ('k, 'v) lru" where
  "lruRemove k l = (Mapping.delete k (fst l), remove1 k (snd l))"

definition lruFront :: "'k \<Rightarrow> ('k, 'v) lru \<Rightarrow> ('k, 'v) lru" where
  "lruFront k l = (fst l, k # remove1 k (snd l))"

definition lruPush :: "'k \<Rightarrow> 'v \<Rightarrow> ('k, 'v) lru \<Rightarrow> ('k, 'v) lru" where
  "lruPush k v l = (Mapping.update k v (fst l), k # snd l)"

text \<open>The eviction loop: while there are more than \<open>cap\<close> entries, drop the key at the back.\<close>

function lruEvict :: "nat \<Rightarrow> ('k, 'v) lru \<Rightarrow> ('k, 'v) lru" where
  "lruEvict cap l =
     (if Mapping.size (fst l) > cap then
        (if snd l = [] then l
         else lruEvict cap (Mapping.delete (last (snd l)) (fst l), butlast (snd l)))
      else l)"
  by pat_completeness auto
termination
  by (relation "measure (\<lambda>(cap, l). length (snd l))") auto

declare lruEvict.simps [simp del]

section \<open>The invariant\<close>

lemma lruInv_size: "lruInv cap l \<Longrightarrow> Mapping.size (fst l) = length (snd l)"
  by (auto simp: lruInv_def Mapping.size_def distinct_card simp flip: List.finite_set)
    (metis distinct_card, metis List.finite_set)

lemma lruRemove_inv: "lruInv cap l \<Longrightarrow> lruInv cap (lruRemove k l)"
  using length_remove1 [of k "snd l"] by (auto simp: lruInv_def lruRemove_def keys_delete split: if_splits)

lemma lruFront_inv:
  assumes "lruInv cap l" "k \<in> Mapping.keys (fst l)"
  shows "lruInv cap (lruFront k l)"
proof -
  have "k \<in> set (snd l)" using assms by (simp add: lruInv_def)
  then have "length (k # remove1 k (snd l)) = length (snd l)"
    using length_pos_if_in_set by (fastforce simp: length_remove1)
  then show ?thesis using assms by (auto simp: lruInv_def lruFront_def)
qed

lemma lookup_delete_if: "Mapping.lookup (Mapping.delete k m) k' = (if k' = k then None else Mapping.lookup m k')"
  by (cases "k' = k") simp_all

lemma lruRemove_lookup:
  "Mapping.lookup (fst (lruRemove k l)) k' = (if k' = k then None else Mapping.lookup (fst l) k')"
  by (simp add: lruRemove_def lookup_delete_if)

text \<open>Pushing a new key onto a cache that may be full needs at most one turn of the loop.\<close>

lemma lruEvict_push:
  assumes "lruInv cap l" "k \<notin> Mapping.keys (fst l)" "0 < cap"
  shows "lruEvict cap (lruPush k v l) =
    (if length (snd l) < cap then lruPush k v l
     else (Mapping.delete (last (snd l)) (Mapping.update k v (fst l)), k # butlast (snd l)))"
proof -
  obtain m ks where l [simp]: "l = (m, ks)" by (cases l)
  have inv: "distinct ks" "set ks = Mapping.keys m" "length ks \<le> cap"
    using assms(1) by (simp_all add: lruInv_def)
  have fin: "finite (Mapping.keys m)" by (simp flip: inv(2))
  have len: "Mapping.size m = length ks" using lruInv_size [OF assms(1)] by simp
  then have sz: "Mapping.size (Mapping.update k v m) = Suc (length ks)"
    using assms(2) fin by (simp add: size_update)
  show ?thesis
  proof (cases "length ks < cap")
    case True
    then show ?thesis using sz by (subst lruEvict.simps) (simp add: lruPush_def)
  next
    case False
    then have full: "length ks = cap" using inv(3) by simp
    then have ne: "ks \<noteq> []" using assms(3) by auto
    then have "last ks \<in> Mapping.keys m" by (simp flip: inv(2))
    then have sz': "Mapping.size (Mapping.delete (last ks) (Mapping.update k v m)) = cap"
      using sz full by (simp add: size_delete keys_update)
    have "lruEvict cap (lruPush k v l) = lruEvict cap (lruPush k v (m, ks))" by simp
    also have "\<dots> = lruEvict cap (Mapping.delete (last ks) (Mapping.update k v m), k # butlast ks)"
      using ne sz full unfolding lruPush_def by (subst lruEvict.simps) simp
    also have "\<dots> = (Mapping.delete (last ks) (Mapping.update k v m), k # butlast ks)"
      using sz' by (subst lruEvict.simps) simp
    finally show ?thesis using False by simp
  qed
qed

definition lruPut :: "nat \<Rightarrow> 'k \<Rightarrow> 'v \<Rightarrow> ('k, 'v) lru \<Rightarrow> ('k, 'v) lru" where
  "lruPut cap k v l =
     (let l = (if Mapping.lookup (fst l) k \<noteq> None then lruRemove k l else l)
      in lruEvict cap (lruPush k v l))"

lemma keys_lookup: "k \<in> Mapping.keys m \<longleftrightarrow> Mapping.lookup m k \<noteq> None"
  by (simp add: keys_is_none_rep Option.is_none_def)

lemma lruPut_eq:
  assumes "lruInv cap l" "0 < cap"
  obtains l' where "lruInv cap l'" "k \<notin> Mapping.keys (fst l')"
    "\<And>k'. k' \<noteq> k \<Longrightarrow> Mapping.lookup (fst l') k' = Mapping.lookup (fst l) k'"
    "lruPut cap k v l = lruEvict cap (lruPush k v l')"
proof (cases "Mapping.lookup (fst l) k = None")
  case True
  then show ?thesis using assms by (intro that [of l]) (simp_all add: lruPut_def keys_lookup)
next
  case False
  then show ?thesis
    using assms by (intro that [of "lruRemove k l"]) (simp_all add: lruPut_def keys_lookup
        lruRemove_inv lruRemove_lookup)
qed

lemma lruPut_inv:
  assumes "lruInv cap l" "0 < cap"
  shows "lruInv cap (lruPut cap k v l)"
proof -
  obtain l' where l': "lruInv cap l'" "k \<notin> Mapping.keys (fst l')"
    "lruPut cap k v l = lruEvict cap (lruPush k v l')" using lruPut_eq [OF assms] by metis
  show ?thesis
  proof (cases "length (snd l') < cap")
    case True
    then show ?thesis using l' assms(2)
      by (simp add: lruEvict_push) (auto simp: lruInv_def lruPush_def keys_update)
  next
    case False
    then have ne: "snd l' \<noteq> []" using assms(2) by auto
    define ks x where kx: "ks = butlast (snd l')" "x = last (snd l')"
    then have s: "snd l' = ks @ [x]" using ne by simp
    have "distinct (ks @ [x])" "set (ks @ [x]) = Mapping.keys (fst l')" "length (ks @ [x]) \<le> cap"
      using l'(1) s by (simp_all add: lruInv_def)
    then show ?thesis using l' assms(2) False
      by (simp add: lruEvict_push) (auto simp: lruInv_def keys_update keys_delete s)
  qed
qed

lemma lruPut_lookup:
  assumes "lruInv cap l" "0 < cap"
  shows "Mapping.lookup (fst (lruPut cap k v l)) k = Some v"
proof -
  obtain l' where l': "lruInv cap l'" "k \<notin> Mapping.keys (fst l')"
    "lruPut cap k v l = lruEvict cap (lruPush k v l')" using lruPut_eq [OF assms] by metis
  have "\<not> length (snd l') < cap \<Longrightarrow> last (snd l') \<noteq> k"
    using l'(1,2) assms(2) by (metis last_in_set list.size(3) lruInv_def)
  then show ?thesis using l' assms(2)
    by (simp add: lruEvict_push) (auto simp: lruPush_def lookup_delete_if)
qed

lemma lruPut_other:
  assumes "lruInv cap l" "0 < cap" "k' \<noteq> k"
  shows "Mapping.lookup (fst (lruPut cap k v l)) k' \<in> {None, Mapping.lookup (fst l) k'}"
proof -
  obtain l' where l': "lruInv cap l'" "k \<notin> Mapping.keys (fst l')"
    "\<And>k'. k' \<noteq> k \<Longrightarrow> Mapping.lookup (fst l') k' = Mapping.lookup (fst l) k'"
    "lruPut cap k v l = lruEvict cap (lruPush k v l')" using lruPut_eq [OF assms(1,2)] by metis
  then show ?thesis using assms
    by (simp add: lruEvict_push) (auto simp: lruPush_def lookup_delete_if)
qed

section \<open>The contract of a bounded cache\<close>

locale bounded_cache =
  fixes inv :: "'s \<Rightarrow> bool"
    and get :: "'s \<Rightarrow> 'k \<Rightarrow> 'v option"
    and count :: "'s \<Rightarrow> nat"
    and capacity :: "'s \<Rightarrow> nat"
    and insert :: "'k \<Rightarrow> 'v \<Rightarrow> 's \<Rightarrow> 's"
    and remove :: "'k \<Rightarrow> 's \<Rightarrow> 's"
    and touch :: "'k \<Rightarrow> 's \<Rightarrow> 's"
  assumes insert_inv: "inv s \<Longrightarrow> inv (insert k v s)"
    and remove_inv: "inv s \<Longrightarrow> inv (remove k s)"
    and touch_inv: "inv s \<Longrightarrow> get s k \<noteq> None \<Longrightarrow> inv (touch k s)"
    and get_insert: "inv s \<Longrightarrow> get (insert k v s) k = Some v"
    and get_insert_other: "inv s \<Longrightarrow> k' \<noteq> k \<Longrightarrow> get (insert k v s) k' \<in> {None, get s k'}"
    and get_remove: "get (remove k s) k' = (if k' = k then None else get s k')"
    and get_touch: "get (touch k s) = get s"
    and count_bound: "inv s \<Longrightarrow> count s \<le> capacity s"
begin

text \<open>What a cache holds after an insertion was inserted just now or was there before.\<close>

lemma get_insert_cases:
  assumes "inv s" "get (insert k v s) k' = Some w"
  shows "k' = k \<and> w = v \<or> get s k' = Some w"
  using assms get_insert [OF assms(1)] get_insert_other [OF assms(1), of k' k v] by (cases "k' = k") auto

lemma get_remove_SomeD: "get (remove k s) k' = Some w \<Longrightarrow> get s k' = Some w"
  by (simp add: get_remove split: if_splits)

text \<open>Any property of single entries that new entries have is kept by every operation.\<close>

lemma all_insert:
  "inv s \<Longrightarrow> (\<forall>k' w. get s k' = Some w \<longrightarrow> P k' w) \<Longrightarrow> P k v \<Longrightarrow>
     \<forall>k' w. get (insert k v s) k' = Some w \<longrightarrow> P k' w"
  using get_insert_cases by blast

lemma all_remove:
  "(\<forall>k' w. get s k' = Some w \<longrightarrow> P k' w) \<Longrightarrow> \<forall>k' w. get (remove k s) k' = Some w \<longrightarrow> P k' w"
  using get_remove_SomeD by blast

lemma count_insert: "inv s \<Longrightarrow> count (insert k v s) \<le> capacity (insert k v s)"
  by (rule count_bound [OF insert_inv])

end

end
