(* ===== verification/Response_Cache.thy ===== *)
theory Response_Cache
  imports Handlers Lru
begin

text \<open>
  The message cache (\<open>middleware/cache\<close>): the store with its time-to-live arithmetic and
  eviction, and the middleware that answers from it.

  Times are nanoseconds (see the prelude).  \<open>Duration.Seconds\<close> goes through a
  \<open>float64\<close>; for the durations that occur, below \<open>2 ^ 22\<close> seconds, truncating the float is
  the integer division written here.
\<close>

section \<open>The store\<close>

abbreviation (input) defaultMaxEntries :: nat where "defaultMaxEntries \<equiv> 10000"
abbreviation (input) negativeCacheFallbackTTL :: u32 where "negativeCacheFallbackTTL \<equiv> 60"
abbreviation (input) maxCacheTTL :: u32 where "maxCacheTTL \<equiv> 86400"
abbreviation (input) minCacheTTL :: u32 where "minCacheTTL \<equiv> 5"
abbreviation (input) serverFailureTTL :: u32 where "serverFailureTTL \<equiv> 5"
abbreviation (input) anyType :: u16 where "anyType \<equiv> 0"

type_synonym cacheKey = "gostr \<times> u16"

record cacheEntry =
  eKey :: cacheKey
  eRcode :: byte
  eAnswers :: "RR list"
  eAuthorities :: "RR list"
  authentic :: bool
  expiry :: int

record cacheConfig =
  MaxEntries :: int
  MinTTL :: int
  MaxTTL :: int

definition ttlBounds :: "cacheConfig \<Rightarrow> u32 \<times> u32" where
  "ttlBounds c =
     (if MinTTL c > 0 then word_of_int (MinTTL c div second) else minCacheTTL,
      if MaxTTL c > 0 then word_of_int (MaxTTL c div second) else maxCacheTTL)"

record store =
  maxEntries :: nat
  minTTLBound :: u32
  maxTTLBound :: u32
  entries :: "(cacheKey, cacheEntry) mapping"
  order :: "cacheKey list"

definition newStore :: "cacheConfig \<Rightarrow> store" where
  "newStore cfg =
     \<lparr>maxEntries = (if MaxEntries cfg \<le> 0 then defaultMaxEntries else nat (MaxEntries cfg)),
      minTTLBound = fst (ttlBounds cfg), maxTTLBound = snd (ttlBounds cfg),
      entries = Mapping.empty, order = []\<rparr>"

text \<open>The map and the list of a store, and a store with others in their place.\<close>

definition storeLru :: "store \<Rightarrow> (cacheKey, cacheEntry) lru" where
  "storeLru s = (entries s, order s)"

definition withLru :: "store \<Rightarrow> (cacheKey, cacheEntry) lru \<Rightarrow> store" where
  "withLru s l = s\<lparr>entries := fst l, order := snd l\<rparr>"

definition normalizeKey :: "unicode \<Rightarrow> gostr \<Rightarrow> u16 \<Rightarrow> cacheKey" where
  "normalizeKey u name qtype = (ToLower u (trimDot name), qtype)"

definition clampTTL :: "store \<Rightarrow> u32 \<Rightarrow> u32" where
  "clampTTL s ttl = min (max ttl (minTTLBound s)) (maxTTLBound s)"

definition withTTL :: "RR list \<Rightarrow> u32 \<Rightarrow> RR list" where
  "withTTL rrs ttl = map (\<lambda>rr. rr\<lparr>TTL := ttl\<rparr>) rrs"

text \<open>The caller has checked that there is an answer.\<close>

definition minTTL :: "RR list \<Rightarrow> u32" where
  "minTTL rrs = foldl (\<lambda>m rr. if TTL rr < m then TTL rr else m) (TTL (hd rrs)) (tl rrs)"

fun negativeTTLFromSOA :: "RR list \<Rightarrow> u32 \<Rightarrow> u32" where
  "negativeTTLFromSOA [] fallback = fallback"
| "negativeTTLFromSOA (rr # rrs) fallback =
     (case rrSOA rr of
        Some soa \<Rightarrow>
          (if rrType rr = TypeSOA then (if Minimum soa < TTL rr then Minimum soa else TTL rr)
           else negativeTTLFromSOA rrs fallback)
      | None \<Rightarrow> negativeTTLFromSOA rrs fallback)"

text \<open>The loop of \<open>enclosingNXDOMAIN\<close>; what follows the first dot is the next name.\<close>

function enclosingLoop :: "(cacheKey, 'e) mapping \<Rightarrow> gostr \<Rightarrow> 'e option" where
  "enclosingLoop m rest =
     (case Mapping.lookup m (rest, anyType) of
        Some e \<Rightarrow> Some e
      | None \<Rightarrow> (case cutDot rest of (_, after, found) \<Rightarrow>
          if found then enclosingLoop m after else None))"
  by pat_completeness auto
termination
  by (relation "measure (\<lambda>(m, rest). length rest)") (auto dest!: sym [of "(_, _, _)"] cutDot_shorter)

declare enclosingLoop.simps [simp del]

definition enclosingNXDOMAIN :: "unicode \<Rightarrow> store \<Rightarrow> gostr \<Rightarrow> cacheEntry option" where
  "enclosingNXDOMAIN u s name = enclosingLoop (entries s) (fst (normalizeKey u name anyType))"

text \<open>A hit is the response code, the two sections and whether they were validated.\<close>

type_synonym hit = "byte \<times> RR list \<times> RR list \<times> bool"

definition lookup :: "unicode \<Rightarrow> store \<Rightarrow> gostr \<Rightarrow> u16 \<Rightarrow> int \<Rightarrow> store \<times> hit option" where
  "lookup u s name qtype now =
     (case (case Mapping.lookup (entries s) (normalizeKey u name qtype) of
              Some e \<Rightarrow> Some e | None \<Rightarrow> enclosingNXDOMAIN u s name) of
        None \<Rightarrow> (s, None)
      | Some e \<Rightarrow>
          let k = eKey e; remaining = expiry e - now in
          if remaining \<le> 0 then (withLru s (lruRemove k (storeLru s)), None)
          else let ttl = (word_of_int (remaining div second) :: u32);
                   ttl = (if ttl = 0 then 1 else ttl)
            in (withLru s (lruFront k (storeLru s)),
                Some (eRcode e, withTTL (eAnswers e) ttl, withTTL (eAuthorities e) ttl, authentic e)))"

text \<open>The switch of \<open>put\<close>: the key's type and the TTL, or nothing to cache.\<close>

definition cacheable :: "u16 \<Rightarrow> byte \<Rightarrow> RR list \<Rightarrow> RR list \<Rightarrow> (u16 \<times> u32) option" where
  "cacheable qtype rcode answers authorities =
     (if rcode = RCodeNameError then
        Some (anyType, negativeTTLFromSOA authorities negativeCacheFallbackTTL)
      else if rcode = RCodeSuccess \<and> answers \<noteq> [] then Some (qtype, minTTL answers)
      else if rcode = RCodeSuccess then
        Some (qtype, negativeTTLFromSOA authorities negativeCacheFallbackTTL)
      else if rcode = RCodeServerFailure then Some (qtype, serverFailureTTL)
      else None)"

definition put ::
  "unicode \<Rightarrow> store \<Rightarrow> gostr \<Rightarrow> u16 \<Rightarrow> byte \<Rightarrow> RR list \<Rightarrow> RR list \<Rightarrow> bool \<Rightarrow> int \<Rightarrow> store" where
  "put u s name qtype rcode answers authorities auth now =
     (case cacheable qtype rcode answers authorities of
        None \<Rightarrow> s
      | Some (qtype, ttl) \<Rightarrow>
          if ttl = 0 then s
          else let ttl = clampTTL s ttl;
                   k = normalizeKey u name qtype;
                   l = (if Mapping.lookup (entries s) k \<noteq> None then lruRemove k (storeLru s)
                        else storeLru s);
                   e = \<lparr>eKey = k, eRcode = rcode, eAnswers = answers, eAuthorities = authorities,
                        authentic = auth, expiry = now + seconds ttl\<rparr>
            in withLru s (lruEvict (maxEntries s) (lruPush k e l)))"

section \<open>The middleware\<close>

definition capTTLs :: "u32 \<Rightarrow> RR list \<Rightarrow> RR list" where
  "capTTLs maxTTL rrs =
     (if \<not> list_ex (\<lambda>rr. TTL rr > maxTTL) rrs then rrs
      else map (\<lambda>rr. rr\<lparr>TTL := min (TTL rr) maxTTL\<rparr>) rrs)"

text \<open>What \<open>recordingWriter.WriteMsg\<close> passes on to the client.\<close>

definition cappedMsg :: "u32 \<Rightarrow> Message \<Rightarrow> Message" where
  "cappedMsg maxTTL msg =
     msg\<lparr>Answers := capTTLs maxTTL (Answers msg), Authorities := capTTLs maxTTL (Authorities msg)\<rparr>"

definition cachedReply :: "Message \<Rightarrow> hit \<Rightarrow> Message" where
  "cachedReply req hit =
     (case hit of (rcode, answers, authorities, auth) \<Rightarrow>
        (reply (zeroHeader\<lparr>ID := ID (header req), QR := True, RD := RD (header req), RA := True,
                 AD := auth, RCode := rcode\<rparr>) (Questions req))
          \<lparr>Answers := answers, Authorities := authorities\<rparr>)"

text \<open>
  \<open>handler.ServeDNS\<close>.  \<open>clock\<close> reads the time of the world; the wrapped handler may let it
  pass.  The message recorded is the last one the wrapped handler wrote.
\<close>

definition cacheServe :: "unicode \<Rightarrow> ('w \<Rightarrow> int) \<Rightarrow> 'w handler \<Rightarrow> (store \<times> 'w) handler" where
  "cacheServe u clock next addr req sw =
     (case sw of (s, w) \<Rightarrow>
        if length (Questions req) \<noteq> 1 \<or> CD (header req) then
          (case next addr req w of (msgs, w') \<Rightarrow> (msgs, (s, w')))
        else let q = hd (Questions req) in
          case lookup u s (qName q) (qType q) (clock w) of
            (s', Some hit) \<Rightarrow> ([cachedReply req hit], (s', w))
          | (s', None) \<Rightarrow>
              (case next addr req w of (msgs, w') \<Rightarrow>
                 (map (cappedMsg (maxTTLBound s')) msgs,
                  (if msgs = [] then s'
                   else let m = last msgs in
                     put u s' (qName q) (qType q) (RCode (header m)) (Answers m) (Authorities m)
                       (AD (header m)) (clock w'), w'))))"

end
