(* ===== verification/Cache_Facts.thy ===== *)
theory Cache_Facts
  imports Response_Cache
begin

text \<open>
  What the message cache guarantees: the store is a bounded cache, whatever it answers was
  put into it and has not expired, times to live stay inside the configured bounds, and
  queries with CD pass it by.
\<close>

section \<open>The store as a bounded cache\<close>

definition storeInv :: "store \<Rightarrow> bool" where
  "storeInv s = (0 < maxEntries s \<and> lruInv (maxEntries s) (storeLru s))"

definition storeGet :: "store \<Rightarrow> cacheKey \<Rightarrow> cacheEntry option" where
  "storeGet s k = Mapping.lookup (entries s) k"

definition storeInsert :: "cacheKey \<Rightarrow> cacheEntry \<Rightarrow> store \<Rightarrow> store" where
  "storeInsert k e s = withLru s (lruPut (maxEntries s) k e (storeLru s))"

definition storeRemove :: "cacheKey \<Rightarrow> store \<Rightarrow> store" where
  "storeRemove k s = withLru s (lruRemove k (storeLru s))"

definition storeTouch :: "cacheKey \<Rightarrow> store \<Rightarrow> store" where
  "storeTouch k s = withLru s (lruFront k (storeLru s))"

lemma withLru_simps [simp]:
  "maxEntries (withLru s l) = maxEntries s" "minTTLBound (withLru s l) = minTTLBound s"
  "maxTTLBound (withLru s l) = maxTTLBound s" "entries (withLru s l) = fst l"
  "storeLru (withLru s l) = l"
  by (simp_all add: withLru_def storeLru_def)

lemma fst_storeLru [simp]: "fst (storeLru s) = entries s"
  by (simp add: storeLru_def)

interpretation message_store: bounded_cache storeInv storeGet "\<lambda>s. Mapping.size (entries s)" maxEntries
  storeInsert storeRemove storeTouch
proof unfold_locales
  fix s :: store and k k' :: cacheKey and v :: cacheEntry
  show "storeInv s \<Longrightarrow> storeInv (storeInsert k v s)"
    by (simp add: storeInv_def storeInsert_def lruPut_inv)
  show "storeInv s \<Longrightarrow> storeInv (storeRemove k s)"
    by (simp add: storeInv_def storeRemove_def lruRemove_inv)
  show "storeInv s \<Longrightarrow> storeGet s k \<noteq> None \<Longrightarrow> storeInv (storeTouch k s)"
    by (simp add: storeInv_def storeTouch_def storeGet_def lruFront_inv keys_lookup)
  show "storeInv s \<Longrightarrow> storeGet (storeInsert k v s) k = Some v"
    by (simp add: storeInv_def storeInsert_def storeGet_def lruPut_lookup)
  show "storeInv s \<Longrightarrow> k' \<noteq> k \<Longrightarrow> storeGet (storeInsert k v s) k' \<in> {None, storeGet s k'}"
    using lruPut_other [of "maxEntries s" "storeLru s" k' k v]
    by (simp add: storeInv_def storeInsert_def storeGet_def)
  show "storeGet (storeRemove k s) k' = (if k' = k then None else storeGet s k')"
    by (simp add: storeRemove_def storeGet_def lruRemove_lookup)
  show "storeGet (storeTouch k s) = storeGet s"
    by (rule ext) (simp add: storeTouch_def storeGet_def lruFront_def)
  show "storeInv s \<Longrightarrow> Mapping.size (entries s) \<le> maxEntries s"
    using lruInv_size [of "maxEntries s" "storeLru s"] by (simp add: storeInv_def lruInv_def)
qed

lemma newStore_inv: "storeInv (newStore cfg)"
  by (auto simp: storeInv_def newStore_def storeLru_def lruInv_def)

section \<open>What the operations do\<close>

definition newEntry :: "store \<Rightarrow> cacheKey \<Rightarrow> byte \<Rightarrow> RR list \<Rightarrow> RR list \<Rightarrow> bool \<Rightarrow> int \<Rightarrow> u32 \<Rightarrow> cacheEntry" where
  "newEntry s k rcode answers authorities auth now ttl =
     \<lparr>eKey = k, eRcode = rcode, eAnswers = answers, eAuthorities = authorities,
      authentic = auth, expiry = now + seconds (clampTTL s ttl)\<rparr>"

lemma put_cases:
  "put u s name qtype rcode ans auths auth now =
     (case cacheable qtype rcode ans auths of
        None \<Rightarrow> s
      | Some (t, ttl) \<Rightarrow> if ttl = 0 then s
          else storeInsert (normalizeKey u name t)
                 (newEntry s (normalizeKey u name t) rcode ans auths auth now ttl) s)"
  by (simp add: put_def storeInsert_def newEntry_def lruPut_def Let_def split: option.splits)

definition found :: "unicode \<Rightarrow> store \<Rightarrow> gostr \<Rightarrow> u16 \<Rightarrow> cacheEntry option" where
  "found u s name qtype =
     (case storeGet s (normalizeKey u name qtype) of
        Some e \<Rightarrow> Some e | None \<Rightarrow> enclosingNXDOMAIN u s name)"

definition hitTTL :: "cacheEntry \<Rightarrow> int \<Rightarrow> u32" where
  "hitTTL e now = (let ttl = (word_of_int ((expiry e - now) div second) :: u32) in if ttl = 0 then 1 else ttl)"

lemma lookup_cases:
  "lookup u s name qtype now =
     (case found u s name qtype of
        None \<Rightarrow> (s, None)
      | Some e \<Rightarrow>
          if expiry e \<le> now then (storeRemove (eKey e) s, None)
          else (storeTouch (eKey e) s,
                Some (eRcode e, withTTL (eAnswers e) (hitTTL e now), withTTL (eAuthorities e) (hitTTL e now),
                      authentic e)))"
  unfolding lookup_def found_def storeGet_def storeRemove_def storeTouch_def hitTTL_def Let_def
  by (simp split: option.split)

text \<open>The ancestors whose denial answers for a name: what is left after cutting labels.\<close>

definition dotSuffix :: "gostr \<Rightarrow> gostr \<Rightarrow> bool" where
  "dotSuffix z n = (n = z \<or> HasSuffix n (dot # z))"

lemma enclosingLoop_Some:
  "enclosingLoop m rest = Some e \<Longrightarrow> \<exists>z. dotSuffix z rest \<and> Mapping.lookup m (z, anyType) = Some e"
proof (induction m rest rule: enclosingLoop.induct)
  case (1 m rest)
  obtain a b f where c: "cutDot rest = (a, b, f)" by (cases "cutDot rest") auto
  show ?case
  proof (cases "Mapping.lookup m (rest, anyType)")
    case (Some e')
    then show ?thesis using 1(2) by (subst (asm) enclosingLoop.simps) (auto simp: dotSuffix_def)
  next
    case None
    then have f: "f" and loop: "enclosingLoop m b = Some e"
      using 1(2) c by (subst (asm) enclosingLoop.simps, auto split: if_splits)+
    obtain z where z: "dotSuffix z b" "Mapping.lookup m (z, anyType) = Some e"
      using 1(1) [OF None c [symmetric]] f loop by auto
    have "rest = a @ dot # b" using c f cutDot_split by simp
    then have "dotSuffix z rest" using z(1) by (auto simp: dotSuffix_def HasSuffix_iff suffix_def)
    then show ?thesis using z(2) by blast
  qed
qed

lemma found_Some:
  assumes "found u s name qtype = Some e"
  shows "\<exists>z t. storeGet s (z, t) = Some e \<and>
    ((z, t) = normalizeKey u name qtype \<or> t = anyType \<and> dotSuffix z (fst (normalizeKey u name qtype)))"
  using assms enclosingLoop_Some [of "entries s" "fst (normalizeKey u name anyType)" e]
  by (fastforce simp: found_def enclosingNXDOMAIN_def storeGet_def normalizeKey_def split: option.splits)

section \<open>Histories\<close>

text \<open>
  A store as it is used: any number of requests look things up and put answers in, in any
  order.  \<open>storeRun u h s\<close> says that \<open>s\<close> is reached with the insertions \<open>h\<close>.
\<close>

datatype insertion = Insertion (insName: gostr) (insType: u16) (insRcode: byte)
  (insAnswers: "RR list") (insAuthorities: "RR list") (insAuthentic: bool) (insTime: int)

inductive storeRun :: "unicode \<Rightarrow> insertion set \<Rightarrow> store \<Rightarrow> bool" for u where
  start: "storeRun u {} (newStore cfg)"
| put: "storeRun u h s \<Longrightarrow>
    storeRun u (insert (Insertion name qtype rcode ans auths auth now) h)
      (put u s name qtype rcode ans auths auth now)"
| lookup: "storeRun u h s \<Longrightarrow> storeRun u h (fst (lookup u s name qtype now))"

inductive_cases storeRun_emptyE: "storeRun u {} s"

text \<open>Where an entry comes from: an insertion with its key, its data and its time to live.\<close>

definition insertedBy :: "unicode \<Rightarrow> insertion set \<Rightarrow> store \<Rightarrow> cacheKey \<Rightarrow> cacheEntry \<Rightarrow> bool" where
  "insertedBy u h s k e = (\<exists>i\<in>h. \<exists>t ttl.
     cacheable (insType i) (insRcode i) (insAnswers i) (insAuthorities i) = Some (t, ttl) \<and> ttl \<noteq> 0 \<and>
     k = normalizeKey u (insName i) t \<and>
     e = newEntry s k (insRcode i) (insAnswers i) (insAuthorities i) (insAuthentic i) (insTime i) ttl)"

lemma insertedBy_mono: "insertedBy u h s k e \<Longrightarrow> insertedBy u (insert i h) s k e"
  unfolding insertedBy_def by blast

lemma bounds_unchanged [simp]:
  "clampTTL (storeInsert k e s) = clampTTL s" "clampTTL (storeRemove k s) = clampTTL s"
  "clampTTL (storeTouch k s) = clampTTL s"
  "maxTTLBound (storeInsert k e s) = maxTTLBound s" "maxTTLBound (storeRemove k s) = maxTTLBound s"
  "maxTTLBound (storeTouch k s) = maxTTLBound s"
  by (auto simp: clampTTL_def storeInsert_def storeRemove_def storeTouch_def fun_eq_iff)

lemma insertedBy_ops [simp]:
  "insertedBy u h (storeInsert k e s) = insertedBy u h s"
  "insertedBy u h (storeRemove k s) = insertedBy u h s"
  "insertedBy u h (storeTouch k s) = insertedBy u h s"
  by (auto simp: insertedBy_def newEntry_def fun_eq_iff)

abbreviation allInserted :: "unicode \<Rightarrow> insertion set \<Rightarrow> store \<Rightarrow> bool" where
  "allInserted u h s \<equiv> \<forall>k e. storeGet s k = Some e \<longrightarrow> insertedBy u h s k e"

lemma eKey_inserted: "insertedBy u h s k e \<Longrightarrow> eKey e = k"
  by (auto simp: insertedBy_def newEntry_def)

lemma storeRun_put_step:
  assumes "storeInv s" "allInserted u h s"
    and s'_def: "s' = put u s name qtype rcode ans auths auth now"
  shows "storeInv s' \<and> allInserted u (insert (Insertion name qtype rcode ans auths auth now) h) s'"
proof -
  let ?i = "Insertion name qtype rcode ans auths auth now"
  have old: "allInserted u (insert ?i h) s" using assms(2) insertedBy_mono by blast
  show ?thesis
  proof (cases "\<exists>t ttl. cacheable qtype rcode ans auths = Some (t, ttl) \<and> ttl \<noteq> 0")
    case True
    then obtain t ttl where c: "cacheable qtype rcode ans auths = Some (t, ttl)" "ttl \<noteq> 0" by blast
    define k where "k = normalizeKey u name t"
    define e where "e = newEntry s k rcode ans auths auth now ttl"
    have s': "s' = storeInsert k e s" using c by (simp add: s'_def put_cases k_def e_def)
    have "insertedBy u (insert ?i h) s k e"
      unfolding insertedBy_def by (rule bexI [of _ ?i]) (use c k_def e_def in auto)
    from message_store.all_insert [where P = "insertedBy u (insert ?i h) s", OF assms(1) old this]
    show ?thesis using message_store.insert_inv [OF assms(1)] by (simp add: s')
  next
    case False
    then have "s' = s" by (auto simp: s'_def put_cases split: option.split)
    then show ?thesis using assms(1) old by simp
  qed
qed

lemma storeRun_lookup_step:
  assumes "storeInv s" "allInserted u h s"
    and s'_def: "s' = fst (lookup u s name qtype now)"
  shows "storeInv s' \<and> allInserted u h s'"
proof (cases "found u s name qtype")
  case None
  then show ?thesis using assms by (simp add: lookup_cases)
next
  case (Some e)
  obtain k where k: "storeGet s k = Some e" using found_Some [OF Some] by blast
  then have "eKey e = k" using assms(2) eKey_inserted by blast
  moreover have "s' = storeRemove k s \<or> s' = storeTouch k s"
    using Some calculation by (simp add: s'_def lookup_cases)
  ultimately show ?thesis
    using message_store.remove_inv [OF assms(1), of k] message_store.touch_inv [OF assms(1), of k] k assms(2)
      message_store.all_remove [where P = "insertedBy u h s", OF assms(2), of k]
    by (auto simp: message_store.get_touch)
qed

lemma storeRun_inv: "storeRun u h s \<Longrightarrow> storeInv s \<and> allInserted u h s"
proof (induction rule: storeRun.induct)
  case (start cfg)
  then show ?case using newStore_inv by (auto simp: storeGet_def newStore_def)
next
  case (put h s name qtype rcode ans auths auth now)
  then show ?case using storeRun_put_step [OF _ _ refl, of s u h] by blast
next
  case (lookup h s name qtype now)
  then show ?case using storeRun_lookup_step [OF _ _ refl, of s u h] by blast
qed

section \<open>Times to live\<close>

lemma hitTTL_value:
  assumes "now < expiry e" "expiry e - now < 2 ^ 32 * second"
  shows "uint (hitTTL e now) = max 1 ((expiry e - now) div second)"
proof -
  let ?q = "(expiry e - now) div second"
  have q: "0 \<le> ?q" "?q < 2 ^ 32" using assms by (auto simp: second_def)
  then have u: "uint (word_of_int ?q :: u32) = ?q" by (simp add: uint_word_of_int)
  then have "(word_of_int ?q :: u32) = 0 \<longleftrightarrow> ?q = 0" by (metis uint_0_iff)
  then show ?thesis using q u by (auto simp: hitTTL_def Let_def)
qed

lemma seconds_bound: "0 \<le> seconds t \<and> seconds t < 2 ^ 32 * second"
  using uint_lt2p [of t] by (auto simp: seconds_def second_def)

lemma clampTTL_le: "clampTTL s t \<le> maxTTLBound s"
  by (simp add: clampTTL_def)

lemma seconds_mono: "a \<le> b \<Longrightarrow> seconds a \<le> seconds b"
  by (simp add: seconds_def second_def word_le_def)

section \<open>Entries that answer for a subtree\<close>

lemma cutDot_first: "cutDot s = (a, b, f) \<Longrightarrow> dot \<notin> set a \<and> (if f then s = a @ dot # b else s = a)"
  by (induction s arbitrary: a b f) (auto split: if_splits prod.splits)

lemma dotSuffix_refl [simp]: "dotSuffix z z"
  by (simp add: dotSuffix_def)

lemma dotSuffix_trans: "dotSuffix a b \<Longrightarrow> dotSuffix b c \<Longrightarrow> dotSuffix a c"
  by (auto simp: dotSuffix_def HasSuffix_iff suffix_def)

lemma cutDot_above:
  assumes "dotSuffix z rest" "z \<noteq> rest"
  shows "\<exists>a b. cutDot rest = (a, b, True) \<and> dotSuffix z b \<and> dotSuffix b rest"
proof -
  obtain p where p: "rest = p @ dot # z"
    using assms by (auto simp: dotSuffix_def HasSuffix_iff suffix_def)
  obtain a b f where c: "cutDot rest = (a, b, f)" by (cases "cutDot rest") auto
  note first = cutDot_first [OF c]
  then have f: "f" using p by (auto split: if_splits)
  with first have ab: "p @ dot # z = a @ dot # b" "dot \<notin> set a" using p by auto
  then have "dotSuffix z b"
    by (auto simp: append_eq_append_conv2 Cons_eq_append_conv append_eq_Cons_conv dotSuffix_def
        HasSuffix_iff suffix_def)
  moreover have "dotSuffix b rest" using first f by (auto simp: dotSuffix_def HasSuffix_iff suffix_def)
  ultimately show ?thesis using c f by simp
qed

lemma enclosingLoop_finds:
  assumes "dotSuffix z rest" "Mapping.lookup m (z, anyType) = Some e"
    and "\<And>w. dotSuffix w rest \<Longrightarrow> w \<noteq> z \<Longrightarrow> Mapping.lookup m (w, anyType) = None"
  shows "enclosingLoop m rest = Some e"
  using assms
proof (induction m rest rule: enclosingLoop.induct)
  case (1 m rest)
  show ?case
  proof (cases "z = rest")
    case True
    then show ?thesis using 1(3) by (subst enclosingLoop.simps) simp
  next
    case False
    then have none: "Mapping.lookup m (rest, anyType) = None" using 1(4) by simp
    obtain a b where c: "cutDot rest = (a, b, True)" "dotSuffix z b" "dotSuffix b rest"
      using cutDot_above [OF 1(2) False] by blast
    have "enclosingLoop m b = Some e"
      by (rule 1(1) [OF none c(1) [symmetric] refl TrueI c(2) 1(3)]) (use 1(4) c(3) dotSuffix_trans in blast)
    then show ?thesis using none c(1) by (subst enclosingLoop.simps) simp
  qed
qed

lemma found_below:
  assumes "storeInv s" "dotSuffix z (fst (normalizeKey u n qtype))"
    and "storeGet s (normalizeKey u n qtype) = None" "(z, anyType) \<noteq> normalizeKey u n qtype"
    and "\<And>w. dotSuffix w (fst (normalizeKey u n qtype)) \<Longrightarrow> storeGet s (w, anyType) = None"
  shows "found u (storeInsert (z, anyType) e s) n qtype = Some e"
proof -
  have other: "k \<noteq> (z, anyType) \<Longrightarrow> storeGet s k = None \<Longrightarrow> storeGet (storeInsert (z, anyType) e s) k = None" for k
    using message_store.get_insert_other [OF assms(1), of k "(z, anyType)" e] by auto
  have "enclosingLoop (entries (storeInsert (z, anyType) e s)) (fst (normalizeKey u n anyType)) = Some e"
  proof (rule enclosingLoop_finds)
    show "dotSuffix z (fst (normalizeKey u n anyType))" using assms(2) by (simp add: normalizeKey_def)
    show "Mapping.lookup (entries (storeInsert (z, anyType) e s)) (z, anyType) = Some e"
      using message_store.get_insert [OF assms(1)] by (simp add: storeGet_def)
    show "Mapping.lookup (entries (storeInsert (z, anyType) e s)) (w, anyType) = None"
      if "dotSuffix w (fst (normalizeKey u n anyType))" "w \<noteq> z" for w
      using other [of "(w, anyType)"] assms(5) [of w] that by (simp add: storeGet_def normalizeKey_def)
  qed
  moreover have "storeGet (storeInsert (z, anyType) e s) (normalizeKey u n qtype) = None"
    by (rule other [OF assms(4) [symmetric] assms(3)])
  ultimately show ?thesis unfolding found_def enclosingNXDOMAIN_def by (simp only: option.case)
qed

lemma subtree_lookup:
  assumes "storeRun u h s" "cacheable t0 rc ans auths = Some (anyType, ttl)" "ttl \<noteq> 0"
    and "now < time + seconds (clampTTL s ttl)"
    and "dotSuffix (fst (normalizeKey u z anyType)) (fst (normalizeKey u n qtype))"
    and "normalizeKey u n qtype \<noteq> normalizeKey u z anyType"
    and "storeGet s (normalizeKey u n qtype) = None"
    and "\<And>w. dotSuffix w (fst (normalizeKey u n qtype)) \<Longrightarrow> storeGet s (w, anyType) = None"
  shows "\<exists>s' k. lookup u (put u s z t0 rc ans auths auth time) n qtype now =
    (s', Some (rc, withTTL ans k, withTTL auths k, auth))"
proof -
  define key where "key = normalizeKey u z anyType"
  define e where "e = newEntry s key rc ans auths auth time ttl"
  have p: "put u s z t0 rc ans auths auth time = storeInsert key e s"
    using assms(2,3) by (simp add: put_cases key_def e_def)
  have k: "key = (fst key, anyType)" by (simp add: key_def normalizeKey_def)
  have "found u (storeInsert (fst key, anyType) e s) n qtype = Some e"
    using assms(5-8) k storeRun_inv [OF assms(1)] by (intro found_below) (simp_all add: key_def)
  then have "found u (storeInsert key e s) n qtype = Some e" using k by simp
  then show ?thesis using assms(4) unfolding p
    by (intro exI [of _ "storeTouch (eKey e) (storeInsert key e s)"] exI [of _ "hitTTL e now"])
      (simp add: lookup_cases e_def newEntry_def)
qed

lemma capTTLs_le: "rr \<in> set (capTTLs m rrs) \<Longrightarrow> TTL rr \<le> m"
  by (auto simp: capTTLs_def list_ex_iff split: if_splits)

lemma hitTTL_le:
  assumes "now < expiry e" "expiry e \<le> now + seconds m"
  shows "uint (hitTTL e now) \<le> max 1 (uint m)"
proof -
  have "uint (hitTTL e now) = max 1 ((expiry e - now) div second)"
    using assms seconds_bound [of m] by (intro hitTTL_value) simp_all
  moreover have "(expiry e - now) div second \<le> seconds m div second"
    using assms(2) by (intro zdiv_mono1) (simp_all add: second_def)
  moreover have "seconds m div second = uint m" by (simp add: seconds_def second_def)
  ultimately show ?thesis by simp
qed

section \<open>Properties\<close>

text \<open>
  (C28) The cache is bounded and its two halves agree: after any sequence of insertions and
  lookups there are at most \<open>maxEntries\<close> entries, and the recency list holds every key of the
  map exactly once.
\<close>

theorem cache_bounded:
  assumes "storeRun u h s"
  shows "Mapping.size (entries s) \<le> maxEntries s \<and> distinct (order s)
    \<and> set (order s) = Mapping.keys (entries s)"
  using storeRun_inv [OF assms] message_store.count_bound [of s]
  by (simp add: storeInv_def lruInv_def storeLru_def)

definition smallConfig :: cacheConfig where
  "smallConfig = \<lparr>MaxEntries = 1, MinTTL = 0, MaxTTL = 0\<rparr>"

theorem cache_bounded_witness:
  "Mapping.size (entries (put plainUnicode (put plainUnicode (newStore smallConfig)
     (lit ''a.com'') 1 2 [] [] False 0) (lit ''b.com'') 1 2 [] [] False 0)) \<le> 1"
proof -
  let ?s = "put plainUnicode (put plainUnicode (newStore smallConfig) (lit ''a.com'') 1 2 [] [] False 0)
    (lit ''b.com'') 1 2 [] [] False 0"
  have "storeRun plainUnicode {Insertion (lit ''b.com'') 1 2 [] [] False 0, Insertion (lit ''a.com'') 1 2 [] [] False 0} ?s"
    by (intro storeRun.intros)
  from cache_bounded [OF this] have "Mapping.size (entries ?s) \<le> maxEntries ?s" by blast
  moreover have "maxEntries ?s = 1" by code_simp
  ultimately show ?thesis by simp
qed



text \<open>
  A lookup right after an insertion, before its clamped time to live has run out, returns
  what was inserted, with the seconds that are left as the TTL of every record, rounded down
  but never to zero.
\<close>

theorem lookup_after_put:
  assumes "storeRun u h s" "cacheable qtype rc ans auths = Some (qtype, ttl)" "ttl \<noteq> 0"
    and "t0 \<le> t1" "t1 < t0 + seconds (clampTTL s ttl)"
  shows "\<exists>s' k. lookup u (put u s name qtype rc ans auths auth t0) name qtype t1 =
      (s', Some (rc, withTTL ans k, withTTL auths k, auth)) \<and>
    uint k = max 1 ((t0 + seconds (clampTTL s ttl) - t1) div second)"
proof -
  define key where "key = normalizeKey u name qtype"
  define e where "e = newEntry s key rc ans auths auth t0 ttl"
  have p: "put u s name qtype rc ans auths auth t0 = storeInsert key e s"
    using assms(2,3) by (simp add: put_cases key_def e_def)
  have "storeGet (storeInsert key e s) key = Some e"
    using storeRun_inv [OF assms(1)] message_store.get_insert by blast
  then have f: "found u (storeInsert key e s) name qtype = Some e" by (simp add: found_def key_def)
  have ex: "expiry e = t0 + seconds (clampTTL s ttl)" by (simp add: e_def newEntry_def)
  have "uint (hitTTL e t1) = max 1 ((expiry e - t1) div second)"
    using assms(4,5) seconds_bound [of "clampTTL s ttl"] ex by (intro hitTTL_value) simp_all
  then show ?thesis using f assms(5) ex unfolding p
    by (auto simp: lookup_cases e_def newEntry_def)
qed

theorem lookup_after_put_witness:
  "\<exists>s' k. lookup plainUnicode (put plainUnicode (newStore smallConfig) (lit ''a.com'') 1 2 [] [] False 0)
     (lit ''a.com'') 1 (3 * second) = (s', Some (2, withTTL [] k, withTTL [] k, False)) \<and> uint k = 2"
  using lookup_after_put [OF storeRun.start, of 1 2 "[]" "[]" 5 0 "3 * second" smallConfig plainUnicode "lit ''a.com''" False]
  by (simp add: cacheable_def newStore_def ttlBounds_def smallConfig_def clampTTL_def seconds_def second_def)

text \<open>
  A name that does not exist has no descendants (RFC 8020).  Once a response stored under
  type zero, which is every NXDOMAIN whatever type was asked for, is in the cache, it answers
  for every name at or below its own, of every type, until it expires, unless the cache holds
  something closer.
\<close>

theorem subtree_answer:
  assumes "storeRun u h s" "cacheable t0 rc ans auths = Some (anyType, ttl)" "ttl \<noteq> 0"
    and "now < time + seconds (clampTTL s ttl)"
    and "dotSuffix (fst (normalizeKey u z anyType)) (fst (normalizeKey u n qtype))"
    and "normalizeKey u n qtype \<noteq> normalizeKey u z anyType"
    and "storeGet s (normalizeKey u n qtype) = None"
    and "\<And>w. dotSuffix w (fst (normalizeKey u n qtype)) \<Longrightarrow> storeGet s (w, anyType) = None"
  shows "\<exists>s' k. lookup u (put u s z t0 rc ans auths auth time) n qtype now =
    (s', Some (rc, withTTL ans k, withTTL auths k, auth))"
  using assms by (rule subtree_lookup)

theorem subtree_answer_witness:
  "\<exists>s' k. lookup plainUnicode (put plainUnicode (newStore smallConfig) (lit ''gone.com'') 1 3 [] [] True 0)
     (lit ''a.gone.com'') 28 59 = (s', Some (3, withTTL [] k, withTTL [] k, True))"
proof (rule subtree_answer [where h = "{}" and ttl = 60])
  show "storeRun plainUnicode {} (newStore smallConfig)" by (rule storeRun.start)
  show "cacheable 1 3 [] [] = Some (anyType, 60)" by (simp add: cacheable_def)
  show "(59::int) < 0 + seconds (clampTTL (newStore smallConfig) 60)"
    by (simp add: newStore_def ttlBounds_def smallConfig_def clampTTL_def seconds_def second_def)
  show "dotSuffix (fst (normalizeKey plainUnicode (lit ''gone.com'') 0)) (fst (normalizeKey plainUnicode (lit ''a.gone.com'') 28))"
    by code_simp
  show "normalizeKey plainUnicode (lit ''a.gone.com'') 28 \<noteq> normalizeKey plainUnicode (lit ''gone.com'') 0" by code_simp
qed (simp_all add: storeGet_def newStore_def)

text \<open>
  A query for type zero.  Nothing keeps a client from asking for the type the cache uses for
  \<open>NXDOMAIN\<close>.  If such a query for \<open>z\<close> fails, the failure is stored as the answer for the
  whole subtree: the next query for any name below \<open>z\<close> is answered with the failure, without
  asking anyone.
\<close>

theorem typezero_query_fails_subtree:
  assumes "storeRun u h s" "Questions req0 = [q0]" "qType q0 = 0" "\<not> CD (header req0)"
    and "Questions req1 = [q1]" "\<not> CD (header req1)"
    and "dotSuffix (fst (normalizeKey u (qName q0) 0)) (fst (normalizeKey u (qName q1) (qType q1)))"
    and "normalizeKey u (qName q1) (qType q1) \<noteq> normalizeKey u (qName q0) 0"
    and "storeGet s (normalizeKey u (qName q1) (qType q1)) = None"
    and "\<And>w. dotSuffix w (fst (normalizeKey u (qName q1) (qType q1))) \<Longrightarrow> storeGet s (w, 0) = None"
    and "next addr0 req0 w0 = ([m], w1)" "RCode (header m) = RCodeServerFailure"
    and "clock w2 < clock w1 + seconds (clampTTL s serverFailureTTL)"
  shows "\<exists>s1 s2 k. cacheServe u clock next addr0 req0 (s, w0) = ([cappedMsg (maxTTLBound s) m], (s1, w1)) \<and>
    cacheServe u clock next addr1 req1 (s1, w2) =
      ([cachedReply req1 (RCodeServerFailure, withTTL (Answers m) k, withTTL (Authorities m) k, AD (header m))], (s2, w2))"
proof -
  let ?k0 = "fst (normalizeKey u (qName q0) 0)" and ?k1 = "fst (normalizeKey u (qName q1) (qType q1))"
  have k0: "normalizeKey u (qName q0) 0 = (?k0, 0)" by (simp add: normalizeKey_def)
  have above: "storeGet s (w, 0) = None" if "dotSuffix w ?k0" for w
    using assms(10) dotSuffix_trans [OF that assms(7)] by blast
  have "found u s (qName q0) 0 = None"
  proof (rule ccontr)
    assume "found u s (qName q0) 0 \<noteq> None"
    then obtain e z t where "storeGet s (z, t) = Some e" "(z, t) = (?k0, 0) \<or> t = anyType \<and> dotSuffix z ?k0"
      using found_Some [of u s "qName q0" 0] k0 by (metis not_None_eq)
    then show False using above [of z] by auto
  qed
  then have 1: "lookup u s (qName q0) (qType q0) (clock w0) = (s, None)"
    using assms(3) by (simp add: lookup_cases)
  let ?s1 = "put u s (qName q0) 0 RCodeServerFailure (Answers m) (Authorities m) (AD (header m)) (clock w1)"
  have c: "cacheable 0 RCodeServerFailure (Answers m) (Authorities m) = Some (0, serverFailureTTL)"
    by (simp add: cacheable_def)
  obtain s2 k where 2: "lookup u ?s1 (qName q1) (qType q1) (clock w2) =
      (s2, Some (RCodeServerFailure, withTTL (Answers m) k, withTTL (Authorities m) k, AD (header m)))"
    using subtree_lookup [OF assms(1) c _ assms(13,7,8,9,10), of "AD (header m)"] by auto
  show ?thesis
    using 1 2 assms(2-6,11,12)
    by (intro exI [of _ ?s1] exI [of _ s2] exI [of _ k]) (simp add: cacheServe_def)
qed

definition query :: "gostr \<Rightarrow> u16 \<Rightarrow> Message" where
  "query name qtype = reply (zeroHeader\<lparr>RD := True\<rparr>) [\<lparr>qName = name, qType = qtype, qClass = ClassIN\<rparr>]"

definition failing :: "int handler" where
  "failing addr req w = ([reply (zeroHeader\<lparr>RCode := 2\<rparr>) (Questions req)], w)"

theorem typezero_query_fails_subtree_witness:
  "\<exists>s1 s2 k. snd (cacheServe plainUnicode (\<lambda>w. w) failing OtherAddr (query (lit ''com'') 0) (newStore smallConfig, 0)) = (s1, 0) \<and>
     cacheServe plainUnicode (\<lambda>w. w) failing OtherAddr (query (lit ''example.com'') 1) (s1, second) =
       ([cachedReply (query (lit ''example.com'') 1) (2, withTTL [] k, withTTL [] k, False)], (s2, second))"
proof -
  let ?m = "reply (zeroHeader\<lparr>RCode := 2\<rparr>) (Questions (query (lit ''com'') 0))"
  have "dotSuffix (fst (normalizeKey plainUnicode (lit ''com'') 0)) (fst (normalizeKey plainUnicode (lit ''example.com'') 1))"
    "normalizeKey plainUnicode (lit ''example.com'') 1 \<noteq> normalizeKey plainUnicode (lit ''com'') 0"
    "second < 0 + seconds (clampTTL (newStore smallConfig) 5)" by code_simp+
  then show ?thesis
    using typezero_query_fails_subtree [OF storeRun.start, of "query (lit ''com'') 0"
        "\<lparr>qName = lit ''com'', qType = 0, qClass = 1\<rparr>" "query (lit ''example.com'') 1"
        "\<lparr>qName = lit ''example.com'', qType = 1, qClass = 1\<rparr>" plainUnicode smallConfig failing OtherAddr 0 ?m 0
        "\<lambda>w. w" second OtherAddr]
    by (fastforce simp: query_def failing_def zeroHeader_def storeGet_def newStore_def)
qed

text \<open>
  Queries with CD, and those without exactly one question, pass the cache by: the store is
  neither read nor written, and the client sees the wrapped handler's messages unchanged.
\<close>

theorem cacheServe_bypass:
  assumes "CD (header req) \<or> length (Questions req) \<noteq> 1" "next addr req w = (msgs, w')"
  shows "cacheServe u clock next addr req (s, w) = (msgs, (s, w'))"
  using assms by (auto simp: cacheServe_def)

theorem cacheServe_bypass_witness:
  "fst (snd (cacheServe plainUnicode (\<lambda>w. w) failing OtherAddr (reply zeroHeader []) (newStore smallConfig, 0)))
     = newStore smallConfig"
  using cacheServe_bypass [of "reply zeroHeader []" failing OtherAddr 0 _ 0 plainUnicode "\<lambda>w. w" "newStore smallConfig"]
  by (simp add: failing_def)

text \<open>
  The ceiling holds for clients too.  In whatever state a single question without CD finds
  the cache, as long as no entry lives longer than the ceiling from now, no record of the
  answer or authority section it is sent has a TTL above the ceiling (or above one second, if
  the ceiling is zero).
\<close>

theorem cacheServe_ttl_ceiling:
  assumes "length (Questions req) = 1" "\<not> CD (header req)"
    and "\<And>k e. storeGet s k = Some e \<Longrightarrow> expiry e \<le> clock w + seconds (maxTTLBound s)"
    and "cacheServe u clock next addr req (s, w) = (msgs, sw)" "m \<in> set msgs"
    and "rr \<in> set (Answers m) \<union> set (Authorities m)"
  shows "uint (TTL rr) \<le> max 1 (uint (maxTTLBound s))"
proof -
  let ?q = "hd (Questions req)"
  show ?thesis
  proof (cases "snd (lookup u s (qName ?q) (qType ?q) (clock w))")
    case (Some hit)
    then obtain e where e: "found u s (qName ?q) (qType ?q) = Some e" "clock w < expiry e"
      "hit = (eRcode e, withTTL (eAnswers e) (hitTTL e (clock w)), withTTL (eAuthorities e) (hitTTL e (clock w)), authentic e)"
      by (auto simp: lookup_cases split: option.splits if_splits)
    have "m = cachedReply req hit"
      using assms(1,2,4,5) Some by (auto simp: cacheServe_def Let_def split: prod.splits option.splits)
    then have "TTL rr = hitTTL e (clock w)"
      using assms(6) e(3) by (auto simp: cachedReply_def withTTL_def)
    then show ?thesis using hitTTL_le [OF e(2)] assms(3) found_Some [OF e(1)] by auto
  next
    case None
    then obtain s' where l: "lookup u s (qName ?q) (qType ?q) (clock w) = (s', None)"
      by (cases "lookup u s (qName ?q) (qType ?q) (clock w)") auto
    then have "maxTTLBound s' = maxTTLBound s"
      by (auto simp: lookup_cases split: option.splits if_splits)
    then have "\<exists>m0. m = cappedMsg (maxTTLBound s) m0"
      using assms(1,2,4,5) l by (auto simp: cacheServe_def Let_def split: prod.splits)
    then have "TTL rr \<le> maxTTLBound s" using assms(6) by (auto simp: cappedMsg_def dest: capTTLs_le)
    then show ?thesis by (simp add: word_le_def)
  qed
qed

theorem cacheServe_ttl_ceiling_witness:
  "let m = hd (fst (cacheServe plainUnicode (\<lambda>w. w)
      (\<lambda>addr req w. ([(reply zeroHeader [])\<lparr>Answers := [zeroRR\<lparr>TTL := 100000\<rparr>]\<rparr>], w))
      OtherAddr (query (lit ''com'') 1) (newStore smallConfig, 0)))
   in uint (TTL (hd (Answers m))) \<le> max 1 (uint (maxTTLBound (newStore smallConfig)))"
proof -
  let ?r = "cacheServe plainUnicode (\<lambda>w. w)
      (\<lambda>addr req w. ([(reply zeroHeader [])\<lparr>Answers := [zeroRR\<lparr>TTL := 100000\<rparr>]\<rparr>], w))
      OtherAddr (query (lit ''com'') 1) (newStore smallConfig, 0)"
  have "length (fst ?r) = 1" "length (Answers (hd (fst ?r))) = 1" by code_simp+
  then have "hd (fst ?r) \<in> set (fst ?r)" "hd (Answers (hd (fst ?r))) \<in> set (Answers (hd (fst ?r)))"
    by (metis hd_in_set length_0_conv zero_neq_one)+
  then show ?thesis unfolding Let_def
    by (intro cacheServe_ttl_ceiling [where req = "query (lit ''com'') 1" and s = "newStore smallConfig"
          and sw = "snd ?r" and m = "hd (fst ?r)", OF _ _ _ prod.collapse [symmetric]])
      (auto simp: query_def zeroHeader_def storeGet_def newStore_def)
qed

end
