(* ===== verification/Delegation_Cache.thy ===== *)
theory Delegation_Cache
  imports Dns_Names Lru
begin

text \<open>
  The delegation cache (\<open>resolver/delegationcache.go\<close>): which servers answer for a zone, and
  whether that was learnt inside the chain of trust.  A nil \<open>*delegationCache\<close> is \<open>None\<close>.

  An operation runs under the cache's mutex, so it is one step.  \<open>c.now()\<close> is read once per
  operation here; the code reads it again for every name it looks at.

  The eviction loop of \<open>put\<close> is the one loop of the package whose end is not evident:
  \<open>remove\<close> does nothing for a key that is not in the map, and then the loop would spin on it.
  It is a partial function, and that it returns is a theorem.
\<close>

section \<open>State and operations\<close>

type_synonym ip = "byte list"

abbreviation (input) defaultDelegationEntries :: nat where "defaultDelegationEntries \<equiv> 2000"
abbreviation (input) maxDelegationTTL :: u32 where "maxDelegationTTL \<equiv> 604800"
abbreviation (input) minDelegationTTL :: u32 where "minDelegationTTL \<equiv> 60"

record delegationEntry =
  dServers :: "ip list"
  dSecure :: bool
  dExpiry :: int

record delegationCache =
  dMaxEntries :: nat
  dEntries :: "(gostr, delegationEntry) mapping"
  dOrder :: "gostr list"

definition newDelegationCache :: "int \<Rightarrow> delegationCache" where
  "newDelegationCache maxEntries =
     \<lparr>dMaxEntries = (if maxEntries \<le> 0 then defaultDelegationEntries else nat maxEntries),
      dEntries = Mapping.empty, dOrder = []\<rparr>"

definition cacheLru :: "delegationCache \<Rightarrow> (gostr, delegationEntry) lru" where
  "cacheLru c = (dEntries c, dOrder c)"

definition setLru :: "delegationCache \<Rightarrow> (gostr, delegationEntry) lru \<Rightarrow> delegationCache" where
  "setLru c l = c\<lparr>dEntries := fst l, dOrder := snd l\<rparr>"

text \<open>\<open>remove\<close>, which its callers give the entry they found, or nil.\<close>

definition removeEntry ::
  "gostr \<Rightarrow> delegationEntry option \<Rightarrow> (gostr, delegationEntry) lru \<Rightarrow> (gostr, delegationEntry) lru" where
  "removeEntry key e l = (case e of None \<Rightarrow> l | Some _ \<Rightarrow> lruRemove key l)"

text \<open>The next name up: what follows the first dot, or the root.\<close>

definition parentName :: "gostr \<Rightarrow> gostr" where
  "parentName name = (case cutDot name of (_, after, found) \<Rightarrow> if found then after else [])"

lemma parentName_shorter: "name \<noteq> [] \<Longrightarrow> length (parentName name) < length name"
  by (auto simp: parentName_def dest: cutDot_shorter split: prod.split)

type_synonym delegation = "gostr \<times> ip list \<times> bool \<times> bool"

function closestLoop :: "delegationCache \<Rightarrow> gostr \<Rightarrow> int \<Rightarrow> delegationCache \<times> delegation" where
  "closestLoop c name now =
     (case Mapping.lookup (dEntries c) name of
        Some e \<Rightarrow>
          if dExpiry e > now then
            (setLru c (lruFront name (cacheLru c)), (zoneName name, dServers e, dSecure e, True))
          else let c = setLru c (removeEntry name (Some e) (cacheLru c)) in
            if name = [] then (c, ([dot], [], False, False)) else closestLoop c (parentName name) now
      | None \<Rightarrow>
          if name = [] then (c, ([dot], [], False, False)) else closestLoop c (parentName name) now)"
  by pat_completeness auto
termination
  by (relation "measure (\<lambda>(c, name, now). length name)") (auto simp: parentName_shorter)

declare closestLoop.simps [simp del]

definition closestEnclosing ::
  "unicode \<Rightarrow> delegationCache option \<Rightarrow> gostr \<Rightarrow> int \<Rightarrow> delegationCache option \<times> delegation" where
  "closestEnclosing u c qname now =
     (case c of
        None \<Rightarrow> (None, ([dot], [], False, False))
      | Some c \<Rightarrow> (case closestLoop c (normalizeZone u qname) now of (c, d) \<Rightarrow> (Some c, d)))"

partial_function (option) evictLoop ::
  "nat \<Rightarrow> (gostr, delegationEntry) lru \<Rightarrow> (gostr, delegationEntry) lru option" where
  "evictLoop cap l =
     (if Mapping.size (fst l) > cap then
        (if snd l = [] then Some l
         else let key = last (snd l) in
           evictLoop cap (removeEntry key (Mapping.lookup (fst l) key) l))
      else Some l)"

declare evictLoop.simps [code]

text \<open>
  \<open>put\<close>; the result \<open>None\<close> would be a call that never returns.  The element an entry points
  to is the one that holds its key, which occurs once in the list.
\<close>

definition delegationPut ::
  "unicode \<Rightarrow> delegationCache option \<Rightarrow> gostr \<Rightarrow> ip list \<Rightarrow> u32 \<Rightarrow> bool \<Rightarrow> int
    \<Rightarrow> delegationCache option option" where
  "delegationPut u c zone servers ttl secure now =
     (case c of
        None \<Rightarrow> Some None
      | Some c \<Rightarrow>
          if servers = [] then Some (Some c)
          else let ttl = min (max ttl minDelegationTTL) maxDelegationTTL;
                   key = normalizeZone u zone;
                   l = removeEntry key (Mapping.lookup (dEntries c) key) (cacheLru c);
                   e = \<lparr>dServers = servers, dSecure = secure, dExpiry = now + seconds ttl\<rparr>
            in map_option (\<lambda>l. Some (setLru c l)) (evictLoop (dMaxEntries c) (lruPush key e l)))"

definition forget :: "unicode \<Rightarrow> delegationCache option \<Rightarrow> gostr \<Rightarrow> delegationCache option" where
  "forget u c zone =
     map_option (\<lambda>c. let key = normalizeZone u zone in
       setLru c (removeEntry key (Mapping.lookup (dEntries c) key) (cacheLru c))) c"

end
