(* ===== verification/Delegation_Facts.thy ===== *)
theory Delegation_Facts
  imports Delegation_Cache
begin

text \<open>
  What the delegation cache guarantees: its operations end and keep it bounded, the walk up
  the name finds the deepest zone that is still fresh, and what it returns, the mark of the
  chain of trust included, is what some referral put there.
\<close>

section \<open>The eviction loop ends\<close>

lemma remove1_last: "distinct xs \<Longrightarrow> xs \<noteq> [] \<Longrightarrow> remove1 (last xs) xs = butlast xs"
  by (induction xs) auto

lemma distinct_snoc_butlast:
  assumes "distinct xs" "xs \<noteq> []"
  shows "set (butlast xs) = set xs - {last xs}"
proof -
  have "xs = butlast xs @ [last xs]" using assms(2) by simp
  then have "distinct (butlast xs @ [last xs])" "set xs = set (butlast xs @ [last xs])"
    using assms(1) by metis+
  then show ?thesis by auto
qed

lemma evictLoop_Some:
  "distinct (snd l) \<Longrightarrow> set (snd l) = Mapping.keys (fst l) \<Longrightarrow> evictLoop cap l = Some (lruEvict cap l)"
proof (induction "length (snd l)" arbitrary: l)
  case 0
  then show ?case by (subst evictLoop.simps, subst lruEvict.simps) simp
next
  case (Suc n)
  let ?x = "last (snd l)"
  have ne: "snd l \<noteq> []" using Suc.hyps(2) by auto
  then have "?x \<in> Mapping.keys (fst l)" using Suc.prems(2) by (metis last_in_set)
  then obtain e where e: "Mapping.lookup (fst l) ?x = Some e" by (auto simp: keys_lookup)
  have r: "lruRemove ?x l = (Mapping.delete ?x (fst l), butlast (snd l))"
    using Suc.prems(1) ne by (simp add: lruRemove_def remove1_last)
  have "evictLoop cap (lruRemove ?x l) = Some (lruEvict cap (lruRemove ?x l))"
    by (rule Suc.hyps(1)) (use Suc ne in \<open>auto simp: r distinct_butlast distinct_snoc_butlast keys_delete\<close>)
  then show ?case
    by (subst evictLoop.simps, subst lruEvict.simps) (simp add: ne e removeEntry_def r Let_def)
qed

section \<open>The cache as a bounded cache\<close>

definition cacheInv :: "delegationCache \<Rightarrow> bool" where
  "cacheInv c = (0 < dMaxEntries c \<and> lruInv (dMaxEntries c) (cacheLru c))"

definition cacheGet :: "delegationCache \<Rightarrow> gostr \<Rightarrow> delegationEntry option" where
  "cacheGet c k = Mapping.lookup (dEntries c) k"

definition cacheInsert :: "gostr \<Rightarrow> delegationEntry \<Rightarrow> delegationCache \<Rightarrow> delegationCache" where
  "cacheInsert k e c = setLru c (lruPut (dMaxEntries c) k e (cacheLru c))"

definition cacheRemove :: "gostr \<Rightarrow> delegationCache \<Rightarrow> delegationCache" where
  "cacheRemove k c = setLru c (lruRemove k (cacheLru c))"

definition cacheTouch :: "gostr \<Rightarrow> delegationCache \<Rightarrow> delegationCache" where
  "cacheTouch k c = setLru c (lruFront k (cacheLru c))"

lemma setLru_simps [simp]:
  "dMaxEntries (setLru c l) = dMaxEntries c" "dEntries (setLru c l) = fst l"
  "cacheLru (setLru c l) = l" "fst (cacheLru c) = dEntries c" "setLru c (cacheLru c) = c"
  by (simp_all add: setLru_def cacheLru_def)

interpretation delegation_store: bounded_cache cacheInv cacheGet "\<lambda>c. Mapping.size (dEntries c)"
  dMaxEntries cacheInsert cacheRemove cacheTouch
proof unfold_locales
  fix c :: delegationCache and k k' :: gostr and v :: delegationEntry
  show "cacheInv c \<Longrightarrow> cacheInv (cacheInsert k v c)"
    by (simp add: cacheInv_def cacheInsert_def lruPut_inv)
  show "cacheInv c \<Longrightarrow> cacheInv (cacheRemove k c)"
    by (simp add: cacheInv_def cacheRemove_def lruRemove_inv)
  show "cacheInv c \<Longrightarrow> cacheGet c k \<noteq> None \<Longrightarrow> cacheInv (cacheTouch k c)"
    by (simp add: cacheInv_def cacheTouch_def cacheGet_def lruFront_inv keys_lookup)
  show "cacheInv c \<Longrightarrow> cacheGet (cacheInsert k v c) k = Some v"
    by (simp add: cacheInv_def cacheInsert_def cacheGet_def lruPut_lookup)
  show "cacheInv c \<Longrightarrow> k' \<noteq> k \<Longrightarrow> cacheGet (cacheInsert k v c) k' \<in> {None, cacheGet c k'}"
    using lruPut_other [of "dMaxEntries c" "cacheLru c" k' k v]
    by (simp add: cacheInv_def cacheInsert_def cacheGet_def)
  show "cacheGet (cacheRemove k c) k' = (if k' = k then None else cacheGet c k')"
    by (simp add: cacheRemove_def cacheGet_def lruRemove_lookup)
  show "cacheGet (cacheTouch k c) = cacheGet c"
    by (rule ext) (simp add: cacheTouch_def cacheGet_def lruFront_def)
  show "cacheInv c \<Longrightarrow> Mapping.size (dEntries c) \<le> dMaxEntries c"
    using lruInv_size [of "dMaxEntries c" "cacheLru c"] by (simp add: cacheInv_def lruInv_def)
qed

lemma newDelegationCache_inv: "cacheInv (newDelegationCache n)"
  by (auto simp: cacheInv_def newDelegationCache_def cacheLru_def lruInv_def)

lemma removeEntry_absent:
  "removeEntry k (Mapping.lookup (fst l) k) l = (if Mapping.lookup (fst l) k = None then l else lruRemove k l)"
  by (simp add: removeEntry_def split: option.split)

text \<open>\<open>put\<close> on a cache that satisfies the invariant returns, and is the insertion of the contract.\<close>

definition newDelegation :: "ip list \<Rightarrow> u32 \<Rightarrow> bool \<Rightarrow> int \<Rightarrow> delegationEntry" where
  "newDelegation servers ttl secure now =
     \<lparr>dServers = servers, dSecure = secure,
      dExpiry = now + seconds (min (max ttl minDelegationTTL) maxDelegationTTL)\<rparr>"

lemma put_returns:
  assumes "cacheInv c" "servers \<noteq> []"
  shows "delegationPut u (Some c) zone servers ttl secure now =
    Some (Some (cacheInsert (normalizeZone u zone) (newDelegation servers ttl secure now) c))"
proof -
  let ?k = "normalizeZone u zone"
  let ?l = "if Mapping.lookup (dEntries c) ?k \<noteq> None then lruRemove ?k (cacheLru c) else cacheLru c"
  have inv: "lruInv (dMaxEntries c) ?l" and new: "?k \<notin> Mapping.keys (fst ?l)"
    using assms(1) by (auto simp: cacheInv_def lruRemove_inv keys_lookup lruRemove_lookup)
  have "evictLoop (dMaxEntries c) (lruPush ?k e ?l) = Some (lruEvict (dMaxEntries c) (lruPush ?k e ?l))" for e
    by (rule evictLoop_Some) (use inv new in \<open>auto simp: lruPush_def lruInv_def keys_update\<close>)
  moreover have "removeEntry ?k (Mapping.lookup (dEntries c) ?k) (cacheLru c) = ?l"
    using removeEntry_absent [of ?k "cacheLru c"] by simp
  ultimately show ?thesis
    using assms(2)
    by (simp only: delegationPut_def option.case Let_def if_False option.map)
      (simp add: newDelegation_def cacheInsert_def lruPut_def Let_def)
qed

lemma put_empty [simp]: "delegationPut u (Some c) zone [] ttl secure now = Some (Some c)"
  and put_nil [simp]: "delegationPut u None zone servers ttl secure now = Some None"
  by (simp_all add: delegationPut_def)

lemma forget_eq:
  "forget u (Some c) zone =
     Some (if cacheGet c (normalizeZone u zone) = None then c else cacheRemove (normalizeZone u zone) c)"
  using removeEntry_absent [of "normalizeZone u zone" "cacheLru c"]
  by (simp add: forget_def Let_def cacheGet_def cacheRemove_def)

section \<open>The walk up the name\<close>

definition fresh :: "delegationCache \<Rightarrow> int \<Rightarrow> gostr \<Rightarrow> bool" where
  "fresh c now k = (case cacheGet c k of Some e \<Rightarrow> dExpiry e > now | None \<Rightarrow> False)"

lemma find_SomeD: "find P xs = Some k \<Longrightarrow> k \<in> set xs \<and> P k"
  by (induction xs) (auto split: if_splits)

text \<open>The zones a name is in, the name itself first and the root last.\<close>

function upNames :: "gostr \<Rightarrow> gostr list" where
  "upNames name = name # (if name = [] then [] else upNames (parentName name))"
  by pat_completeness auto
termination
  by (relation "measure length") (auto simp: parentName_shorter)

declare upNames.simps [simp del]

definition delegationOf :: "delegationCache \<Rightarrow> gostr option \<Rightarrow> delegation" where
  "delegationOf c k =
     (case k of
        None \<Rightarrow> ([dot], [], False, False)
      | Some k \<Rightarrow> (case cacheGet c k of
          Some e \<Rightarrow> (zoneName k, dServers e, dSecure e, True) | None \<Rightarrow> ([dot], [], False, False)))"

lemma fresh_cacheGet: "fresh c now k \<Longrightarrow> \<exists>e. cacheGet c k = Some e \<and> now < dExpiry e"
  by (auto simp: fresh_def split: option.splits)

lemma fresh_remove_stale:
  assumes "\<not> fresh c now k"
  shows "fresh (cacheRemove k c) now = fresh c now"
    and "fresh c now k' \<Longrightarrow> cacheGet (cacheRemove k c) k' = cacheGet c k'"
  using assms by (auto simp: fresh_def delegation_store.get_remove fun_eq_iff)

lemma find_fresh_cong:
  assumes "\<not> fresh c now k"
  shows "delegationOf (cacheRemove k c) (find (fresh c now) ks) = delegationOf c (find (fresh c now) ks)"
proof (cases "find (fresh c now) ks")
  case (Some k')
  then have "fresh c now k'" by (auto simp: find_Some_iff)
  then show ?thesis using fresh_remove_stale(2) [OF assms] Some by (simp add: delegationOf_def)
qed (simp add: delegationOf_def)

lemma closestLoop_cases:
  "closestLoop c name now =
     (if fresh c now name then (cacheTouch name c, delegationOf c (Some name))
      else let c' = (if cacheGet c name = None then c else cacheRemove name c) in
        if name = [] then (c', ([dot], [], False, False)) else closestLoop c' (parentName name) now)"
  by (subst closestLoop.simps)
    (simp add: fresh_def delegationOf_def cacheGet_def cacheTouch_def cacheRemove_def removeEntry_def
      Let_def split: option.split)

text \<open>The turns of the loop, as an induction rule: a stale entry is gone on the next turn.\<close>

lemma closestLoop_turns:
  assumes "\<And>c name. (\<not> fresh c now name \<Longrightarrow> name \<noteq> [] \<Longrightarrow>
      P (if cacheGet c name = None then c else cacheRemove name c) (parentName name)) \<Longrightarrow> P c name"
  shows "P c name"
proof (induction "length name" arbitrary: c name rule: less_induct)
  case less
  show ?case by (rule assms) (rule less, rule parentName_shorter)
qed

lemma closestLoop_find:
  "snd (closestLoop c name now) = delegationOf c (find (fresh c now) (upNames name))"
proof (induction c name rule: closestLoop_turns [of now])
  case (1 c name)
  then show ?case
    using find_fresh_cong [of c now name] fresh_remove_stale(1) [of c now name]
    by (subst closestLoop_cases, subst upNames.simps) (auto simp: Let_def delegationOf_def)
qed

text \<open>The walk keeps the invariant and loses no fresh entry and gains none.\<close>

lemma closestLoop_state:
  "cacheInv c \<Longrightarrow> cacheInv (fst (closestLoop c name now)) \<and>
     (\<forall>k. cacheGet (fst (closestLoop c name now)) k = cacheGet c k \<or>
          \<not> fresh c now k \<and> cacheGet (fst (closestLoop c name now)) k = None)"
proof (induction c name rule: closestLoop_turns [of now])
  case (1 c name)
  let ?c = "if cacheGet c name = None then c else cacheRemove name c"
  show ?case
  proof (cases "fresh c now name")
    case True
    then show ?thesis using 1(2) fresh_cacheGet [OF True]
      by (subst (1 2 3) closestLoop_cases) (auto simp: delegation_store.touch_inv delegation_store.get_touch)
  next
    case False
    have inv: "cacheInv ?c" using 1(2) delegation_store.remove_inv by auto
    have sub: "cacheGet ?c k = cacheGet c k \<or> \<not> fresh c now k \<and> cacheGet ?c k = None"
      "fresh ?c now k = fresh c now k" for k
      using False fresh_remove_stale(1) [OF False] by (auto simp: delegation_store.get_remove)
    have loop: "closestLoop c name now =
        (if name = [] then (?c, ([dot], [], False, False)) else closestLoop ?c (parentName name) now)"
      using False by (subst closestLoop_cases) (simp add: Let_def)
    show ?thesis
    proof (cases "name = []")
      case True
      then have "fst (closestLoop c name now) = ?c" unfolding loop by simp
      then show ?thesis using inv sub(1) by (simp only: simp_thms)
    next
      case no: False
      with 1(1) [OF False no inv] sub show ?thesis by (simp only: loop if_False) metis
    qed
  qed
qed

section \<open>The label-level reading of the walk\<close>

lemma parentName_joinDot:
  assumes "\<forall>l\<in>set (l # ls). dot \<notin> set l"
  shows "parentName (joinDot (l # ls)) = joinDot ls"
proof -
  have cut: "cutDot l = (l, [], False)" if "dot \<notin> set l" for l
    using that by (induction l) auto
  have "cutDot (l @ dot # s) = (l, s, True)" if "dot \<notin> set l" for l s
    using that by (induction l) auto
  then show ?thesis using assms cut by (cases ls) (simp_all add: parentName_def)
qed

lemma find_upNames:
  "\<forall>l\<in>set ls. dot \<notin> set l \<Longrightarrow> find P (upNames (joinDot ls)) = find P (map joinDot (rev (suffixes ls)))"
proof (induction ls)
  case Nil
  then show ?case by (subst upNames.simps) simp
next
  case (Cons l ls)
  show ?case
  proof (cases "joinDot (l # ls) = []")
    case True
    then have "l = [] \<and> ls = []" by (auto simp: joinDot_Cons split: if_splits)
    then show ?thesis by (subst upNames.simps) simp
  next
    case False
    then show ?thesis using Cons parentName_joinDot [of l ls]
      by (subst upNames.simps) simp
  qed
qed

lemma normalizeZone_joinDot: "isASCII n \<Longrightarrow> normalizeZone u n = joinDot (canon n)"
  by (simp add: normalizeZone_eq name_simps)

lemma closestEnclosing_result:
  assumes "isASCII qname"
  shows "snd (closestEnclosing u (Some c) qname now) =
    delegationOf c (find (fresh c now) (map joinDot (rev (suffixes (canon qname)))))"
  using assms canon_no_dot
  by (simp add: closestEnclosing_def normalizeZone_joinDot closestLoop_find find_upNames split: prod.split)
    (metis closestLoop_find find_upNames snd_conv)

section \<open>Histories\<close>

text \<open>
  A cache as the resolver uses it: referrals put in, names walked up and zones forgotten, in
  any order and at any times.  \<open>delegationRun u h c\<close> says that \<open>c\<close> is reached with the
  referrals \<open>h\<close>.
\<close>

datatype referral = Referral (refZone: gostr) (refServers: "ip list") (refTTL: u32) (refSecure: bool)
  (refTime: int)

inductive delegationRun :: "unicode \<Rightarrow> referral set \<Rightarrow> delegationCache option \<Rightarrow> bool" for u where
  start: "delegationRun u {} (Some (newDelegationCache n))"
| put: "delegationRun u h c \<Longrightarrow> delegationPut u c zone servers ttl secure now = Some c' \<Longrightarrow>
    delegationRun u (insert (Referral zone servers ttl secure now) h) c'"
| walk: "delegationRun u h c \<Longrightarrow> delegationRun u h (fst (closestEnclosing u c qname now))"
| forget: "delegationRun u h c \<Longrightarrow> delegationRun u h (forget u c zone)"

definition referredBy :: "unicode \<Rightarrow> referral set \<Rightarrow> gostr \<Rightarrow> delegationEntry \<Rightarrow> bool" where
  "referredBy u h k e = (\<exists>r\<in>h. refServers r \<noteq> [] \<and> k = normalizeZone u (refZone r) \<and>
     e = newDelegation (refServers r) (refTTL r) (refSecure r) (refTime r))"

lemma referredBy_mono: "referredBy u h k e \<Longrightarrow> referredBy u (insert r h) k e"
  unfolding referredBy_def by blast

abbreviation allReferred :: "unicode \<Rightarrow> referral set \<Rightarrow> delegationCache \<Rightarrow> bool" where
  "allReferred u h c \<equiv> \<forall>k e. cacheGet c k = Some e \<longrightarrow> referredBy u h k e"

lemma put_step:
  assumes "cacheInv c" "allReferred u h c"
    "delegationPut u (Some c) zone servers ttl secure now = Some c'"
  shows "\<exists>d. c' = Some d \<and> cacheInv d \<and> allReferred u (insert (Referral zone servers ttl secure now) h) d"
proof (cases "servers = []")
  case True
  then show ?thesis using assms by (auto intro: referredBy_mono)
next
  case False
  let ?r = "Referral zone servers ttl secure now"
  let ?k = "normalizeZone u zone" and ?e = "newDelegation servers ttl secure now"
  have c': "c' = Some (cacheInsert ?k ?e c)" using assms(1,3) False by (simp add: put_returns)
  have "referredBy u (insert ?r h) ?k ?e" using False by (auto simp: referredBy_def)
  from delegation_store.all_insert [where P = "referredBy u (insert ?r h)", OF assms(1) _ this]
  show ?thesis
    using c' delegation_store.insert_inv [OF assms(1)] assms(2) referredBy_mono by blast
qed

lemma delegationRun_inv:
  "delegationRun u h c \<Longrightarrow> \<exists>d. c = Some d \<and> cacheInv d \<and> allReferred u h d"
proof (induction rule: delegationRun.induct)
  case (start n)
  then show ?case by (simp add: newDelegationCache_inv) (simp add: newDelegationCache_def cacheGet_def)
next
  case (put h c zone servers ttl secure now c')
  then show ?case using put_step by blast
next
  case (walk h c qname now)
  then obtain d where d: "c = Some d" "cacheInv d" "allReferred u h d" by blast
  show ?case
    using closestLoop_state [OF d(2), of "normalizeZone u qname" now] d
    by (simp add: closestEnclosing_def split: prod.split) (metis fst_conv option.distinct(1))
next
  case (forget h c zone)
  then obtain d where d: "c = Some d" "cacheInv d" "allReferred u h d" by blast
  then show ?case
    using delegation_store.remove_inv [OF d(2)] delegation_store.all_remove [OF d(3)] by (simp add: forget_eq)
qed

section \<open>Properties\<close>

text \<open>
  Putting a delegation returns.  In every state the resolver can bring the cache to, the
  eviction loop ends, and it leaves at most the configured number of entries.
\<close>

theorem delegationPut_returns:
  assumes "delegationRun u h c"
  shows "\<exists>d. delegationPut u c zone servers ttl secure now = Some (Some d) \<and>
    Mapping.size (dEntries d) \<le> dMaxEntries d"
proof -
  obtain d where d: "c = Some d" "cacheInv d" using delegationRun_inv [OF assms] by blast
  show ?thesis
    using d put_returns [OF d(2)] delegation_store.count_bound delegation_store.insert_inv
    by (cases "servers = []") auto
qed

text \<open>The smallest cache, and a second referral that pushes the first one out.\<close>

definition tinyCache :: "delegationCache option" where
  "tinyCache = the (delegationPut plainUnicode (Some (newDelegationCache 1)) (lit ''com'') [[1, 2, 3, 4]] 100 True 0)"

lemma tinyCache_run:
  "delegationRun plainUnicode {Referral (lit ''com'') [[1, 2, 3, 4]] 100 True 0} tinyCache"
proof -
  have "cacheInv (newDelegationCache 1)" by (rule newDelegationCache_inv)
  then have "delegationPut plainUnicode (Some (newDelegationCache 1)) (lit ''com'') [[1, 2, 3, 4]] 100 True 0
      = Some tinyCache"
    by (simp add: tinyCache_def put_returns)
  then show ?thesis by (rule delegationRun.put [OF delegationRun.start])
qed

theorem delegationPut_returns_witness:
  "\<exists>d. delegationPut plainUnicode tinyCache (lit ''Org.'') [[5, 6, 7, 8]] 7 False 1 = Some (Some d) \<and>
    Mapping.size (dEntries d) \<le> dMaxEntries d"
  by (rule delegationPut_returns [OF tinyCache_run])

text \<open>
  The walk finds the closest enclosing zone: the first name in the list of the query
  name's ancestors, the longest first and the root last, that has an entry which has not
  expired; and the root with no servers when there is none.
\<close>

theorem closestEnclosing_deepest:
  assumes "isASCII qname"
  shows "snd (closestEnclosing u (Some c) qname now) =
    (case find (fresh c now) (map joinDot (rev (suffixes (canon qname)))) of
       None \<Rightarrow> ([dot], [], False, False)
     | Some k \<Rightarrow> (zoneName k, dServers (the (cacheGet c k)), dSecure (the (cacheGet c k)), True))"
proof (cases "find (fresh c now) (map joinDot (rev (suffixes (canon qname))))")
  case (Some k)
  then have "fresh c now k" by (auto simp: find_Some_iff)
  then show ?thesis using Some fresh_cacheGet by (fastforce simp: closestEnclosing_result [OF assms] delegationOf_def)
qed (simp add: closestEnclosing_result [OF assms] delegationOf_def)

theorem closestEnclosing_deepest_witness:
  "snd (closestEnclosing plainUnicode tinyCache (lit ''WWW.example.COM.'') 99000000000) =
     (lit ''com'', [[1, 2, 3, 4]], True, True)"
proof -
  obtain c where c: "tinyCache = Some c" using delegationRun_inv [OF tinyCache_run] by blast
  have c': "c = the tinyCache" by (simp add: c)
  have "isASCII (lit ''WWW.example.COM.'')" by code_simp
  note walk = closestEnclosing_deepest [OF this]
  show ?thesis unfolding c walk unfolding c' by code_simp
qed

text \<open>
  (C31) A resolution resumes only where a referral put it.  What the walk returns came in one
  referral, for that zone, with those servers, less than a week ago; and it is marked as
  reached through the chain of trust exactly if that referral was.
\<close>

theorem closestEnclosing_origin:
  assumes "delegationRun u h (Some c)" "isASCII qname"
    and "snd (closestEnclosing u (Some c) qname now) = (zone, servers, secure, True)"
  shows "\<exists>r\<in>h. \<exists>ls. zone = zoneName (normalizeZone u (refZone r)) \<and> servers = refServers r \<and>
    servers \<noteq> [] \<and> secure = refSecure r \<and> now < refTime r + 604800 * second \<and>
    normalizeZone u (refZone r) = joinDot ls \<and> suffix ls (canon qname)"
proof -
  let ?P = "find (fresh c now) (map joinDot (rev (suffixes (canon qname))))"
  obtain k where k: "?P = Some k"
    using assms(3) by (cases ?P) (auto simp: closestEnclosing_result [OF assms(2)] delegationOf_def)
  then have f: "fresh c now k" "k \<in> set (map joinDot (rev (suffixes (canon qname))))"
    using find_SomeD by fast+
  obtain e where e: "cacheGet c k = Some e" "now < dExpiry e" using fresh_cacheGet [OF f(1)] by blast
  then obtain r where r: "r \<in> h" "refServers r \<noteq> []" "k = normalizeZone u (refZone r)"
    "e = newDelegation (refServers r) (refTTL r) (refSecure r) (refTime r)"
    using delegationRun_inv [OF assms(1)] by (auto simp: referredBy_def)
  have res: "zone = zoneName k" "servers = dServers e" "secure = dSecure e"
    using assms(3) k e(1) by (simp_all add: closestEnclosing_result [OF assms(2)] delegationOf_def)
  have "min (max (refTTL r) minDelegationTTL) maxDelegationTTL \<le> (maxDelegationTTL :: u32)" by simp
  then have "uint (min (max (refTTL r) minDelegationTTL) (maxDelegationTTL :: u32)) \<le> 604800"
    unfolding word_le_def by simp
  then have "dExpiry e \<le> refTime r + 604800 * second"
    by (simp add: r(4) newDelegation_def seconds_def second_def)
  then show ?thesis
    using r(1,2,3) e(2) f(2) res r(4) by (intro bexI [of _ r]) (auto simp: newDelegation_def)
qed

theorem closestEnclosing_origin_witness:
  "\<exists>ls. lit ''com'' = joinDot ls \<and> suffix ls (canon (lit ''www.com''))"
proof -
  obtain c where c: "tinyCache = Some c" using delegationRun_inv [OF tinyCache_run] by blast
  have run: "delegationRun plainUnicode {Referral (lit ''com'') [[1, 2, 3, 4]] 100 True 0} (Some c)"
    using tinyCache_run by (simp add: c)
  have a: "isASCII (lit ''www.com'')" by code_simp
  have "snd (closestEnclosing plainUnicode tinyCache (lit ''www.com'') 5) = (lit ''com'', [[1, 2, 3, 4]], True, True)"
    by code_simp
  from closestEnclosing_origin [OF run a this [unfolded c]]
  have "\<exists>ls. normalizeZone plainUnicode (lit ''com'') = joinDot ls \<and> suffix ls (canon (lit ''www.com''))"
    by auto
  moreover have "normalizeZone plainUnicode (lit ''com'') = lit ''com''" by code_simp
  ultimately show ?thesis by simp
qed

end
