(* ===== verification/Access_Control.thy ===== *)
theory Access_Control
  imports Handlers
begin

text \<open>
  The access control middleware (\<open>middleware/acl\<close>), and what it uses of \<open>net/netip\<close>: an
  address is IPv4 or IPv6, \<open>AddrFromSlice\<close> takes four or sixteen bytes, \<open>Unmap\<close> turns an
  IPv4-mapped IPv6 address into the IPv4 address, and a prefix contains an address of its own
  family whose first bits are those of the prefix.  Addresses taken from a slice have no zone.
\<close>

section \<open>Addresses and prefixes\<close>

datatype ipAddr = Addr4 "32 word" | Addr6 "128 word"

record prefix =
  pAddr :: ipAddr
  pBits :: nat

definition beWord :: "byte list \<Rightarrow> 'a::len word" where
  "beWord bs = foldl (\<lambda>w b. push_bit 8 w OR ucast b) 0 bs"

definition AddrFromSlice :: "byte list \<Rightarrow> ipAddr option" where
  "AddrFromSlice bs =
     (if length bs = 4 then Some (Addr4 (beWord bs))
      else if length bs = 16 then Some (Addr6 (beWord bs))
      else None)"

definition Unmap :: "ipAddr \<Rightarrow> ipAddr" where
  "Unmap a =
     (case a of
        Addr4 v \<Rightarrow> Addr4 v
      | Addr6 v \<Rightarrow> if drop_bit 32 v = 0xFFFF then Addr4 (ucast v) else Addr6 v)"

definition Contains :: "prefix \<Rightarrow> ipAddr \<Rightarrow> bool" where
  "Contains p ip =
     (case (pAddr p, ip) of
        (Addr4 a, Addr4 v) \<Rightarrow> pBits p \<le> 32 \<and> drop_bit (32 - pBits p) (v XOR a) = 0
      | (Addr6 a, Addr6 v) \<Rightarrow> pBits p \<le> 128 \<and> drop_bit (128 - pBits p) (v XOR a) = 0
      | _ \<Rightarrow> False)"

section \<open>The middleware\<close>

definition LoopbackOnly :: "prefix list" where
  "LoopbackOnly =
     [\<lparr>pAddr = Addr4 0x7F000000, pBits = 8\<rparr>, \<lparr>pAddr = Addr6 1, pBits = 128\<rparr>]"

definition addrIP :: "netAddr \<Rightarrow> ipAddr option" where
  "addrIP addr =
     (case addr of
        UDPAddr ip \<Rightarrow> map_option Unmap (AddrFromSlice ip)
      | TCPAddr ip \<Rightarrow> map_option Unmap (AddrFromSlice ip)
      | OtherAddr \<Rightarrow> None)"

definition permits :: "prefix list \<Rightarrow> netAddr \<Rightarrow> bool" where
  "permits allowed addr =
     (case addrIP addr of None \<Rightarrow> False | Some ip \<Rightarrow> list_ex (\<lambda>p. Contains p ip) allowed)"

definition aclServe :: "prefix list \<Rightarrow> 'w handler \<Rightarrow> 'w handler" where
  "aclServe allowed next addr req w =
     (if permits allowed addr then next addr req w
      else ([reply (zeroHeader\<lparr>ID := ID (header req), QR := True, Opcode := Opcode (header req),
                      RD := RD (header req), RCode := RCodeRefused\<rparr>) (Questions req)], w))"

section \<open>Facts\<close>

text \<open>A prefix of \<open>n\<close> bits contains the addresses that agree with it on the \<open>n\<close> high bits.\<close>

lemma drop_bit_xor_0:
  fixes a b :: "'a::len word"
  assumes "n \<le> LENGTH('a)"
  shows "drop_bit (LENGTH('a) - n) (a XOR b) = 0 \<longleftrightarrow> drop_bit (LENGTH('a) - n) a = drop_bit (LENGTH('a) - n) b"
  by (auto simp: bit_eq_iff bit_simps)

lemma Contains4:
  "Contains \<lparr>pAddr = Addr4 a, pBits = n\<rparr> (Addr4 v) \<longleftrightarrow> n \<le> 32 \<and> drop_bit (32 - n) v = drop_bit (32 - n) a"
  using drop_bit_xor_0 [where ?'a = 32, of n v a] by (auto simp: Contains_def)

lemma Contains6:
  "Contains \<lparr>pAddr = Addr6 a, pBits = n\<rparr> (Addr6 v) \<longleftrightarrow> n \<le> 128 \<and> drop_bit (128 - n) v = drop_bit (128 - n) a"
  using drop_bit_xor_0 [where ?'a = 128, of n v a] by (auto simp: Contains_def)

lemma Contains_other_family [simp]:
  "\<not> Contains \<lparr>pAddr = Addr4 a, pBits = n\<rparr> (Addr6 v)"
  "\<not> Contains \<lparr>pAddr = Addr6 a', pBits = n\<rparr> (Addr4 v')"
  by (simp_all add: Contains_def)

lemma ucast_byte_bit: "bit (ucast (b :: byte) :: 'a::len word) n \<longleftrightarrow> n < LENGTH('a) \<and> n < 8 \<and> bit b n"
  using bit_imp_le_length [of b n] by (auto simp: bit_simps)

text \<open>The bytes of an address read from the top: bit \<open>n\<close> is in the byte \<open>n div 8\<close> from the end.\<close>

lemma beWord_bit:
  assumes "n < LENGTH('a::len)" "8 * length bs \<le> LENGTH('a)"
  shows "bit (beWord bs :: 'a word) n \<longleftrightarrow> n div 8 < length bs \<and> bit (rev bs ! (n div 8)) (n mod 8)"
  using assms
proof (induction bs arbitrary: n rule: rev_induct)
  case Nil
  then show ?case by (simp add: beWord_def)
next
  case (snoc b bs)
  have step: "beWord (bs @ [b]) = push_bit 8 (beWord bs :: 'a word) OR ucast b"
    by (simp add: beWord_def)
  show ?case
  proof (cases "n < 8")
    case True
    then show ?thesis using snoc.prems
      by (auto simp: step bit_simps ucast_byte_bit)
  next
    case False
    then obtain m where m: "n = m + 8" by (metis add.commute le_Suc_ex not_less)
    have "bit (beWord (bs @ [b]) :: 'a word) n \<longleftrightarrow> bit (beWord bs :: 'a word) m"
      using snoc.prems(1) byte_high_bits [of b m] by (auto simp: step bit_simps ucast_byte_bit m add.commute)
    also have "\<dots> \<longleftrightarrow> m div 8 < length bs \<and> bit (rev bs ! (m div 8)) (m mod 8)"
      by (rule snoc.IH) (use snoc.prems m in auto)
    moreover have "(m + 8) div 8 = Suc (m div 8)" "(m + 8) mod 8 = m mod 8" by presburger+
    ultimately show ?thesis by (simp add: m)
  qed
qed

lemma beWord_inj:
  assumes "beWord as = (beWord bs :: 'a::len word)" "length as = length bs" "8 * length bs \<le> LENGTH('a)"
  shows "as = bs"
proof -
  have "rev as ! i = rev bs ! i" if "i < length bs" for i
  proof (rule bit_word_eqI)
    fix n assume "n < LENGTH(8)"
    then have n: "n < 8" by simp
    let ?m = "8 * i + n"
    have m: "?m < LENGTH('a)" "?m div 8 = i" "?m mod 8 = n" using that assms(3) n by auto
    have "bit (beWord as :: 'a word) ?m = bit (beWord bs :: 'a word) ?m" using assms(1) by simp
    then show "bit (rev as ! i) n = bit (rev bs ! i) n"
      using beWord_bit [OF m(1), of as] beWord_bit [OF m(1), of bs] assms(2,3) that m by simp
  qed
  then have "rev as = rev bs" using assms(2) by (intro nth_equalityI) auto
  then show ?thesis by simp
qed

lemma beWord_append_high:
  assumes "length cs = 4" "8 * length (bs @ cs) \<le> LENGTH('a)"
  shows "drop_bit 32 (beWord (bs @ cs) :: 'a::len word) = beWord bs"
proof (rule bit_word_eqI)
  fix n assume n: "n < LENGTH('a)"
  show "bit (drop_bit 32 (beWord (bs @ cs) :: 'a word)) n = bit (beWord bs :: 'a word) n"
  proof (cases "n + 32 < LENGTH('a)")
    case True
    have up: "(n + 32) div 8 = n div 8 + 4" "(n + 32) mod 8 = n mod 8" by presburger+
    have "bit (drop_bit 32 (beWord (bs @ cs) :: 'a word)) n = bit (beWord (bs @ cs) :: 'a word) (n + 32)"
      by (simp add: bit_drop_bit_eq add.commute)
    also have "\<dots> = bit (beWord bs :: 'a word) n"
      using beWord_bit [OF True assms(2)] beWord_bit [OF n, of bs] assms
      by (simp add: nth_append up)
    finally show ?thesis .
  next
    case False
    then have "\<not> n div 8 < length bs" using assms by auto
    then show ?thesis using False beWord_bit [OF n, of bs] assms(2)
      by (auto simp: bit_drop_bit_eq dest: bit_imp_le_length)
  qed
qed

lemma beWord_append_low:
  assumes "length cs = 4" "8 * length (bs @ cs) \<le> LENGTH('a)"
  shows "(ucast (beWord (bs @ cs) :: 'a::len word) :: 32 word) = beWord cs"
proof (rule bit_word_eqI)
  fix n assume "n < LENGTH(32)"
  then have n: "n < 32" by simp
  then have "n < LENGTH('a)" "n div 8 < 4" using assms by simp_all
  from this(2) beWord_bit [OF this(1) assms(2)] beWord_bit [where ?'a = 32, of n cs] n assms
  show "bit (ucast (beWord (bs @ cs) :: 'a word) :: 32 word) n = bit (beWord cs :: 32 word) n"
    by (simp add: bit_ucast_iff nth_append)
qed

text \<open>The high byte of an IPv4 address.\<close>

lemma beWord_first:
  "length cs = 3 \<Longrightarrow> drop_bit 24 (beWord (b # cs) :: 32 word) = ucast b"
proof (rule bit_word_eqI)
  fix n assume cs: "length cs = 3" and "n < LENGTH(32)"
  then have n: "n < 32" by simp
  show "bit (drop_bit 24 (beWord (b # cs) :: 32 word)) n = bit (ucast b :: 32 word) n"
  proof (cases "n < 8")
    case True
    have "(n + 24) div 8 = 3" "(n + 24) mod 8 = n" using True by presburger+
    then show ?thesis
      using True beWord_bit [where ?'a = 32, of "n + 24" "b # cs"] cs
      by (simp add: bit_drop_bit_eq ucast_byte_bit nth_append add.commute)
  next
    case False
    then show ?thesis by (auto simp: bit_drop_bit_eq ucast_byte_bit dest: bit_imp_le_length)
  qed
qed

text \<open>The three ways a local client shows up: as 127.x.y.z, as ::1, or as ::ffff:127.x.y.z.\<close>

definition isLoopback :: "byte list \<Rightarrow> bool" where
  "isLoopback ip =
     (length ip = 4 \<and> hd ip = 127 \<or> ip = replicate 15 0 @ [1] \<or>
      length ip = 16 \<and> take 12 ip = replicate 10 0 @ [255, 255] \<and> ip ! 12 = 127)"

lemma Contains_net127:
  assumes "length bs = 4"
  shows "Contains \<lparr>pAddr = Addr4 0x7F000000, pBits = 8\<rparr> (Addr4 (beWord bs)) \<longleftrightarrow> hd bs = 127"
proof -
  obtain b cs where bs: "bs = b # cs" "length cs = 3" using assms by (cases bs) auto
  have n: "drop_bit 24 (0x7F000000 :: 32 word) = ucast (127 :: byte)" by code_simp
  have "x = y" if "ucast x = (ucast y :: 32 word)" for x y :: byte
  proof (rule bit_word_eqI)
    fix n assume "n < LENGTH(8)"
    then show "bit x n = bit y n"
      using ucast_byte_bit [where ?'a = 32, of x n] ucast_byte_bit [where ?'a = 32, of y n] that by simp
  qed
  then have inj: "ucast b = (ucast (127 :: byte) :: 32 word) \<longleftrightarrow> b = 127" by blast
  show ?thesis using inj by (simp add: Contains4 bs beWord_first n)
qed

lemma addrIP_bytes:
  "addr \<in> {UDPAddr ip, TCPAddr ip} \<Longrightarrow> addrIP addr = map_option Unmap (AddrFromSlice ip)"
  by (auto simp: addrIP_def)

lemma Unmap_beWord:
  assumes "length bs = 16"
  shows "Unmap (Addr6 (beWord bs)) =
    (if take 12 bs = replicate 10 0 @ [255, 255] then Addr4 (beWord (drop 12 bs)) else Addr6 (beWord bs))"
proof -
  have split: "length (drop 12 bs) = 4" "8 * length (take 12 bs @ drop 12 bs) \<le> LENGTH(128)"
    using assms by simp_all
  have mark: "beWord (replicate 10 0 @ [255, 255]) = (0xFFFF :: 128 word)" by code_simp
  have "drop_bit 32 (beWord bs :: 128 word) = beWord (take 12 bs)"
    using beWord_append_high [OF split] by simp
  moreover have "beWord (take 12 bs) = (0xFFFF :: 128 word) \<longleftrightarrow> take 12 bs = replicate 10 0 @ [255, 255]"
    using beWord_inj [where ?'a = 128, of "take 12 bs" "replicate 10 0 @ [255, 255]"] assms mark by auto
  moreover have "(ucast (beWord bs :: 128 word) :: 32 word) = beWord (drop 12 bs)"
    using beWord_append_low [OF split] by simp
  ultimately show ?thesis by (simp add: Unmap_def)
qed

lemma permits_loopback:
  assumes "addr \<in> {UDPAddr ip, TCPAddr ip}"
  shows "permits LoopbackOnly addr \<longleftrightarrow> isLoopback ip"
proof -
  note P = permits_def LoopbackOnly_def addrIP_bytes [OF assms] AddrFromSlice_def
  consider "length ip = 4" | "length ip = 16" | "length ip \<notin> {4, 16}" by blast
  then show ?thesis
  proof cases
    case 1
    then show ?thesis using Contains_net127 [OF 1] by (auto simp: P Unmap_def isLoopback_def)
  next
    case 2
    have one: "beWord (replicate 15 0 @ [1]) = (1 :: 128 word)" by code_simp
    have eq: "beWord ip = (1 :: 128 word) \<longleftrightarrow> ip = replicate 15 0 @ [1]"
      using beWord_inj [where ?'a = 128, of ip "replicate 15 0 @ [1]"] 2 one by auto
    have v4: "ip ! 12 = hd (drop 12 ip)" "length (drop 12 ip) = 4" using 2 by (simp_all add: hd_drop_conv_nth)
    show ?thesis
    proof (cases "take 12 ip = replicate 10 0 @ [255, 255]")
      case True
      moreover have "take 12 (replicate 15 0 @ [1]) \<noteq> (replicate 10 0 @ [255, 255] :: byte list)" by code_simp
      ultimately have "ip \<noteq> replicate 15 0 @ [1]" by metis
      then show ?thesis using True 2 v4 Contains_net127 [of "drop 12 ip"]
        by (simp add: P Unmap_beWord isLoopback_def)
    next
      case False
      then show ?thesis using 2 eq by (simp add: P Unmap_beWord isLoopback_def Contains6)
    qed
  next
    case 3
    then show ?thesis by (auto simp: P isLoopback_def)
  qed
qed

text \<open>
  The default policy.  With \<open>LoopbackOnly\<close> the wrapped handler sees exactly the queries of
  this machine, whichever form its address takes; anyone else is told REFUSED, with their own
  ID and question, and neither the handler nor any state it keeps is touched.
\<close>

theorem aclServe_loopback:
  assumes "addr \<in> {UDPAddr ip, TCPAddr ip}"
  shows "aclServe LoopbackOnly next addr req w =
    (if isLoopback ip then next addr req w
     else ([reply (zeroHeader\<lparr>ID := ID (header req), QR := True, Opcode := Opcode (header req),
              RD := RD (header req), RCode := RCodeRefused\<rparr>) (Questions req)], w))"
  using permits_loopback [OF assms] by (simp add: aclServe_def)

theorem aclServe_loopback_witness:
  "fst (aclServe LoopbackOnly (\<lambda>addr req w. ([req], w)) (UDPAddr [127, 0, 0, 5]) (reply zeroHeader []) ()) =
     [reply zeroHeader []] \<and>
   map (RCode \<circ> header) (fst (aclServe LoopbackOnly (\<lambda>addr req w. ([req], w)) (TCPAddr [128, 0, 0, 1])
     (reply zeroHeader []) ())) = [RCodeRefused]"
proof -
  have "isLoopback [127, 0, 0, 5]" "\<not> isLoopback [128, 0, 0, 1]" by code_simp+
  then show ?thesis
    using aclServe_loopback [of "UDPAddr [127, 0, 0, 5]" "[127, 0, 0, 5]" "\<lambda>addr req w. ([req], w)" "reply zeroHeader []" "()"]
      aclServe_loopback [of "TCPAddr [128, 0, 0, 1]" "[128, 0, 0, 1]" "\<lambda>addr req w. ([req], w)" "reply zeroHeader []" "()"]
    by simp
qed

end
