(* ===== verification/Rate_Limit.thy ===== *)
theory Rate_Limit
  imports Access_Control Lru Complex_Main
begin

text \<open>
  The rate limiting middleware (\<open>middleware/ratelimit\<close>): a token bucket for every client
  address, in a table of bounded size.  Its \<open>addrIP\<close> is the one of the access control list.

  The tokens are \<open>float64\<close>s in the code and exact rationals here.  Go ranges over a map in an
  unspecified order that differs from one loop to the next: the order of the scan for the
  least recently seen client is an argument, a list of the keys of the table.
\<close>

section \<open>State and operations\<close>

abbreviation (input) defaultRate :: rat where "defaultRate \<equiv> 50"
abbreviation (input) defaultBurst :: rat where "defaultBurst \<equiv> 100"
abbreviation (input) maxClients :: nat where "maxClients \<equiv> 10000"

record bucket =
  tokens :: rat
  seen :: int

record limiter =
  lRate :: rat
  lBurst :: rat
  clients :: "(ipAddr, bucket) mapping"

definition newLimiter :: "rat \<Rightarrow> rat \<Rightarrow> limiter" where
  "newLimiter rate burst =
     \<lparr>lRate = (if rate \<le> 0 then defaultRate else rate),
      lBurst = (if burst \<le> 0 then defaultBurst else burst), clients = Mapping.empty\<rparr>"

definition Seconds :: "int \<Rightarrow> rat" where
  "Seconds d = of_int d / of_int second"

text \<open>The scan: the client found last among those seen no later than the best so far.\<close>

fun oldestClient ::
  "(ipAddr, bucket) mapping \<Rightarrow> ipAddr list \<Rightarrow> ipAddr option \<times> int \<Rightarrow> ipAddr option \<times> int" where
  "oldestClient m [] best = best"
| "oldestClient m (ip # ips) (oldest, oldestSeen) =
     (case Mapping.lookup m ip of
        None \<Rightarrow> oldestClient m ips (oldest, oldestSeen)
      | Some b \<Rightarrow>
          if \<not> seen b > oldestSeen then oldestClient m ips (Some ip, seen b)
          else oldestClient m ips (oldest, oldestSeen))"

text \<open>The zero \<open>netip.Addr\<close>, which is no client's, is \<open>None\<close>: deleting it changes nothing.\<close>

definition evictIfFull :: "ipAddr list \<Rightarrow> int \<Rightarrow> limiter \<Rightarrow> limiter" where
  "evictIfFull order now h =
     (if Mapping.size (clients h) < maxClients then h
      else case fst (oldestClient (clients h) order (None, now)) of
        None \<Rightarrow> h
      | Some ip \<Rightarrow> h\<lparr>clients := Mapping.delete ip (clients h)\<rparr>)"

definition allow :: "ipAddr list \<Rightarrow> ipAddr \<Rightarrow> int \<Rightarrow> limiter \<Rightarrow> bool \<times> limiter" where
  "allow order ip now h =
     (case Mapping.lookup (clients h) ip of
        None \<Rightarrow>
          let h = evictIfFull order now h in
          (True, h\<lparr>clients := Mapping.update ip \<lparr>tokens = lBurst h - 1, seen = now\<rparr> (clients h)\<rparr>)
      | Some b \<Rightarrow>
          let t = min (tokens b + Seconds (now - seen b) * lRate h) (lBurst h) in
          if t < 1 then
            (False, h\<lparr>clients := Mapping.update ip \<lparr>tokens = t, seen = now\<rparr> (clients h)\<rparr>)
          else
            (True, h\<lparr>clients := Mapping.update ip \<lparr>tokens = t - 1, seen = now\<rparr> (clients h)\<rparr>))"

text \<open>\<open>ServeDNS\<close>: an over-limit client gets no reply at all.\<close>

definition ratelimitServe ::
  "('w \<Rightarrow> int) \<Rightarrow> ('w \<Rightarrow> ipAddr list) \<Rightarrow> 'w handler \<Rightarrow> (limiter \<times> 'w) handler" where
  "ratelimitServe clock order next addr req hw =
     (case hw of (h, w) \<Rightarrow>
        (case addrIP addr of
           None \<Rightarrow> (case next addr req w of (msgs, w') \<Rightarrow> (msgs, (h, w')))
         | Some ip \<Rightarrow>
             (case allow (order w) ip (clock w) h of
                (False, h') \<Rightarrow> ([], (h', w))
              | (True, h') \<Rightarrow> (case next addr req w of (msgs, w') \<Rightarrow> (msgs, (h', w'))))))"

section \<open>The table stays bounded\<close>

text \<open>What holds of a table between queries, when the clock has not passed \<open>now\<close>.\<close>

definition limiterInv :: "int \<Rightarrow> limiter \<Rightarrow> bool" where
  "limiterInv now h =
     (finite (Mapping.keys (clients h)) \<and> Mapping.size (clients h) \<le> maxClients \<and>
      (\<forall>ip b. Mapping.lookup (clients h) ip = Some b \<longrightarrow> seen b \<le> now \<and> tokens b \<le> lBurst h))"

lemma keys_iff: "ip \<in> Mapping.keys m \<longleftrightarrow> (\<exists>b. Mapping.lookup m ip = Some b)"
  by (auto simp: keys_is_none_rep Option.is_none_def)

text \<open>The scan ends with a client that nobody in the list was seen before.\<close>

lemma oldestClient_least:
  assumes "oldestClient m ips (o0, t0) = (o1, t1)"
  shows "t1 \<le> t0 \<and> (\<forall>ip\<in>set ips. \<forall>b. Mapping.lookup m ip = Some b \<longrightarrow> t1 \<le> seen b) \<and>
    (o1 = o0 \<and> t1 = t0 \<or> (\<exists>ip b. o1 = Some ip \<and> ip \<in> set ips \<and> Mapping.lookup m ip = Some b \<and> seen b = t1))"
  using assms
proof (induction ips arbitrary: o0 t0)
  case (Cons ip ips)
  then show ?case
    by (cases "Mapping.lookup m ip") (fastforce split: if_splits)+
qed simp

lemma oldestClient_found:
  assumes "Mapping.lookup m ip = Some b" "seen b \<le> now" "ip \<in> set ips"
  shows "\<exists>ip' b'. fst (oldestClient m ips (None, now)) = Some ip' \<and> Mapping.lookup m ip' = Some b' \<and>
    (\<forall>ip\<in>set ips. \<forall>b. Mapping.lookup m ip = Some b \<longrightarrow> seen b' \<le> seen b)"
proof -
  have some: "fst (oldestClient m ips (o0, t0)) \<noteq> None"
    if "o0 \<noteq> None \<or> (ip \<in> set ips \<and> seen b \<le> t0)" for o0 t0
    using that assms(1)
    by (induction ips arbitrary: o0 t0) (auto split: option.split)
  obtain o1 t1 where r: "oldestClient m ips (None, now) = (o1, t1)" by fastforce
  then have "o1 \<noteq> None" using some [of None now] assms(2,3) by auto
  then show ?thesis using oldestClient_least [OF r] r by auto
qed

text \<open>The order the code ranges in is some order of all the keys.\<close>

definition rangeOrder :: "limiter \<Rightarrow> ipAddr list \<Rightarrow> bool" where
  "rangeOrder h order = (set order = Mapping.keys (clients h))"

lemma evictIfFull_cases:
  assumes "limiterInv now h" "rangeOrder h order"
  shows "Mapping.size (clients h) < maxClients \<and> evictIfFull order now h = h \<or>
    (\<exists>a. a \<in> Mapping.keys (clients h) \<and> evictIfFull order now h = h\<lparr>clients := Mapping.delete a (clients h)\<rparr>)"
proof (cases "Mapping.size (clients h) < maxClients")
  case True
  then show ?thesis by (simp add: evictIfFull_def)
next
  case False
  then have "Mapping.keys (clients h) \<noteq> {}" by (metis Mapping.size_def card.empty zero_less_numeral)
  then obtain ip where k: "ip \<in> Mapping.keys (clients h)" by blast
  then have "ip \<in> set order" using assms(2) by (simp add: rangeOrder_def)
  moreover obtain b where "Mapping.lookup (clients h) ip = Some b" using k by (auto simp: keys_iff)
  ultimately have ip: "ip \<in> set order" "Mapping.lookup (clients h) ip = Some b" by simp_all
  have "seen b \<le> now" using assms(1) ip(2) unfolding limiterInv_def by blast
  from oldestClient_found [OF ip(2) this ip(1)] obtain a b' where
    found: "fst (oldestClient (clients h) order (None, now)) = Some a" "Mapping.lookup (clients h) a = Some b'"
    by blast
  have a: "a \<in> Mapping.keys (clients h)" using found(2) by (simp add: keys_iff)
  from found have "evictIfFull order now h = h\<lparr>clients := Mapping.delete a (clients h)\<rparr>"
    using False by (simp add: evictIfFull_def)
  then show ?thesis using a by blast
qed

lemma limiterInv_delete:
  assumes "limiterInv now h" "a \<in> Mapping.keys (clients h)"
  shows "Mapping.size (Mapping.delete a (clients h)) < maxClients"
    and "limiterInv now (h\<lparr>clients := Mapping.delete a (clients h)\<rparr>)"
proof -
  have fin: "finite (Mapping.keys (clients h))" and small: "Mapping.size (clients h) \<le> maxClients"
    using assms(1) by (simp_all add: limiterInv_def)
  have "Mapping.size (clients h) > 0" using fin assms(2) by (auto simp: Mapping.size_def card_gt_0_iff)
  then show less: "Mapping.size (Mapping.delete a (clients h)) < maxClients"
    using small assms(2) fin by (simp add: size_delete)
  show "limiterInv now (h\<lparr>clients := Mapping.delete a (clients h)\<rparr>)"
    using assms(1) less unfolding limiterInv_def by (simp add: keys_delete lookup_delete_if)
qed

lemma evictIfFull_room:
  assumes "limiterInv now h" "rangeOrder h order" and e_def: "e = evictIfFull order now h"
  shows "Mapping.size (clients e) < maxClients" "limiterInv now e" "lRate e = lRate h" "lBurst e = lBurst h"
    and "Mapping.lookup (clients e) ip = None \<or> Mapping.lookup (clients e) ip = Mapping.lookup (clients h) ip"
proof -
  consider "Mapping.size (clients h) < maxClients" "e = h"
    | a where "a \<in> Mapping.keys (clients h)" "e = h\<lparr>clients := Mapping.delete a (clients h)\<rparr>"
    using evictIfFull_cases [OF assms(1,2)] e_def by blast
  note cases = this
  show "Mapping.size (clients e) < maxClients" using limiterInv_delete(1) [OF assms(1)] by (cases rule: cases) auto
  show "limiterInv now e" using limiterInv_delete(2) [OF assms(1)] assms(1) by (cases rule: cases) auto
  show "lRate e = lRate h" "lBurst e = lBurst h" by (cases rule: cases; simp)+
  show "Mapping.lookup (clients e) ip = None \<or> Mapping.lookup (clients e) ip = Mapping.lookup (clients h) ip"
    by (cases rule: cases) (auto simp: lookup_delete_if)
qed

lemma limiterInv_later: "limiterInv now h \<Longrightarrow> now \<le> now' \<Longrightarrow> limiterInv now' h"
  by (fastforce simp: limiterInv_def)

lemma lookup_update_if: "Mapping.lookup (Mapping.update k v m) k' = (if k' = k then Some v else Mapping.lookup m k')"
  by (cases "k' = k") simp_all

text \<open>What one query does, case by case: a new client, one with no token left, one that has some.\<close>

definition refilled :: "limiter \<Rightarrow> bucket \<Rightarrow> int \<Rightarrow> rat" where
  "refilled h b now = min (tokens b + Seconds (now - seen b) * lRate h) (lBurst h)"

lemma allow_cases:
  "allow order ip now h =
     (case Mapping.lookup (clients h) ip of
        None \<Rightarrow> (True, (evictIfFull order now h)\<lparr>clients := Mapping.update ip
          \<lparr>tokens = lBurst (evictIfFull order now h) - 1, seen = now\<rparr> (clients (evictIfFull order now h))\<rparr>)
      | Some b \<Rightarrow> (\<not> refilled h b now < 1, h\<lparr>clients := Mapping.update ip
          \<lparr>tokens = refilled h b now - (if refilled h b now < 1 then 0 else 1), seen = now\<rparr> (clients h)\<rparr>))"
  by (simp add: allow_def refilled_def Let_def split: option.split)

lemma limiterInv_update:
  assumes "limiterInv now h" "Mapping.size (clients h) < maxClients \<or> Mapping.lookup (clients h) ip \<noteq> None"
    and "t \<le> lBurst h"
  shows "limiterInv now (h\<lparr>clients := Mapping.update ip \<lparr>tokens = t, seen = now\<rparr> (clients h)\<rparr>)"
proof -
  have fin: "finite (Mapping.keys (clients h))" and small: "Mapping.size (clients h) \<le> maxClients"
    using assms(1) by (simp_all add: limiterInv_def)
  have "Mapping.size (Mapping.update ip v (clients h)) \<le> maxClients" for v
    using assms(2) fin small by (auto simp: size_update keys_iff)
  then show ?thesis using assms(1,3) unfolding limiterInv_def by (simp add: keys_update lookup_update_if)
qed

lemma allow_inv:
  assumes "limiterInv now h" "rangeOrder h order" "allow order ip now h = (ok, h')"
  shows "limiterInv now h'" "lRate h' = lRate h" "lBurst h' = lBurst h"
proof -
  define e where "e = evictIfFull order now h"
  note room = evictIfFull_room [OF assms(1,2) e_def]
  have "limiterInv now h' \<and> lRate h' = lRate h \<and> lBurst h' = lBurst h"
  proof (cases "Mapping.lookup (clients h) ip")
    case None
    have "h' = e\<lparr>clients := Mapping.update ip \<lparr>tokens = lBurst e - 1, seen = now\<rparr> (clients e)\<rparr>"
      using assms(3) None by (simp add: allow_cases e_def)
    then show ?thesis using limiterInv_update [OF room(2), of ip "lBurst e - 1"] room(1,3,4) by simp
  next
    case (Some b)
    define t where "t = refilled h b now - (if refilled h b now < 1 then 0 else 1)"
    have "h' = h\<lparr>clients := Mapping.update ip \<lparr>tokens = t, seen = now\<rparr> (clients h)\<rparr>"
      using assms(3) Some by (simp add: allow_cases t_def)
    moreover have "refilled h b now \<le> lBurst h" by (simp add: refilled_def)
    then have "t \<le> lBurst h" by (simp add: t_def)
    ultimately show ?thesis using limiterInv_update [OF assms(1), of ip t] Some by simp
  qed
  then show "limiterInv now h'" "lRate h' = lRate h" "lBurst h' = lBurst h" by simp_all
qed

section \<open>Histories\<close>

text \<open>
  The queries that reach a limiter, with the order of the scan should there be one: served
  one after the other, by a clock that does not go back.
\<close>

inductive limiterRun :: "limiter \<Rightarrow> (ipAddr \<times> int \<times> bool) list \<Rightarrow> int \<Rightarrow> limiter \<Rightarrow> bool" where
  start: "limiterRun (newLimiter rate burst) [] now (newLimiter rate burst)"
| serve: "limiterRun h0 hist now h \<Longrightarrow> now \<le> now' \<Longrightarrow> rangeOrder h order \<Longrightarrow>
    allow order ip now' h = (ok, h') \<Longrightarrow> limiterRun h0 (hist @ [(ip, now', ok)]) now' h'"

lemma limiterRun_inv:
  "limiterRun h0 hist now h \<Longrightarrow> limiterInv now h \<and> lRate h = lRate h0 \<and> lBurst h = lBurst h0"
proof (induction rule: limiterRun.induct)
  case (start rate burst now)
  then show ?case by (simp add: newLimiter_def limiterInv_def)
next
  case (serve h0 hist now h now' order ip ok h')
  then show ?case using allow_inv [OF limiterInv_later] by metis
qed

text \<open>With no more addresses than the table has room for, nobody is evicted.\<close>

abbreviation addresses :: "(ipAddr \<times> int \<times> bool) list \<Rightarrow> ipAddr set" where
  "addresses hist \<equiv> fst ` set hist"

lemma limiterRun_all_present:
  assumes "limiterRun h0 hist now h" "card (addresses hist) \<le> maxClients"
  shows "Mapping.keys (clients h) = addresses hist"
  using assms
proof (induction rule: limiterRun.induct)
  case (start rate burst now)
  then show ?case by (simp add: newLimiter_def)
next
  case (serve h0 hist now h now' order ip ok h')
  have sub: "addresses hist \<subseteq> addresses (hist @ [(ip, now', ok)])" by auto
  have "card (addresses hist) \<le> maxClients" using serve.prems card_mono [OF _ sub] by auto
  then have keys: "Mapping.keys (clients h) = addresses hist" using serve.IH by simp
  show ?case
  proof (cases "Mapping.lookup (clients h) ip")
    case None
    then have "ip \<notin> Mapping.keys (clients h)" by (simp add: keys_iff)
    then have "ip \<notin> addresses hist" using keys by simp
    then have "card (addresses hist) < maxClients" using serve.prems by simp
    then have "evictIfFull order now' h = h"
      using keys by (simp add: evictIfFull_def Mapping.size_def)
    then have "Mapping.keys (clients h') = insert ip (Mapping.keys (clients h))"
      using serve.hyps(4) None by (auto simp: allow_cases keys_update)
    then show ?thesis using keys by simp
  next
    case (Some b)
    then have "ip \<in> Mapping.keys (clients h)" by (simp add: keys_iff)
    then have "ip \<in> addresses hist" using keys by simp
    moreover have "Mapping.keys (clients h') = insert ip (Mapping.keys (clients h))"
      using serve.hyps(4) Some by (auto simp: allow_cases keys_update)
    ultimately show ?thesis using keys by (simp add: insert_absorb)
  qed
qed

text \<open>How many queries of a client were let through since an instant.\<close>

definition admittedSince :: "ipAddr \<Rightarrow> int \<Rightarrow> (ipAddr \<times> int \<times> bool) list \<Rightarrow> nat" where
  "admittedSince a t0 hist = length (filter (\<lambda>(ip, t, ok). ip = a \<and> t0 \<le> t \<and> ok) hist)"

lemma admittedSince_snoc:
  "admittedSince a t0 (hist @ [(ip, t, ok)]) =
     admittedSince a t0 hist + (if ip = a \<and> t0 \<le> t \<and> ok then 1 else 0)"
  by (simp add: admittedSince_def)

lemma Seconds_mono: "a \<le> b \<Longrightarrow> Seconds a \<le> Seconds b"
  by (simp add: Seconds_def second_def divide_right_mono)

lemma Seconds_add: "Seconds (a + b) = Seconds a + Seconds b"
  by (simp add: Seconds_def add_divide_distrib)

lemma Seconds_nonneg: "0 \<le> a \<Longrightarrow> 0 \<le> Seconds a"
  by (simp add: Seconds_def second_def)

text \<open>The account of a client: what it was let through and what it has left is what it was given.\<close>

definition account :: "limiter \<Rightarrow> int \<Rightarrow> nat \<Rightarrow> bucket option \<Rightarrow> bool" where
  "account h t0 n b =
     (case b of
        None \<Rightarrow> n = 0
      | Some b \<Rightarrow> 0 \<le> tokens b \<and> tokens b \<le> lBurst h \<and>
          (seen b < t0 \<and> n = 0 \<or>
           t0 \<le> seen b \<and> of_nat n + tokens b \<le> lBurst h + Seconds (seen b - t0) * lRate h))"

lemma account_refill:
  assumes "account h t0 n (Some b)" "seen b \<le> now" "1 \<le> lBurst h" "0 \<le> lRate h"
    and "t = refilled h b now" "k \<le> (1 :: nat)" "of_nat k \<le> t"
    and "n' = n + (if t0 \<le> now then k else 0)"
  shows "account h t0 n' (Some \<lparr>tokens = t - of_nat k, seen = now\<rparr>)"
proof -
  have gain: "0 \<le> Seconds (now - seen b) * lRate h" using assms(2,4) Seconds_nonneg by simp
  then have t: "t \<le> tokens b + Seconds (now - seen b) * lRate h" "t \<le> lBurst h"
    using assms(5) by (simp_all add: refilled_def)
  have le: "t - of_nat k \<le> lBurst h" "0 \<le> t - of_nat k"
    using t(2) assms(7) by (simp_all add: algebra_simps)
  show ?thesis
  proof (cases "now < t0")
    case True
    then show ?thesis using assms(1,2,8) le by (auto simp: account_def)
  next
    case False
    have "of_nat n + t \<le> lBurst h + Seconds (now - t0) * lRate h"
    proof (cases "seen b < t0")
      case True
      then have "n = 0" using assms(1) by (auto simp: account_def)
      then show ?thesis using t(2) False assms(4) Seconds_nonneg [of "now - t0"] by (simp add: add_increasing2)
    next
      case no: False
      have "Seconds (now - t0) = Seconds (now - seen b) + Seconds (seen b - t0)"
        by (simp flip: Seconds_add)
      moreover have "of_nat n + tokens b \<le> lBurst h + Seconds (seen b - t0) * lRate h"
        using assms(1) no by (simp add: account_def)
      ultimately show ?thesis using t(1) by (simp add: algebra_simps)
    qed
    then show ?thesis using False assms(8) le by (simp add: account_def)
  qed
qed

lemma newLimiter_rate: "0 < lRate (newLimiter rate burst)"
  by (simp add: newLimiter_def)

lemma limiterRun_rate: "limiterRun h0 hist now h \<Longrightarrow> 0 < lRate h0"
  by (induction rule: limiterRun.induct) (simp_all add: newLimiter_rate)

lemma lookup_allow_other:
  assumes "allow order ip now h = (ok, h')" "a \<noteq> ip" "evictIfFull order now h = h \<or> Mapping.lookup (clients h) ip \<noteq> None"
  shows "Mapping.lookup (clients h') a = Mapping.lookup (clients h) a"
  using assms by (auto simp: allow_cases lookup_update_if split: option.splits)

lemma limiterRun_account:
  assumes "limiterRun h0 hist now h" "card (addresses hist) \<le> maxClients" "1 \<le> lBurst h0"
  shows "account h t0 (admittedSince a t0 hist) (Mapping.lookup (clients h) a)"
  using assms
proof (induction rule: limiterRun.induct)
  case (start rate burst now)
  then show ?case by (simp add: account_def newLimiter_def admittedSince_def)
next
  case (serve h0 hist now h now' order ip ok h')
  have sub: "addresses hist \<subseteq> addresses (hist @ [(ip, now', ok)])" by auto
  have small: "card (addresses hist) \<le> maxClients" using serve.prems(1) card_mono [OF _ sub] by auto
  note IH = serve.IH [OF small serve.prems(2)]
  have h: "limiterInv now h" "lRate h = lRate h0" "lBurst h = lBurst h0"
    using limiterRun_inv [OF serve.hyps(1)] by auto
  have h': "limiterInv now' h'" "lRate h' = lRate h" "lBurst h' = lBurst h"
    using allow_inv [OF limiterInv_later [OF h(1) serve.hyps(2)] serve.hyps(3,4)] by auto
  have rate: "0 \<le> lRate h" using limiterRun_rate [OF serve.hyps(1)] h(2) by simp
  have burst: "1 \<le> lBurst h" using serve.prems(2) h(3) by simp
  have same: "account h' = account h" using h' by (simp add: account_def fun_eq_iff cong: option.case_cong)
  have stay: "evictIfFull order now' h = h" if "Mapping.lookup (clients h) ip = None"
  proof -
    have "ip \<notin> Mapping.keys (clients h)" using that by (simp add: keys_iff)
    then have "ip \<notin> addresses hist" using limiterRun_all_present [OF serve.hyps(1) small] by simp
    then have "card (addresses hist) < maxClients" using serve.prems(1) by simp
    then show ?thesis
      using limiterRun_all_present [OF serve.hyps(1) small] by (simp add: evictIfFull_def Mapping.size_def)
  qed
  show ?case
  proof (cases "a = ip")
    case False
    then have "Mapping.lookup (clients h') a = Mapping.lookup (clients h) a"
      using lookup_allow_other [OF serve.hyps(4)] stay by blast
    then show ?thesis using IH False by (simp add: admittedSince_snoc same)
  next
    case a: True
    show ?thesis
    proof (cases "Mapping.lookup (clients h) ip")
      case None
      have "admittedSince a t0 hist = 0" using IH None a by (simp add: account_def)
      moreover have "ok" "Mapping.lookup (clients h') ip = Some \<lparr>tokens = lBurst h - 1, seen = now'\<rparr>"
        using serve.hyps(4) None stay by (auto simp: allow_cases lookup_update_if)
      ultimately show ?thesis
        using a burst rate Seconds_nonneg [of "now' - t0"]
        by (auto simp: same account_def admittedSince_snoc add_increasing2)
    next
      case (Some b)
      define t k where "t = refilled h b now'" "k = (if refilled h b now' < 1 then 0 else 1 :: nat)"
      have seen: "seen b \<le> now'" using h(1) Some serve.hyps(2) unfolding limiterInv_def by fastforce
      have acc: "account h t0 (admittedSince a t0 hist) (Some b)" using IH Some a by simp
      have "0 \<le> refilled h b now'"
        using acc burst rate seen Seconds_nonneg [of "now' - seen b"] by (auto simp: refilled_def account_def)
      then have k: "of_nat k \<le> t" "k \<le> 1" "ok \<longleftrightarrow> k = 1"
        using serve.hyps(4) Some by (auto simp: t_k_def allow_cases)
      have "Mapping.lookup (clients h') ip = Some \<lparr>tokens = t - of_nat k, seen = now'\<rparr>"
        using serve.hyps(4) Some by (auto simp: allow_cases lookup_update_if t_k_def)
      moreover have "admittedSince a t0 (hist @ [(ip, now', ok)]) =
          admittedSince a t0 hist + (if t0 \<le> now' then k else 0)"
        using k a by (auto simp: admittedSince_snoc)
      ultimately show ?thesis
        using account_refill [OF acc seen burst rate t_k_def(1) k(2,1) refl] a by (simp add: same)
    qed
  qed
qed

section \<open>Properties\<close>


text \<open>Three queries at once from one client, with a burst of two.\<close>

definition limiter1 :: limiter where
  "limiter1 = snd (allow [] (Addr4 1) 0 (newLimiter 1 2))"

definition limiter2 :: limiter where
  "limiter2 = snd (allow [Addr4 1] (Addr4 1) 0 limiter1)"

definition limiter3 :: limiter where
  "limiter3 = snd (allow [Addr4 1] (Addr4 1) 0 limiter2)"

lemma limiter_three:
  "limiterRun (newLimiter 1 2) [(Addr4 1, 0, True), (Addr4 1, 0, True), (Addr4 1, 0, False)] 0 limiter3"
proof -
  have a: "allow [] (Addr4 1) 0 (newLimiter 1 2) = (True, limiter1)"
    "allow [Addr4 1] (Addr4 1) 0 limiter1 = (True, limiter2)"
    "allow [Addr4 1] (Addr4 1) 0 limiter2 = (False, limiter3)"
    unfolding limiter3_def limiter2_def limiter1_def
    by (simp_all add: allow_def newLimiter_def evictIfFull_def Mapping.size_def Seconds_def second_def Let_def)
  have r: "rangeOrder (newLimiter 1 2) []" "rangeOrder limiter1 [Addr4 1]" "rangeOrder limiter2 [Addr4 1]"
    unfolding limiter2_def limiter1_def
    by (simp_all add: rangeOrder_def allow_def newLimiter_def evictIfFull_def Mapping.size_def Seconds_def
        second_def Let_def keys_update)
  show ?thesis
    using limiterRun.serve [OF limiterRun.serve [OF limiterRun.serve [OF limiterRun.start [of 1 2 0] _ r(1) a(1)]
          _ r(2) a(2)] _ r(3) a(3)]
    by simp
qed


theorem ratelimit_table_bounded:
  "limiterRun h0 hist now h \<Longrightarrow> Mapping.size (clients h) \<le> maxClients"
  using limiterRun_inv [of h0 hist now h] by (simp add: limiterInv_def)

text \<open>
  A burst below one, which the configuration accepts, is no slow limit but a ban: a client
  that is in the table is never let through again.
\<close>

theorem ratelimit_burst_below_one:
  assumes "Mapping.lookup (clients h) ip = Some b" "lBurst h < 1"
  shows "\<not> fst (allow order ip now h)"
  using assms by (simp add: allow_cases refilled_def min_def)

end
