(* ===== verification/Single_Flight.thy ===== *)
theory Single_Flight
  imports Handlers
begin

text \<open>
  The middleware that collapses concurrent queries (\<open>middleware/singleflight\<close>).  Every query
  runs in a goroutine of its own, so the model is a step relation: a step is what a goroutine
  does under the mutex, one message the wrapped handler writes, its return, or one operation
  on the channel \<open>done\<close>.  Steps of different goroutines interleave in any order.

  Goroutines are numbered.  A \<open>*call\<close> is created by the goroutine that leads it and is named
  after it; \<open>callDone\<close> holds what the call's \<open>msg\<close> is once \<open>done\<close> is closed.
\<close>

section \<open>State\<close>

type_synonym flightKey = "gostr \<times> u16"

datatype thread =
    Passing
  | Leading flightKey "Message option"
  | Closing flightKey "Message option"
  | Waiting flightKey nat
  | Returned

record flights =
  inFlight :: "flightKey \<Rightarrow> nat option"
  callDone :: "nat \<Rightarrow> Message option option"
  threads :: "nat \<Rightarrow> thread option"
  requests :: "nat \<Rightarrow> Message"
  written :: "nat \<Rightarrow> Message list"

definition noFlights :: flights where
  "noFlights = \<lparr>inFlight = (\<lambda>_. None), callDone = (\<lambda>_. None), threads = (\<lambda>_. None),
     requests = (\<lambda>_. reply zeroHeader []), written = (\<lambda>_. [])\<rparr>"

definition flightKeyOf :: "unicode \<Rightarrow> Question \<Rightarrow> flightKey" where
  "flightKeyOf u q = (ToLower u (trimDot (qName q)), qType q)"

definition collapsible :: "Message \<Rightarrow> bool" where
  "collapsible req = (\<not> (length (Questions req) \<noteq> 1 \<or> CD (header req)))"

section \<open>Steps\<close>

text \<open>A query comes in: it passes by, joins the call in flight, or leads a new one.\<close>

definition enter :: "unicode \<Rightarrow> nat \<Rightarrow> Message \<Rightarrow> flights \<Rightarrow> flights" where
  "enter u r req s =
     (let s = s\<lparr>requests := (requests s)(r := req)\<rparr> in
      if \<not> collapsible req then s\<lparr>threads := (threads s)(r := Some Passing)\<rparr>
      else let k = flightKeyOf u (hd (Questions req)) in
        case inFlight s k of
          Some c \<Rightarrow> s\<lparr>threads := (threads s)(r := Some (Waiting k c))\<rparr>
        | None \<Rightarrow> s\<lparr>inFlight := (inFlight s)(k := Some r), threads := (threads s)(r := Some (Leading k None))\<rparr>)"

definition sendTo :: "nat \<Rightarrow> Message \<Rightarrow> flights \<Rightarrow> flights" where
  "sendTo r msg s = s\<lparr>written := (written s)(r := written s r @ [msg])\<rparr>"

text \<open>\<open>recordingWriter.WriteMsg\<close>: remembered for the waiters, and passed on.\<close>

definition leaderWrite :: "nat \<Rightarrow> flightKey \<Rightarrow> Message \<Rightarrow> flights \<Rightarrow> flights" where
  "leaderWrite r k msg s = sendTo r msg (s\<lparr>threads := (threads s)(r := Some (Leading k (Some msg)))\<rparr>)"

text \<open>The deferred function: the call is taken out of the map first, and closed then.\<close>

definition unregister :: "nat \<Rightarrow> flightKey \<Rightarrow> Message option \<Rightarrow> flights \<Rightarrow> flights" where
  "unregister r k msg s =
     s\<lparr>inFlight := (inFlight s)(k := None), threads := (threads s)(r := Some (Closing k msg))\<rparr>"

definition closeCall :: "nat \<Rightarrow> Message option \<Rightarrow> flights \<Rightarrow> flights" where
  "closeCall r msg s =
     s\<lparr>callDone := (callDone s)(r := Some msg), threads := (threads s)(r := Some Returned)\<rparr>"

text \<open>What \<open>waitFor\<close> answers with: the leader's message with this client's ID, RD and question.\<close>

definition shareAnswer :: "Message \<Rightarrow> Message \<Rightarrow> Message" where
  "shareAnswer req msg =
     msg\<lparr>header := (header msg)\<lparr>ID := ID (header req), RD := RD (header req)\<rparr>, Questions := Questions req\<rparr>"

definition wake :: "nat \<Rightarrow> Message option \<Rightarrow> flights \<Rightarrow> flights" where
  "wake r msg s =
     (let s = s\<lparr>threads := (threads s)(r := Some Returned)\<rparr> in
      case msg of None \<Rightarrow> s | Some m \<Rightarrow> sendTo r (shareAnswer (requests s r) m) s)"

inductive flightStep :: "unicode \<Rightarrow> flights \<Rightarrow> flights \<Rightarrow> bool" for u where
  arrive: "threads s r = None \<Longrightarrow> flightStep u s (enter u r req s)"
| pass_write: "threads s r = Some Passing \<Longrightarrow> flightStep u s (sendTo r msg s)"
| pass_return: "threads s r = Some Passing \<Longrightarrow>
    flightStep u s (s\<lparr>threads := (threads s)(r := Some Returned)\<rparr>)"
| lead_write: "threads s r = Some (Leading k m) \<Longrightarrow> flightStep u s (leaderWrite r k msg s)"
| lead_return: "threads s r = Some (Leading k m) \<Longrightarrow> flightStep u s (unregister r k m s)"
| close: "threads s r = Some (Closing k m) \<Longrightarrow> flightStep u s (closeCall r m s)"
| wake: "threads s r = Some (Waiting k c) \<Longrightarrow> callDone s c = Some m \<Longrightarrow> flightStep u s (wake r m s)"
| give_up: "threads s r = Some (Waiting k c) \<Longrightarrow>
    flightStep u s (s\<lparr>threads := (threads s)(r := Some Returned)\<rparr>)"

inductive_cases flightStepE: "flightStep u s s'"

abbreviation flightRun :: "unicode \<Rightarrow> flights \<Rightarrow> bool" where
  "flightRun u s \<equiv> (flightStep u)\<^sup>*\<^sup>* noFlights s"

section \<open>The invariant\<close>

definition lastOf :: "Message list \<Rightarrow> Message option" where
  "lastOf ms = (if ms = [] then None else Some (last ms))"

text \<open>A goroutine that has started asks for the key it leads, closes or waits for.\<close>

definition asks :: "unicode \<Rightarrow> flights \<Rightarrow> nat \<Rightarrow> flightKey \<Rightarrow> bool" where
  "asks u s r k = (collapsible (requests s r) \<and> k = flightKeyOf u (hd (Questions (requests s r))))"

definition threadInv :: "unicode \<Rightarrow> flights \<Rightarrow> nat \<Rightarrow> bool" where
  "threadInv u s r =
     (case threads s r of
        None \<Rightarrow> written s r = [] \<and> callDone s r = None
      | Some Passing \<Rightarrow> callDone s r = None
      | Some (Leading k m) \<Rightarrow>
          asks u s r k \<and> inFlight s k = Some r \<and> callDone s r = None \<and> m = lastOf (written s r)
      | Some (Closing k m) \<Rightarrow> asks u s r k \<and> callDone s r = None \<and> m = lastOf (written s r)
      | Some (Waiting k c) \<Rightarrow>
          asks u s r k \<and> asks u s c k \<and> callDone s r = None \<and> written s r = [] \<and> c \<noteq> r \<and>
          (callDone s c = None \<longrightarrow> (\<exists>m. threads s c = Some (Leading k m) \<or> threads s c = Some (Closing k m)))
      | Some Returned \<Rightarrow> (\<forall>m. callDone s r = Some m \<longrightarrow> m = lastOf (written s r)))"

definition flightInv :: "unicode \<Rightarrow> flights \<Rightarrow> bool" where
  "flightInv u s =
     ((\<forall>r. threadInv u s r) \<and>
      (\<forall>k r. inFlight s k = Some r \<longrightarrow> (\<exists>m. threads s r = Some (Leading k m))))"

lemma lastOf_snoc [simp]: "lastOf (ms @ [m]) = Some m" "lastOf [] = None"
  by (simp_all add: lastOf_def)

lemma flightInvD:
  assumes "flightInv u s"
  shows "threadInv u s r"
    and "inFlight s k = Some r \<Longrightarrow> \<exists>m. threads s r = Some (Leading k m)"
    and "callDone s c = Some m \<Longrightarrow> threads s c = Some Returned \<and> m = lastOf (written s c)"
    and "threads s r = Some (Leading k m) \<Longrightarrow> asks u s r k \<and> inFlight s k = Some r"
proof -
  show t: "threadInv u s r" for r using assms by (simp add: flightInv_def)
  show "inFlight s k = Some r \<Longrightarrow> \<exists>m. threads s r = Some (Leading k m)"
    using assms unfolding flightInv_def by blast
  show "callDone s c = Some m \<Longrightarrow> threads s c = Some Returned \<and> m = lastOf (written s c)"
    using t [of c] by (auto simp: threadInv_def split: option.splits thread.splits)
  show "threads s r = Some (Leading k m) \<Longrightarrow> asks u s r k \<and> inFlight s k = Some r"
    using t [of r] by (simp add: threadInv_def)
qed

text \<open>The call a goroutine waits on is led by a goroutine that has started.\<close>

lemma waiting_leader:
  assumes "flightInv u s" "threads s r = Some (Waiting k c)"
  shows "threads s c \<noteq> None" "asks u s c k" "asks u s r k" "written s r = []"
    "callDone s c = None \<Longrightarrow> \<exists>m. threads s c = Some (Leading k m) \<or> threads s c = Some (Closing k m)"
  using flightInvD(1) [OF assms(1), of r] flightInvD(3) [OF assms(1), of c] assms(2)
  by (cases "callDone s c"; auto simp: threadInv_def)+

lemma noFlights_inv: "flightInv u noFlights"
  by (simp add: flightInv_def threadInv_def noFlights_def)

lemma enter_inv:
  assumes inv: "flightInv u s" and fresh: "threads s r = None"
  shows "flightInv u (enter u r req s)"
proof -
  let ?k = "flightKeyOf u (hd (Questions req))"
  have other: "threadInv u (enter u r req s) r'" if "r' \<noteq> r" for r'
  proof -
    have wait: "c \<noteq> r" if "threads s r' = Some (Waiting k c)" for k c
      using waiting_leader(1) [OF inv that] fresh by auto
    have lead: "inFlight (enter u r req s) k = Some r'" if "threads s r' = Some (Leading k m)" for k m
      using flightInvD(4) [OF inv that]
      by (auto simp: enter_def Let_def split: option.split)
    show ?thesis
      using flightInvD(1) [OF inv, of r'] that wait lead
      by (auto simp: threadInv_def enter_def Let_def asks_def split: option.splits thread.splits if_splits)
  qed
  have self: "threadInv u (enter u r req s) r"
  proof (cases "collapsible req")
    case False
    then show ?thesis using flightInvD(1) [OF inv, of r] fresh
      by (simp add: threadInv_def enter_def Let_def)
  next
    case True
    show ?thesis
    proof (cases "inFlight s ?k")
      case None
      then show ?thesis using flightInvD(1) [OF inv, of r] fresh True
        by (simp add: threadInv_def enter_def Let_def asks_def)
    next
      case (Some c)
      obtain m where c: "threads s c = Some (Leading ?k m)" using flightInvD(2) [OF inv Some] by blast
      then have "c \<noteq> r" "asks u s c ?k" using fresh flightInvD(4) [OF inv c] by auto
      then show ?thesis using flightInvD(1) [OF inv, of r] fresh True Some c
        by (auto simp: threadInv_def enter_def Let_def asks_def)
    qed
  qed
  have "\<exists>m. threads (enter u r req s) r' = Some (Leading k m)" if "inFlight (enter u r req s) k = Some r'" for k r'
    using that flightInvD(2) [OF inv, of k r'] fresh
    by (auto simp: enter_def Let_def split: option.splits if_splits)
  then show ?thesis using other self unfolding flightInv_def by metis
qed

text \<open>
  The other steps change one goroutine that has started.  A goroutine waiting for it goes on
  finding its leader if it still leads or closes the same key, or its call is done.
\<close>

lemma one_thread_inv:
  assumes inv: "flightInv u s" and t: "threads s r = Some t"
    and s': "requests s' = requests s" "\<And>r'. r' \<noteq> r \<Longrightarrow> threads s' r' = threads s r' \<and>
        written s' r' = written s r' \<and> callDone s' r' = callDone s r'"
    and self: "threadInv u s' r"
    and waiters: "\<And>r' k. threads s r' = Some (Waiting k r) \<Longrightarrow> callDone s' r = None \<Longrightarrow>
        \<exists>m. threads s' r = Some (Leading k m) \<or> threads s' r = Some (Closing k m)"
    and flight: "\<And>k r'. r' \<noteq> r \<Longrightarrow> inFlight s' k = Some r' \<longleftrightarrow> inFlight s k = Some r'"
      "\<And>k. inFlight s' k = Some r \<Longrightarrow> \<exists>m. threads s' r = Some (Leading k m)"
  shows "flightInv u s'"
proof -
  have "threadInv u s' r'" for r'
  proof (cases "r' = r")
    case False
    have asks: "asks u s' = asks u s" by (simp add: asks_def s'(1) fun_eq_iff)
    show ?thesis
    proof (cases "\<exists>k c. threads s r' = Some (Waiting k c)")
      case True
      then obtain k c where w: "threads s r' = Some (Waiting k c)" by blast
      show ?thesis
        using flightInvD(1) [OF inv, of r'] s'(2) [OF False] s'(2) [of c] w waiters [of r' k]
        by (cases "c = r") (simp_all add: threadInv_def asks)
    next
      case no: False
      then show ?thesis
        using flightInvD(1) [OF inv, of r'] s'(2) [OF False] flight(1) [OF False]
        by (auto simp: threadInv_def asks split: option.splits thread.splits)
    qed
  qed (use self in simp)
  moreover have "\<exists>m. threads s' r' = Some (Leading k m)" if "inFlight s' k = Some r'" for k r'
    using that flight flightInvD(2) [OF inv, of k r'] s'(2) [of r'] by (cases "r' = r") auto
  ultimately show ?thesis by (simp add: flightInv_def)
qed

text \<open>The same, with the changes written out.\<close>

definition withThread ::
  "nat \<Rightarrow> thread \<Rightarrow> Message list \<Rightarrow> Message option option \<Rightarrow> (flightKey \<Rightarrow> nat option) \<Rightarrow> flights \<Rightarrow> flights" where
  "withThread r t ws d f s = s\<lparr>inFlight := f, threads := (threads s)(r := Some t),
     written := (written s)(r := ws), callDone := (callDone s)(r := d)\<rparr>"

lemma withThread_inv:
  assumes inv: "flightInv u s" and t: "threads s r = Some t" "t \<noteq> Returned"
    and self: "threadInv u (withThread r t' ws d f s) r"
    and waiters: "\<And>k m. d = None \<Longrightarrow> t = Leading k m \<or> t = Closing k m \<Longrightarrow>
        \<exists>m. t' = Leading k m \<or> t' = Closing k m"
    and flight: "f = inFlight s \<or> (\<exists>k m. t = Leading k m \<and> f = (inFlight s)(k := None))"
    and lead: "\<And>k m. t = Leading k m \<Longrightarrow> f k = Some r \<Longrightarrow> \<exists>m. t' = Leading k m"
  shows "flightInv u (withThread r t' ws d f s)"
proof (rule one_thread_inv [OF inv t(1) _ _ self])
  have open': "callDone s r = None" using flightInvD(3) [OF inv, of r] t by (cases "callDone s r") auto
  fix r' k
  assume "threads s r' = Some (Waiting k r)" "callDone (withThread r t' ws d f s) r = None"
  then show "\<exists>m. threads (withThread r t' ws d f s) r = Some (Leading k m) \<or>
      threads (withThread r t' ws d f s) r = Some (Closing k m)"
    using waiting_leader(5) [OF inv _ open'] waiters t by (fastforce simp: withThread_def)
next
  fix k r'
  assume "r' \<noteq> r"
  moreover have "inFlight s l = Some r" if "t = Leading l m" for l m
    using flightInvD(4) [OF inv] t(1) that by blast
  ultimately show "inFlight (withThread r t' ws d f s) k = Some r' \<longleftrightarrow> inFlight s k = Some r'"
    using flight by (auto simp: withThread_def split: if_splits)
next
  fix k
  assume "inFlight (withThread r t' ws d f s) k = Some r"
  then have f: "f k = Some r" by (simp add: withThread_def)
  then have "inFlight s k = Some r" using flight by (auto split: if_splits)
  then obtain m where "t = Leading k m" using flightInvD(2) [OF inv] t by fastforce
  then show "\<exists>m. threads (withThread r t' ws d f s) r = Some (Leading k m)"
    using lead f by (simp add: withThread_def)
qed (simp_all add: withThread_def)

lemma withThread_steps:
  "threads s r = Some Passing \<Longrightarrow>
     sendTo r msg s = withThread r Passing (written s r @ [msg]) (callDone s r) (inFlight s) s"
  "s\<lparr>threads := (threads s)(r := Some t)\<rparr> = withThread r t (written s r) (callDone s r) (inFlight s) s"
  "leaderWrite r k msg s =
     withThread r (Leading k (Some msg)) (written s r @ [msg]) (callDone s r) (inFlight s) s"
  "unregister r k m s =
     withThread r (Closing k m) (written s r) (callDone s r) ((inFlight s)(k := None)) s"
  "closeCall r m s = withThread r Returned (written s r) (Some m) (inFlight s) s"
  "wake r m s = withThread r Returned
     (written s r @ (case m of None \<Rightarrow> [] | Some m \<Rightarrow> [shareAnswer (requests s r) m])) (callDone s r) (inFlight s) s"
  by (simp_all add: withThread_def sendTo_def leaderWrite_def unregister_def closeCall_def wake_def Let_def
      fun_upd_idem split: option.split)

lemma asks_withThread [simp]: "asks u (withThread r t ws d f s) = asks u s"
  by (simp add: asks_def withThread_def fun_eq_iff)

lemma withThread_self:
  "threads (withThread r t ws d f s) r = Some t" "written (withThread r t ws d f s) r = ws"
  "callDone (withThread r t ws d f s) r = d" "inFlight (withThread r t ws d f s) = f"
  by (simp_all add: withThread_def)

lemma flightStep_inv:
  assumes "flightStep u s s'" and inv: "flightInv u s"
  shows "flightInv u s'"
  using assms(1)
proof (cases rule: flightStep.cases)
  case (arrive r req)
  then show ?thesis using enter_inv [OF inv] by simp
next
  case (pass_write r msg)
  then show ?thesis using flightInvD(1) [OF inv, of r]
    by (simp only: withThread_steps) (rule withThread_inv [OF inv pass_write(2)]; simp add: threadInv_def withThread_self)
next
  case (pass_return r)
  then show ?thesis using flightInvD(1) [OF inv, of r]
    by (simp only: withThread_steps) (rule withThread_inv [OF inv pass_return(2)]; simp add: threadInv_def withThread_self)
next
  case (lead_write r k m msg)
  then show ?thesis using flightInvD(1) [OF inv, of r]
    by (simp only: withThread_steps) (rule withThread_inv [OF inv lead_write(2)]; simp add: threadInv_def withThread_self)
next
  case (lead_return r k m)
  then show ?thesis using flightInvD(1) [OF inv, of r]
    by (simp only: withThread_steps) (rule withThread_inv [OF inv lead_return(2)]; simp add: threadInv_def withThread_self)
next
  case (close r k m)
  then show ?thesis using flightInvD(1) [OF inv, of r]
    by (simp only: withThread_steps) (rule withThread_inv [OF inv close(2)]; simp add: threadInv_def withThread_self)
next
  case (wake r k c m)
  then show ?thesis using flightInvD(1) [OF inv, of r]
    by (simp only: withThread_steps) (rule withThread_inv [OF inv wake(2)]; simp add: threadInv_def withThread_self)
next
  case (give_up r k c)
  then show ?thesis using flightInvD(1) [OF inv, of r]
    by (simp only: withThread_steps) (rule withThread_inv [OF inv give_up(2)]; simp add: threadInv_def withThread_self)
qed

lemma flightRun_inv: "flightRun u s \<Longrightarrow> flightInv u s"
  by (induction rule: rtranclp_induct) (auto simp: noFlights_inv flightStep_inv)

section \<open>Progress of the waiters\<close>

lemma wake_written:
  assumes "flightInv u s" "threads s r = Some (Waiting k c)" "callDone s c = Some m"
  shows "written (wake r m s) r =
      (if written s c = [] then [] else [shareAnswer (requests s r) (last (written s c))])"
proof -
  have "m = lastOf (written s c)" using flightInvD(3) [OF assms(1,3)] by simp
  then show ?thesis
    using waiting_leader(4) [OF assms(1,2)] by (simp add: wake_def sendTo_def Let_def lastOf_def)
qed

text \<open>\<open>answeredLike s s' r c\<close>: in \<open>s'\<close> the waiter \<open>r\<close> has what the leader \<open>c\<close> had sent in \<open>s\<close>.\<close>

definition answeredLike :: "flights \<Rightarrow> flights \<Rightarrow> nat \<Rightarrow> nat \<Rightarrow> bool" where
  "answeredLike s s' r c =
     (threads s' r = Some Returned \<and>
      written s' r = (if written s c = [] then [] else [shareAnswer (requests s r) (last (written s c))]))"

lemma waiter_done:
  assumes "flightInv u s" "threads s r = Some (Waiting k c)" "callDone s c = Some m"
  shows "\<exists>s'. (flightStep u)\<^sup>*\<^sup>* s s' \<and> answeredLike s s' r c"
proof (intro exI [of _ "wake r m s"] conjI)
  show "(flightStep u)\<^sup>*\<^sup>* s (wake r m s)" using flightStep.wake [OF assms(2,3)] by blast
  have "threads (wake r m s) r = Some Returned"
    by (simp add: wake_def sendTo_def Let_def split: option.split)
  then show "answeredLike s (wake r m s) r c"
    unfolding answeredLike_def using wake_written [OF assms] by blast
qed

text \<open>A step of the leader that writes nothing brings the waiter nearer.\<close>

lemma waiter_later:
  assumes "flightStep u s s1" "requests s1 = requests s" "written s1 = written s"
    and "\<exists>s'. (flightStep u)\<^sup>*\<^sup>* s1 s' \<and> answeredLike s1 s' r c"
  shows "\<exists>s'. (flightStep u)\<^sup>*\<^sup>* s s' \<and> answeredLike s s' r c"
  using assms unfolding answeredLike_def by (metis converse_rtranclp_into_rtranclp)

lemma waiter_closing:
  assumes inv: "flightInv u s" and w: "threads s r = Some (Waiting k c)" "threads s c = Some (Closing k' m)"
  shows "\<exists>s'. (flightStep u)\<^sup>*\<^sup>* s s' \<and> answeredLike s s' r c"
proof (rule waiter_later [OF flightStep.close [OF w(2)]])
  have inv': "flightInv u (closeCall c m s)" by (rule flightStep_inv [OF flightStep.close [OF w(2)] inv])
  show "\<exists>s'. (flightStep u)\<^sup>*\<^sup>* (closeCall c m s) s' \<and> answeredLike (closeCall c m s) s' r c"
    by (rule waiter_done [OF inv', of r k c m]) (use w in \<open>auto simp: closeCall_def\<close>)
qed (simp_all add: closeCall_def)

lemma waiter_leading:
  assumes inv: "flightInv u s" and w: "threads s r = Some (Waiting k c)" "threads s c = Some (Leading k' m)"
  shows "\<exists>s'. (flightStep u)\<^sup>*\<^sup>* s s' \<and> answeredLike s s' r c"
proof (rule waiter_later [OF flightStep.lead_return [OF w(2)]])
  have inv': "flightInv u (unregister c k' m s)" by (rule flightStep_inv [OF flightStep.lead_return [OF w(2)] inv])
  show "\<exists>s'. (flightStep u)\<^sup>*\<^sup>* (unregister c k' m s) s' \<and> answeredLike (unregister c k' m s) s' r c"
    by (rule waiter_closing [OF inv', of r k c k' m]) (use w in \<open>auto simp: unregister_def\<close>)
qed (simp_all add: unregister_def)

section \<open>Properties\<close>


text \<open>Two clients ask for the same name in different case, and the first is answered.\<close>

definition exampleQuery :: "nat \<Rightarrow> Message" where
  "exampleQuery n = reply (zeroHeader\<lparr>ID := of_nat n\<rparr>)
     [\<lparr>qName = lit (if n = 5 then ''Example.com'' else ''example.COM.''), qType = 1, qClass = 1\<rparr>]"

definition exampleKey :: flightKey where
  "exampleKey = (lit ''example.com'', 1)"

definition joined :: flights where
  "joined = leaderWrite 5 exampleKey (reply (zeroHeader\<lparr>RCode := 3\<rparr>) [])
     (enter plainUnicode 7 (exampleQuery 7) (enter plainUnicode 5 (exampleQuery 5) noFlights))"

lemma exampleKeys:
  "collapsible (exampleQuery 5)" "flightKeyOf plainUnicode (hd (Questions (exampleQuery 5))) = exampleKey"
  "collapsible (exampleQuery 7)" "flightKeyOf plainUnicode (hd (Questions (exampleQuery 7))) = exampleKey"
  by code_simp+

lemma joined_eq:
  "threads joined = [5 \<mapsto> Leading exampleKey (Some (reply (zeroHeader\<lparr>RCode := 3\<rparr>) [])), 7 \<mapsto> Waiting exampleKey 5]"
  "written joined 5 = [reply (zeroHeader\<lparr>RCode := 3\<rparr>) []]" "requests joined 7 = exampleQuery 7"
  by (auto simp: joined_def enter_def leaderWrite_def sendTo_def noFlights_def exampleKeys Let_def)

lemma joined_run: "flightRun plainUnicode joined"
proof -
  let ?s1 = "enter plainUnicode 5 (exampleQuery 5) noFlights"
  let ?s2 = "enter plainUnicode 7 (exampleQuery 7) ?s1"
  have "threads ?s1 7 = None" "threads ?s2 5 = Some (Leading exampleKey None)" "threads noFlights 5 = None"
    by (simp_all add: enter_def noFlights_def exampleKeys Let_def)
  then have "flightStep plainUnicode noFlights ?s1" "flightStep plainUnicode ?s1 ?s2" "flightStep plainUnicode ?s2 joined"
    unfolding joined_def by (auto intro: flightStep.arrive flightStep.lead_write)
  then show ?thesis by (meson converse_rtranclp_into_rtranclp r_into_rtranclp)
qed


text \<open>
  No waiter is left behind, and each gets its leader's answer.  From every reachable state
  steps of the leader - the wrapped handler returns, the call is closed - and the waiter's
  own bring it to its return; it was asking the same question as the leader, neither of them
  with CD, and it has then been sent the last message the leader's client had been sent, with
  its own ID, RD and question, or nothing if that client had been sent nothing.
\<close>

theorem singleflight_waiter_answered:
  assumes "flightRun u s" "threads s r = Some (Waiting k c)"
  shows "asks u s r k \<and> asks u s c k \<and>
    (\<exists>s'. (flightStep u)\<^sup>*\<^sup>* s s' \<and> threads s' r = Some Returned \<and>
      written s' r = (if written s c = [] then [] else [shareAnswer (requests s r) (last (written s c))]))"
proof -
  note inv = flightRun_inv [OF assms(1)]
  have "\<exists>s'. (flightStep u)\<^sup>*\<^sup>* s s' \<and> answeredLike s s' r c"
    using waiting_leader(5) [OF inv assms(2)] waiter_done [OF inv assms(2)] waiter_closing [OF inv assms(2)]
      waiter_leading [OF inv assms(2)] by (cases "callDone s c") blast+
  then show ?thesis using waiting_leader(2,3) [OF inv assms(2)] unfolding answeredLike_def by blast
qed

theorem singleflight_waiter_answered_witness:
  "\<exists>s'. (flightStep plainUnicode)\<^sup>*\<^sup>* joined s' \<and> map (RCode \<circ> header) (written s' 7) = [3] \<and>
    map (ID \<circ> header) (written s' 7) = [7]"
proof -
  have "threads joined 7 = Some (Waiting exampleKey 5)" by (simp add: joined_eq)
  from singleflight_waiter_answered [OF joined_run this]
  obtain s' where "(flightStep plainUnicode)\<^sup>*\<^sup>* joined s'"
    "written s' 7 = [shareAnswer (exampleQuery 7) (reply (zeroHeader\<lparr>RCode := 3\<rparr>) [])]"
    by (auto simp: joined_eq)
  then show ?thesis by (intro exI [of _ s']) (simp add: shareAnswer_def exampleQuery_def)
qed

text \<open>Nothing stays registered once its leader has returned.\<close>

theorem singleflight_no_leak:
  assumes "flightRun u s" "\<And>r. threads s r \<in> {None, Some Returned}"
  shows "inFlight s k = None"
proof (cases "inFlight s k")
  case (Some r)
  then obtain m where "threads s r = Some (Leading k m)"
    using flightInvD(2) [OF flightRun_inv [OF assms(1)]] by blast
  then show ?thesis using assms(2) [of r] by simp
qed

end
