(* ===== verification/Dns_Server.thy ===== *)
theory Dns_Server
  imports Handlers Dnssec_Records
begin

text \<open>
  What the server does with queries (\<open>dnsserver/server.go\<close>): what happens to one datagram, the
  queries on one TCP connection, and the messages written back.  The sockets themselves are
  left out: a datagram is a list of bytes, and a connection is the bytes that arrive on it
  until it is closed or goes idle.
\<close>

section \<open>Writing replies\<close>

abbreviation (input) maxUDPResponseSize :: nat where "maxUDPResponseSize \<equiv> 512"
abbreviation (input) maxUDPPacketSize :: nat where "maxUDPPacketSize \<equiv> 4096"

definition withOPT :: "RR list \<Rightarrow> nat \<Rightarrow> RR list" where
  "withOPT additionals udpSize =
     filter (\<lambda>rr. rrType rr \<noteq> TypeOPT) additionals @ [NewOPT (word_of_nat udpSize) NoDNSSEC]"

record udpResponseWriter =
  maxSize :: nat
  clientUsedEDNS0 :: bool

text \<open>The message as it is packed, and the one packed when that is too large.\<close>

definition outMsg :: "bool \<Rightarrow> nat \<Rightarrow> Message \<Rightarrow> Message" where
  "outMsg edns0 udpSize msg =
     (if edns0 then msg\<lparr>Additionals := withOPT (Additionals msg) udpSize\<rparr> else msg)"

definition truncatedMsg :: "Message \<Rightarrow> Message" where
  "truncatedMsg out =
     out\<lparr>header := (header out)\<lparr>TC := True\<rparr>, Answers := [], Authorities := []\<rparr>"

text \<open>\<open>udpResponseWriter.WriteMsg\<close>: the datagram handed to the socket.\<close>

definition udpWriteMsg :: "unicode \<Rightarrow> udpResponseWriter \<Rightarrow> Message \<Rightarrow> wireErr + byte list" where
  "udpWriteMsg u w msg =
     (let out = outMsg (clientUsedEDNS0 w) (maxSize w) msg in
      bindR (Pack u out) (\<lambda>packet.
        if length packet > maxSize w then Pack u (truncatedMsg out) else Inr packet))"

text \<open>\<open>tcpResponseWriter.WriteMsg\<close>: the bytes written to the connection.\<close>

definition tcpWriteMsg :: "unicode \<Rightarrow> bool \<Rightarrow> Message \<Rightarrow> wireErr + byte list" where
  "tcpWriteMsg u edns0 msg =
     bindR (Pack u (outMsg edns0 maxUDPPacketSize msg)) (\<lambda>packet.
       Inr (put16 (word_of_nat (length packet)) @ packet))"

section \<open>Serving queries\<close>

definition udpWriterFor :: "Message \<Rightarrow> udpResponseWriter" where
  "udpWriterFor req =
     (case OPT req of
        None \<Rightarrow> \<lparr>maxSize = maxUDPResponseSize, clientUsedEDNS0 = False\<rparr>
      | Some opt \<Rightarrow>
          let size = unat (UDPSize opt) in
          \<lparr>maxSize = (if size > maxUDPResponseSize then min size maxUDPPacketSize else maxUDPResponseSize),
           clientUsedEDNS0 = True\<rparr>)"

text \<open>What is sent for the messages a handler writes; one that cannot be packed is not sent.\<close>

definition sent :: "(Message \<Rightarrow> wireErr + byte list) \<Rightarrow> Message list \<Rightarrow> byte list list" where
  "sent wr msgs = concat (map (\<lambda>m. case wr m of Inl _ \<Rightarrow> [] | Inr p \<Rightarrow> [p]) msgs)"

definition handleUDPQuery ::
  "unicode \<Rightarrow> 'w handler \<Rightarrow> byte list \<Rightarrow> byte list \<Rightarrow> 'w \<Rightarrow> byte list list \<times> 'w" where
  "handleUDPQuery u handler ip data w =
     (case Unpack data of
        Inl _ \<Rightarrow> ([], w)
      | Inr req \<Rightarrow>
          (case handler (UDPAddr ip) req w of
             (msgs, w) \<Rightarrow> (sent (udpWriteMsg u (udpWriterFor req)) msgs, w)))"

text \<open>
  The loop of \<open>handleTCPConn\<close> on the bytes that arrive; a \<open>ReadFull\<close> that finds too few ends
  it.  The result is what was written, one element for each reply.
\<close>

function handleTCPConn ::
  "unicode \<Rightarrow> 'w handler \<Rightarrow> byte list \<Rightarrow> byte list \<Rightarrow> 'w \<Rightarrow> byte list list \<times> 'w" where
  "handleTCPConn u handler ip stream w =
     (if length stream < 2 then ([], w)
      else let n = unat (be16 (stream ! 0) (stream ! 1)); rest = drop 2 stream in
        if length rest < n then ([], w)
        else case Unpack (take n rest) of
            Inl _ \<Rightarrow> ([], w)
          | Inr req \<Rightarrow>
              (case handler (TCPAddr ip) req w of
                 (msgs, w) \<Rightarrow>
                   (case handleTCPConn u handler ip (drop n rest) w of
                      (replies, w) \<Rightarrow> (sent (tcpWriteMsg u (OPT req \<noteq> None)) msgs @ replies, w))))"
  by pat_completeness auto
termination
  by (relation "measure (\<lambda>(u, handler, ip, stream, w). length stream)") auto

declare handleTCPConn.simps [simp del]

section \<open>Sizes of datagrams\<close>

lemma writeName_growth:
  assumes "writeName u n e = Inr e'"
  shows "length (ebuf e') \<le> length (ebuf e) + 258"
proof -
  define ls where "ls = (if trimDot n = [] then [] else splitDot (trimDot n))"
  have ls: "ls = splitName n" by (simp add: ls_def splitName_def Let_def)
  from assms have len: "length (trimDot n) \<le> maxNameLength"
    by (auto simp: writeName_def Let_def split: if_splits)
  then have wire: "length (encLabels ls) \<le> 256" by (simp add: ls length_encLabels_splitName)
  show ?thesis
  proof (cases "findSuffix u (names e) ls")
    case None
    with assms len obtain e1 where "writeLabels u ls e = Inr e1" "e' = emit [0] e1"
      by (auto simp: writeName_def Let_def ls_def bindR_eq_Inr)
    moreover from this(1) have "ebuf e1 = ebuf e @ encLabels ls" using writeLabels_shape by blast
    ultimately show ?thesis using wire by (simp add: emit_def)
  next
    case (Some p)
    obtain before offset where p: "p = (before, offset)" by (cases p)
    with assms len Some obtain buf where "appendLabels before (ebuf e) = Inr buf"
      "e' = e\<lparr>ebuf := buf @ pointerBytes offset\<rparr>"
      by (auto simp: writeName_def Let_def ls_def bindR_eq_Inr)
    moreover from this(1) have "buf = ebuf e @ encLabels before" by (simp add: appendLabels_Inr)
    moreover obtain rest where "ls = before @ rest" using findSuffix_Some Some p by blast
    ultimately show ?thesis using wire by (simp add: pointerBytes_def)
  qed
qed

lemma writeOPT_growth:
  assumes "writeRR u (NewOPT sz do) e = Inr e'"
  shows "length (ebuf e') = length (ebuf e) + 11"
  using assms
  by (auto simp: writeRR_def writeName_def trimDot_def Let_def bindR_eq_Inr writeRdata_def emit_def
      writeUint16_def writeUint32_def patch16_def NewOPT_def zeroRR_def dot_def split: if_splits)

lemma writeQuestion_growth: "writeQuestion u q e = Inr e' \<Longrightarrow> length (ebuf e') \<le> length (ebuf e) + 262"
  using writeName_growth [of u "qName q" e]
  by (auto simp: writeQuestion_def bindR_eq_Inr writeUint16_def emit_def)

text \<open>A reply without records has twelve bytes of header, a question and an OPT record.\<close>

lemma empty_reply_small:
  assumes "Pack u (truncatedMsg (outMsg edns sz msg)) = Inr p" "length (Questions msg) \<le> 1" "Additionals msg = []"
  shows "length p \<le> 285"
proof -
  let ?m = "truncatedMsg (outMsg edns sz msg)"
  obtain e1 e2 where e: "writeQuestions u (Questions msg) (newEncoder\<lparr>ebuf := headerBytes ?m\<rparr>) = Inr e1"
    "writeRRs u (if edns then [NewOPT (word_of_nat sz) False] else []) e1 = Inr e2" "p = ebuf e2"
    using assms(1,3)
    by (cases edns) (auto simp: Pack_def truncatedMsg_def outMsg_def withOPT_def bindR_eq_Inr)
  have "length (ebuf e1) \<le> 12 + 262"
  proof (cases "Questions msg")
    case Nil
    then show ?thesis using e(1) by auto
  next
    case (Cons q qs)
    then have "writeQuestion u q (newEncoder\<lparr>ebuf := headerBytes ?m\<rparr>) = Inr e1"
      using e(1) assms(2) by (simp add: bindR_eq_Inr)
    then show ?thesis using writeQuestion_growth by fastforce
  qed
  moreover have "length (ebuf e2) \<le> length (ebuf e1) + 11"
    using e(2) writeOPT_growth by (auto simp: bindR_eq_Inr split: if_splits)
  ultimately show ?thesis using e(3) by simp
qed

lemma udpWriterFor_sizes:
  "maxUDPResponseSize \<le> maxSize (udpWriterFor req)" "maxSize (udpWriterFor req) \<le> maxUDPPacketSize"
  "maxSize (udpWriterFor req) \<le>
     max maxUDPResponseSize (case OPT req of None \<Rightarrow> 0 | Some opt \<Rightarrow> unat (UDPSize opt))"
  by (auto simp: udpWriterFor_def Let_def split: option.split)

lemma udpWriteMsg_cases:
  assumes "udpWriteMsg u w msg = Inr p"
  shows "length p \<le> maxSize w \<and> Pack u (outMsg (clientUsedEDNS0 w) (maxSize w) msg) = Inr p \<or>
    Pack u (truncatedMsg (outMsg (clientUsedEDNS0 w) (maxSize w) msg)) = Inr p"
  using assms by (auto simp: udpWriteMsg_def Let_def bindR_eq_Inr split: if_splits)

lemma in_sent: "p \<in> set (sent wr msgs) \<longleftrightarrow> (\<exists>m\<in>set msgs. wr m = Inr p)"
  by (force simp: sent_def split: sum.splits)

section \<open>Framing on a connection\<close>

definition frame :: "byte list \<Rightarrow> byte list" where
  "frame p = put16 (word_of_nat (length p)) @ p"

lemma be16_frame: "be16 (frame p ! 0) (frame p ! 1) = word_of_nat (length p)"
  using be16_put16 [of "word_of_nat (length p)"] by (simp add: frame_def put16_def)

lemma frame_length: "unat (be16 (frame p ! 0) (frame p ! 1)) = length p mod 65536"
  unfolding be16_frame by (simp add: unsigned_of_nat take_bit_eq_mod)

text \<open>What a connection should come to: every request answered in turn.\<close>

fun serveInOrder ::
  "unicode \<Rightarrow> 'w handler \<Rightarrow> byte list \<Rightarrow> Message list \<Rightarrow> 'w \<Rightarrow> byte list list \<times> 'w" where
  "serveInOrder u handler ip [] w = ([], w)"
| "serveInOrder u handler ip (req # reqs) w =
     (case handler (TCPAddr ip) req w of
        (msgs, w) \<Rightarrow>
          (case serveInOrder u handler ip reqs w of
             (replies, w) \<Rightarrow> (sent (tcpWriteMsg u (OPT req \<noteq> None)) msgs @ replies, w)))"

lemma handleTCPConn_frame:
  assumes "length p < 65536" "Unpack p = Inr req"
  shows "handleTCPConn u handler ip (frame p @ rest) w =
    (case handler (TCPAddr ip) req w of
        (msgs, w) \<Rightarrow>
          (case handleTCPConn u handler ip rest w of
             (replies, w) \<Rightarrow> (sent (tcpWriteMsg u (OPT req \<noteq> None)) msgs @ replies, w)))"
proof -
  have n: "unat (be16 ((frame p @ rest) ! 0) ((frame p @ rest) ! 1)) = length p"
    using frame_length [of p] assms(1) by (simp add: frame_def put16_def)
  have d: "drop 2 (frame p @ rest) = p @ rest" "\<not> length (frame p @ rest) < 2"
    by (simp_all add: frame_def put16_def)
  show ?thesis
    unfolding handleTCPConn.simps [of u handler ip "frame p @ rest" w] n d Let_def
    using assms(2) d(2) by simp
qed

lemma handleTCPConn_frames:
  "list_all2 (\<lambda>p req. length p < 65536 \<and> Unpack p = Inr req) ps reqs \<Longrightarrow> length rest < 2 \<Longrightarrow>
     handleTCPConn u handler ip (concat (map frame ps) @ rest) w = serveInOrder u handler ip reqs w"
proof (induction ps reqs arbitrary: w rule: list_all2_induct)
  case Nil
  then show ?case by (simp add: handleTCPConn.simps)
next
  case (Cons p ps req reqs)
  then show ?case by (simp add: handleTCPConn_frame split: prod.split)
qed

section \<open>Properties\<close>

lemma udpWriteMsg_fits:
  assumes "udpWriteMsg u (udpWriterFor req) msg = Inr p"
    and "length (Questions msg) \<le> 1" "Additionals msg = []"
  shows "length p \<le> maxSize (udpWriterFor req)"
  using udpWriteMsg_cases [OF assms(1)]
proof
  assume "Pack u (truncatedMsg (outMsg (clientUsedEDNS0 (udpWriterFor req)) (maxSize (udpWriterFor req)) msg)) = Inr p"
  from empty_reply_small [OF this assms(2,3)] show ?thesis using udpWriterFor_sizes(1) [of req] by simp
qed simp

text \<open>
  No datagram is larger than the client can take.  To a request with one question, as the
  resolver and its middleware answer it, the server sends nothing longer than 512 bytes or
  the size the client's OPT record advertises, and never more than 4096.
\<close>

theorem udp_reply_fits:
  assumes "udpWriteMsg u (udpWriterFor req) msg = Inr p"
    and "length (Questions msg) \<le> 1" "Additionals msg = []"
  shows "length p \<le> maxUDPPacketSize \<and>
    length p \<le> max maxUDPResponseSize (case OPT req of None \<Rightarrow> 0 | Some opt \<Rightarrow> unat (UDPSize opt))"
  using udpWriteMsg_fits [OF assms] udpWriterFor_sizes(2,3) [of req] by simp

definition sampleRequest :: Message where
  "sampleRequest = reply (zeroHeader\<lparr>ID := 4660, RD := True\<rparr>)
     [\<lparr>qName = lit ''www.example.com'', qType = TypeA, qClass = ClassIN\<rparr>]"

definition sampleReply :: Message where
  "sampleReply = (reply (zeroHeader\<lparr>ID := 4660, QR := True\<rparr>) (Questions sampleRequest))
     \<lparr>Answers := [zeroRR\<lparr>rrName := lit ''www.example.com'', rrType := 16, Raw := [1, 2, 3]\<rparr>]\<rparr>"

theorem udp_reply_fits_witness:
  "\<exists>p. udpWriteMsg plainUnicode (udpWriterFor sampleRequest) sampleReply = Inr p \<and> length p \<le> 512"
proof -
  have "case udpWriteMsg plainUnicode (udpWriterFor sampleRequest) sampleReply of Inl _ \<Rightarrow> False | Inr _ \<Rightarrow> True"
    by code_simp
  then obtain p where p: "udpWriteMsg plainUnicode (udpWriterFor sampleRequest) sampleReply = Inr p"
    by (auto split: sum.splits)
  have "OPT sampleRequest = None" by (simp add: OPT_def sampleRequest_def)
  then show ?thesis
    using udp_reply_fits [OF p] p by (simp add: sampleReply_def sampleRequest_def)
qed

text \<open>
  A connection is served in order.  For any number of requests pipelined on a connection,
  each in its length-prefixed frame, the loop does what calling the handler on one request
  after the other does: no request is lost, split or answered twice, and the replies come
  in the order of the requests.
\<close>

theorem tcp_serves_in_order:
  assumes "list_all2 (\<lambda>p req. length p < 65536 \<and> Unpack p = Inr req) ps reqs" "length rest < 2"
  shows "handleTCPConn u handler ip (concat (map frame ps) @ rest) w = serveInOrder u handler ip reqs w"
  using assms by (rule handleTCPConn_frames)

theorem tcp_serves_in_order_witness:
  "\<exists>req :: Message. snd (handleTCPConn plainUnicode (\<lambda>addr req w. ([], w @ [ID (header req)])) [127, 0, 0, 1]
     (frame samplePacket @ frame samplePacket @ [0]) []) = [ID (header req), ID (header req)]"
proof -
  obtain req where req: "Unpack samplePacket = Inr req" using samplePacket_Unpack by blast
  have "length samplePacket < 65536" by (simp add: samplePacket_def)
  then have "list_all2 (\<lambda>p req. length p < 65536 \<and> Unpack p = Inr req) [samplePacket, samplePacket] [req, req]"
    using req by simp
  from tcp_serves_in_order [where rest = "[0]", OF this, of plainUnicode "\<lambda>addr req w. ([], w @ [ID (header req)])" "[127, 0, 0, 1]" "[]"]
  have served: "handleTCPConn plainUnicode (\<lambda>addr req w. ([], w @ [ID (header req)])) [127, 0, 0, 1]
     (frame samplePacket @ frame samplePacket @ [0]) [] =
    serveInOrder plainUnicode (\<lambda>addr req w. ([], w @ [ID (header req)])) [127, 0, 0, 1] [req, req] []"
    by simp
  show ?thesis unfolding served by (rule exI [of _ req]) (simp add: sent_def)
qed

text \<open>The prefix is two bytes wide, and nothing keeps a reply below 64 KiB.\<close>

lemma writeRR_raw:
  assumes "writeRR u rr e = Inr e'" "rrType rr = 16"
  shows "length (ebuf e) + length (Raw rr) \<le> length (ebuf e')"
proof -
  obtain e1 where "writeName u (rrName rr) e = Inr e1" and
    e': "ebuf e' = patch16 (length (ebuf e1) + 8) (word_of_nat (length (Raw rr)))
       (ebuf (emit (Raw rr) (writeUint16 0 (writeUint32 (TTL rr) (writeUint16 (rrClass rr) (writeUint16 16 e1))))))"
    using assms by (auto simp: writeRR_def writeRdata_def Let_def bindR_eq_Inr writeUint16_def writeUint32_def emit_def)
  moreover from this(1) have "length (ebuf e) \<le> length (ebuf e1)"
    using name_writer.grows by fastforce
  ultimately show ?thesis by (simp add: patch16_def emit_def writeUint16_def writeUint32_def)
qed

text \<open>
  The length prefix of a TCP reply is right exactly up to 65535 bytes; a longer reply is
  written whole behind the length modulo 65536, so the client loses the framing.  Well-formed
  messages of that size exist.
\<close>

theorem tcp_length_prefix:
  "(unat (be16 (frame p ! 0) (frame p ! 1)) = length (drop 2 (frame p)) \<longleftrightarrow> length p < 65536) \<and>
   (\<exists>msg p. wfMsg msg \<and> tcpWriteMsg u False msg = Inr (frame p) \<and> 65536 \<le> length p)"
proof (intro conjI)
  have "drop 2 (frame p) = p" by (simp add: frame_def put16_def)
  then show "unat (be16 (frame p ! 0) (frame p ! 1)) = length (drop 2 (frame p)) \<longleftrightarrow> length p < 65536"
    unfolding frame_length using mod_less_divisor [of 65536 "length p"] by auto
next
  define rr where "rr = zeroRR\<lparr>rrName := [dot], rrType := 16, Raw := replicate 40000 0\<rparr>"
  define msg where "msg = (reply zeroHeader [])\<lparr>Answers := [rr, rr]\<rparr>"
  have wf: "wfMsg msg" by (simp add: wfMsg_def msg_def rr_def wfRR_def zeroHeader_def zeroRR_def)
  from pack_roundtrip [OF this, of u] obtain p where p: "Pack u msg = Inr p" by blast
  then obtain e1 e2 where e: "writeRR u rr (newEncoder\<lparr>ebuf := headerBytes msg\<rparr>) = Inr e1"
    "writeRR u rr e1 = Inr e2" "p = ebuf e2"
    by (auto simp: Pack_def msg_def bindR_eq_Inr)
  have r: "rrType rr = 16" "length (Raw rr) = 40000" by (simp_all add: rr_def)
  have "65536 \<le> length p"
    using writeRR_raw [OF e(1) r(1)] writeRR_raw [OF e(2) r(1)] r(2) unfolding e(3) by linarith
  moreover have "tcpWriteMsg u False msg = Inr (frame p)"
    using p by (simp add: tcpWriteMsg_def outMsg_def frame_def)
  ultimately show "\<exists>msg p. wfMsg msg \<and> tcpWriteMsg u False msg = Inr (frame p) \<and> 65536 \<le> length p"
    using wf by blast
qed

end
