(* ===== verification/Resolver_State.thy ===== *)
theory Resolver_State
  imports Delegation_Cache Dnssec_Denial "HOL-Library.Multiset"
begin

text \<open>
  The resolver's configuration and state, and what it uses of the world: the clock, the
  context of the query, randomness, and exchanges with name servers.  The two small tables of
  the resolver are here with their operations: the round-trip times
  (\<open>resolver/serverchoice.go\<close>) and the validated key sets (\<open>keyCache\<close> of
  \<open>resolver/validate.go\<close>).

  The world \<open>'n\<close> and the functions on it are parameters.  Every operation of the resolver is a
  function from a state to a result and the next state, so what the network does at each
  step may depend on everything that was done before.
\<close>

section \<open>The world\<close>

type_synonym rttTracker = "(ip, int) mapping"

record 'n env =
  unicodeOf :: unicode
  cryptoOf :: crypto
  timeNow :: "'n \<Rightarrow> int"
  ctxErr :: "'n \<Rightarrow> bool"
  randRead :: "nat \<Rightarrow> 'n \<Rightarrow> byte list option \<times> 'n"
  shuffleIPs :: "ip list \<Rightarrow> 'n \<Rightarrow> ip list \<times> 'n"
  rangeNames :: "gostr list \<Rightarrow> 'n \<Rightarrow> gostr list \<times> 'n"
  firstKey :: "rttTracker \<Rightarrow> 'n \<Rightarrow> ip option \<times> 'n"
  udpExchange :: "ip \<Rightarrow> byte list \<Rightarrow> 'n \<Rightarrow> byte list option \<times> 'n"
  tcpExchange :: "ip \<Rightarrow> byte list \<Rightarrow> 'n \<Rightarrow> byte list option \<times> 'n"

section \<open>Round-trip times\<close>

abbreviation (input) millisecond :: int where "millisecond \<equiv> 1000000"
abbreviation (input) unknownRTT :: int where "unknownRTT \<equiv> 50 * millisecond"
abbreviation (input) timeoutPenalty :: int where "timeoutPenalty \<equiv> 2000 * millisecond"
abbreviation (input) maxRTTEntries :: nat where "maxRTTEntries \<equiv> 8192"

text \<open>
  The key is \<open>ip.String()\<close>, which is the same for an IPv4 address in four bytes and in
  sixteen, and different otherwise.
\<close>

definition ipString :: "ip \<Rightarrow> ip" where
  "ipString ip = (case To4 (Some ip) of Some v4 \<Rightarrow> v4 | None \<Rightarrow> ip)"

definition rttGet :: "rttTracker option \<Rightarrow> ip \<Rightarrow> int" where
  "rttGet t ip =
     (case t of None \<Rightarrow> unknownRTT
      | Some t \<Rightarrow> (case Mapping.lookup t (ipString ip) of Some d \<Rightarrow> d | None \<Rightarrow> unknownRTT))"

text \<open>
  The average is a \<open>float64\<close> product truncated; three quarters and a quarter of a duration
  below \<open>2 ^ 51\<close> nanoseconds are exact, so it is the integer written here.  \<open>first\<close> is the
  entry the loop over the map meets first, when the table is full.
\<close>

definition rttObserve :: "ip option \<Rightarrow> ip \<Rightarrow> int \<Rightarrow> rttTracker option \<Rightarrow> rttTracker option" where
  "rttObserve first ip took t =
     map_option (\<lambda>t. let key = ipString ip in
       case Mapping.lookup t key of
         Some current \<Rightarrow> Mapping.update key ((3 * current + took) div 4) t
       | None \<Rightarrow>
           Mapping.update key took
             (if Mapping.size t \<ge> maxRTTEntries
              then (case first of None \<Rightarrow> t | Some k \<Rightarrow> Mapping.delete k t) else t)) t"

text \<open>\<open>slices.SortStableFunc\<close> on the shuffled servers.\<close>

definition rttOrder :: "'n env \<Rightarrow> rttTracker option \<Rightarrow> ip list \<Rightarrow> 'n \<Rightarrow> ip list \<times> 'n" where
  "rttOrder E t servers n =
     (case shuffleIPs E servers n of
        (out, n) \<Rightarrow> (case t of None \<Rightarrow> (out, n) | Some _ \<Rightarrow> (sort_key (rttGet t) out, n)))"

section \<open>Validated keys\<close>

record keyEntry =
  keKeys :: "DNSKEY list"
  keExpiry :: int

type_synonym keyCache = "(gostr, keyEntry) mapping"

definition keysGet :: "unicode \<Rightarrow> keyCache option \<Rightarrow> gostr \<Rightarrow> int \<Rightarrow> DNSKEY list option" where
  "keysGet u c zone now =
     (case c of None \<Rightarrow> None
      | Some c \<Rightarrow> (case Mapping.lookup c (normalizeZone u zone) of
          None \<Rightarrow> None
        | Some e \<Rightarrow> if \<not> keExpiry e > now then None else Some (keKeys e)))"

definition keysPut :: "unicode \<Rightarrow> gostr \<Rightarrow> DNSKEY list \<Rightarrow> u32 \<Rightarrow> int \<Rightarrow> keyCache option \<Rightarrow> keyCache option" where
  "keysPut u zone keys ttl now c =
     (case c of None \<Rightarrow> None
      | Some c \<Rightarrow>
          if keys = [] then Some c
          else let ttl = min (max ttl minDelegationTTL) maxDelegationTTL in
            Some (Mapping.update (normalizeZone u zone)
              \<lparr>keKeys = keys, keExpiry = now + seconds ttl\<rparr> c))"

section \<open>The resolver\<close>

record resolver =
  rRoots :: "ip list option"
  rAllowPrivate :: bool
  rValidate :: bool
  rAnchors :: "DS list option"
  rMinimize :: bool
  rUse0x20 :: bool

record 'n rstate =
  sDelegations :: "delegationCache option"
  sKeys :: "keyCache option"
  sRtt :: "rttTracker option"
  sPrimed :: "ip list"
  sPrimedUntil :: int
  sNet :: 'n

text \<open>
  \<open>ErrBogus\<close> and \<open>NXDOMAINError\<close> are told apart by the callers; the text of the other errors,
  and what they wrap, is not.
\<close>

datatype resolveErr = ErrBogus | NXDOMAINError gostr "RR option" | Hangs | ErrFailed

type_synonym ('n, 'a) act = "'n rstate \<Rightarrow> (resolveErr + 'a) \<times> 'n rstate"

text \<open>An operation after another: an error ends the two.\<close>

definition andThen :: "('n, 'a) act \<Rightarrow> ('a \<Rightarrow> ('n, 'b) act) \<Rightarrow> ('n, 'b) act" where
  "andThen m f s = (case m s of (Inl e, s) \<Rightarrow> (Inl e, s) | (Inr x, s) \<Rightarrow> f x s)"

lemma andThen_Inr: "andThen m f s = (Inr y, s') \<longleftrightarrow> (\<exists>x s1. m s = (Inr x, s1) \<and> f x s1 = (Inr y, s'))"
  by (auto simp: andThen_def split: prod.splits sum.splits)

lemma andThen_Inl:
  "andThen m f s = (Inl e, s') \<longleftrightarrow> m s = (Inl e, s') \<or> (\<exists>x s1. m s = (Inr x, s1) \<and> f x s1 = (Inl e, s'))"
  by (auto simp: andThen_def split: prod.splits sum.splits)

definition nowOf :: "'n env \<Rightarrow> 'n rstate \<Rightarrow> int" where
  "nowOf E s = timeNow E (sNet s)"

definition withNet :: "('n \<Rightarrow> 'a \<times> 'n) \<Rightarrow> 'n rstate \<Rightarrow> 'a \<times> 'n rstate" where
  "withNet f s = (case f (sNet s) of (x, n) \<Rightarrow> (x, s\<lparr>sNet := n\<rparr>))"

section \<open>Facts\<close>

lemma rttOrder_set:
  assumes "\<And>ips n. mset (fst (shuffleIPs E ips n)) = mset ips"
  shows "mset (fst (rttOrder E t servers n)) = mset servers"
  using assms [of servers n] by (auto simp: rttOrder_def split: prod.splits option.splits)

lemma rttOrder_sorted: "t \<noteq> None \<Longrightarrow> sorted (map (rttGet t) (fst (rttOrder E t servers n)))"
  by (auto simp: rttOrder_def split: prod.splits)

lemma keysGet_Some:
  "keysGet u c zone now = Some keys \<Longrightarrow>
     \<exists>m e. c = Some m \<and> Mapping.lookup m (normalizeZone u zone) = Some e \<and> keys = keKeys e \<and> now < keExpiry e"
  by (auto simp: keysGet_def split: option.splits if_splits)

lemma keysPut_get:
  "keys \<noteq> [] \<Longrightarrow> t < now + seconds 60 \<Longrightarrow>
     keysGet u (keysPut u zone keys ttl now (Some m)) zone t = Some keys"
proof -
  assume k: "keys \<noteq> []" and t: "t < now + seconds 60"
  have "(60 :: u32) \<le> min (max ttl 60) 604800" using linear [of ttl 60] by (auto simp: max_def)
  then have "seconds 60 \<le> seconds (min (max ttl 60) 604800)"
    unfolding seconds_def second_def word_le_def by simp
  then show ?thesis using k t by (simp add: keysPut_def keysGet_def Let_def)
qed

end
