(* ===== verification/Upstream.thy ===== *)
theory Upstream
  imports Resolver_State
begin

text \<open>
  Asking name servers (\<open>resolver/resolver.go\<close> from \<open>allowsUpstream\<close> on, and
  \<open>randomizeCase\<close> of \<open>resolver/privacy.go\<close>): which addresses may be asked, one exchange over
  UDP with its retry over TCP, the retry without EDNS0, and the passes over a zone's servers.

  Connecting, the two deadlines and the socket errors are one event of the world: an exchange
  gives the bytes that came back, or none.  \<open>Socket_Io\<close> has what happens inside it.
\<close>

section \<open>Which servers may be asked\<close>

text \<open>The predicates of \<open>net.IP\<close>; each first reduces an IPv4-mapped address to four bytes.\<close>

definition inNet4 :: "(byte list \<Rightarrow> bool) \<Rightarrow> (byte list \<Rightarrow> bool) \<Rightarrow> ip \<Rightarrow> bool" where
  "inNet4 p4 p16 ip =
     (case To4 (Some ip) of Some v4 \<Rightarrow> p4 v4 | None \<Rightarrow> length ip = 16 \<and> p16 ip)"

definition IsUnspecified :: "ip \<Rightarrow> bool" where
  "IsUnspecified = inNet4 (\<lambda>v4. v4 = [0, 0, 0, 0]) (\<lambda>v6. v6 = replicate 16 0)"

definition IsLoopback :: "ip \<Rightarrow> bool" where
  "IsLoopback = inNet4 (\<lambda>v4. v4 ! 0 = 127) (\<lambda>v6. v6 = replicate 15 0 @ [1])"

definition IsPrivate :: "ip \<Rightarrow> bool" where
  "IsPrivate = inNet4
     (\<lambda>v4. v4 ! 0 = 10 \<or> v4 ! 0 = 172 \<and> v4 ! 1 AND 0xF0 = 16 \<or> v4 ! 0 = 192 \<and> v4 ! 1 = 168)
     (\<lambda>v6. v6 ! 0 AND 0xFE = 0xFC)"

definition IsLinkLocalUnicast :: "ip \<Rightarrow> bool" where
  "IsLinkLocalUnicast = inNet4
     (\<lambda>v4. v4 ! 0 = 169 \<and> v4 ! 1 = 254) (\<lambda>v6. v6 ! 0 = 0xFE \<and> v6 ! 1 AND 0xC0 = 0x80)"

definition IsLinkLocalMulticast :: "ip \<Rightarrow> bool" where
  "IsLinkLocalMulticast = inNet4
     (\<lambda>v4. v4 ! 0 = 224 \<and> v4 ! 1 = 0 \<and> v4 ! 2 = 0) (\<lambda>v6. v6 ! 0 = 0xFF \<and> v6 ! 1 AND 0x0F = 2)"

definition IsMulticast :: "ip \<Rightarrow> bool" where
  "IsMulticast = inNet4 (\<lambda>v4. v4 ! 0 AND 0xF0 = 0xE0) (\<lambda>v6. v6 ! 0 = 0xFF)"

definition allowsUpstream :: "resolver \<Rightarrow> ip \<Rightarrow> bool" where
  "allowsUpstream r ip =
     (if rAllowPrivate r then True
      else let ip = (case To4 (Some ip) of Some v4 \<Rightarrow> v4 | None \<Rightarrow> ip) in
        if IsUnspecified ip \<or> IsLoopback ip \<or> IsPrivate ip \<or> IsLinkLocalUnicast ip
             \<or> IsLinkLocalMulticast ip \<or> IsMulticast ip then False
        else if length ip = 4 \<and> ip ! 0 = 100 \<and> ip ! 1 AND 0xC0 = 64 then False
        else True)"

section \<open>Checking a reply\<close>

datatype replyErr =
    ErrUnpack | ErrResponseID | ErrNotResponse | ErrQuestionMismatch | ErrCaseMismatch | ErrClass

definition unpackAndVerify ::
  "unicode \<Rightarrow> byte list \<Rightarrow> u16 \<Rightarrow> gostr \<Rightarrow> u16 \<Rightarrow> bool \<Rightarrow> replyErr + Message" where
  "unpackAndVerify u buf wantID qname qtype strictCase =
     (case Unpack buf of
        Inl _ \<Rightarrow> Inl ErrUnpack
      | Inr msg \<Rightarrow>
          if ID (header msg) \<noteq> wantID then Inl ErrResponseID
          else if \<not> QR (header msg) then Inl ErrNotResponse
          else if length (Questions msg) \<noteq> 1 \<or> \<not> equalName u (qName (hd (Questions msg))) qname
                    \<or> qType (hd (Questions msg)) \<noteq> qtype then Inl ErrQuestionMismatch
          else if strictCase \<and> qName (hd (Questions msg)) \<noteq> qname then Inl ErrCaseMismatch
          else if qClass (hd (Questions msg)) \<noteq> ClassIN then Inl ErrClass
          else Inr msg)"

definition ednsRefused :: "Message \<Rightarrow> bool" where
  "ednsRefused msg =
     (ExtendedRCode msg \<in> {ucast RCodeFormatError, ucast RCodeNotImplemented, RCodeBadVers})"

section \<open>Random case\<close>

definition isASCIILetter :: "byte \<Rightarrow> bool" where
  "isASCIILetter b = (b \<ge> 97 \<and> b \<le> 122 \<or> b \<ge> 65 \<and> b \<le> 90)"

definition toUpper :: "byte \<Rightarrow> byte" where
  "toUpper b = (if b \<ge> 97 \<and> b \<le> 122 then b - (97 - 65) else b)"

definition toLower :: "byte \<Rightarrow> byte" where
  "toLower b = (if b \<ge> 65 \<and> b \<le> 90 then b + (97 - 65) else b)"

text \<open>The second loop of \<open>randomizeCase\<close>; \<open>n\<close> is the number of letters before.\<close>

fun scatterCase :: "byte list \<Rightarrow> nat \<Rightarrow> gostr \<Rightarrow> gostr" where
  "scatterCase bits n [] = []"
| "scatterCase bits n (b # bs) =
     (if \<not> isASCIILetter b then b # scatterCase bits n bs
      else (if bits ! (n div 8) AND push_bit (n mod 8) 1 \<noteq> 0 then toUpper b else toLower b)
             # scatterCase bits (n + 1) bs)"

definition randomizeCase :: "'n env \<Rightarrow> gostr \<Rightarrow> 'n \<Rightarrow> gostr \<times> 'n" where
  "randomizeCase E name n =
     (let letters = length (filter isASCIILetter name) in
      if letters = 0 then (name, n)
      else (case randRead E ((letters + 7) div 8) n of
          (None, n) \<Rightarrow> (name, n)
        | (Some bits, n) \<Rightarrow> (scatterCase bits 0 name, n)))"

section \<open>Exchanges\<close>

definition randomQueryID :: "'n env \<Rightarrow> ('n, u16) act" where
  "randomQueryID E s =
     (case withNet (randRead E 2) s of
        (None, s) \<Rightarrow> (Inl ErrFailed, s)
      | (Some b, s) \<Rightarrow> (Inr (be16 (b ! 0) (b ! 1)), s))"

definition failOnErr :: "'e + 'a \<Rightarrow> ('n, 'a) act" where
  "failOnErr x s = (case x of Inl _ \<Rightarrow> (Inl ErrFailed, s) | Inr y \<Rightarrow> (Inr y, s))"

definition queryUDP ::
  "'n env \<Rightarrow> ip \<Rightarrow> byte list \<Rightarrow> u16 \<Rightarrow> gostr \<Rightarrow> u16 \<Rightarrow> bool \<Rightarrow> ('n, Message) act" where
  "queryUDP E addr packet qid qname qtype strictCase s =
     (case withNet (udpExchange E addr packet) s of
        (None, s) \<Rightarrow> (Inl ErrFailed, s)
      | (Some buf, s) \<Rightarrow>
          failOnErr (unpackAndVerify (unicodeOf E) (take 4096 buf) qid qname qtype strictCase) s)"

text \<open>What is written is the packet behind its length; \<open>readFull\<close> fails on a short stream.\<close>

definition queryTCP ::
  "'n env \<Rightarrow> ip \<Rightarrow> byte list \<Rightarrow> u16 \<Rightarrow> gostr \<Rightarrow> u16 \<Rightarrow> bool \<Rightarrow> ('n, Message) act" where
  "queryTCP E addr packet qid qname qtype strictCase s =
     (case withNet (tcpExchange E addr (put16 (word_of_nat (length packet)) @ packet)) s of
        (None, s) \<Rightarrow> (Inl ErrFailed, s)
      | (Some stream, s) \<Rightarrow>
          if length stream < 2 then (Inl ErrFailed, s)
          else let respLen = unat (be16 (stream ! 0) (stream ! 1)) in
            if length (drop 2 stream) < respLen then (Inl ErrFailed, s)
            else failOnErr (unpackAndVerify (unicodeOf E) (take respLen (drop 2 stream))
                   qid qname qtype strictCase) s)"

definition queryPacket ::
  "'n env \<Rightarrow> resolver \<Rightarrow> u16 \<Rightarrow> gostr \<Rightarrow> u16 \<Rightarrow> bool \<Rightarrow> wireErr + byte list" where
  "queryPacket E r qid wireName qtype edns =
     (if edns then PackQueryEDNS0 (unicodeOf E) qid wireName qtype DefaultUDPSize
                     (if rValidate r then RequestDNSSEC else NoDNSSEC)
      else PackQuery qid wireName qtype)"

definition queryOnce ::
  "'n env \<Rightarrow> resolver \<Rightarrow> ip \<Rightarrow> gostr \<Rightarrow> u16 \<Rightarrow> bool \<Rightarrow> ('n, Message) act" where
  "queryOnce E r server qname qtype edns =
     andThen (randomQueryID E) (\<lambda>qid s.
       case (if rUse0x20 r then withNet (randomizeCase E qname) s else (qname, s)) of
         (wireName, s) \<Rightarrow>
           andThen (failOnErr (queryPacket E r qid wireName qtype edns)) (\<lambda>packet.
           andThen (queryUDP E server packet qid wireName qtype (rUse0x20 r)) (\<lambda>msg.
             if TC (header msg) then queryTCP E server packet qid wireName qtype (rUse0x20 r)
             else (\<lambda>s. (Inr msg, s)))) s)"

definition query :: "'n env \<Rightarrow> resolver \<Rightarrow> ip \<Rightarrow> gostr \<Rightarrow> u16 \<Rightarrow> ('n, Message) act" where
  "query E r server qname qtype =
     andThen (queryOnce E r server qname qtype True) (\<lambda>msg.
       if ednsRefused msg then queryOnce E r server qname qtype False
       else (\<lambda>s. (Inr msg, s)))"

section \<open>The servers of a zone\<close>

definition observe :: "'n env \<Rightarrow> ip \<Rightarrow> int \<Rightarrow> 'n rstate \<Rightarrow> 'n rstate" where
  "observe E addr took s =
     (case sRtt s of
        None \<Rightarrow> s
      | Some t \<Rightarrow>
          (case withNet (firstKey E t) s of
             (first, s) \<Rightarrow> s\<lparr>sRtt := rttObserve first addr took (sRtt s)\<rparr>))"

text \<open>Two passes over the servers, in the order chosen once; \<open>queue\<close> is what is left to try.\<close>

fun queryLoop :: "'n env \<Rightarrow> resolver \<Rightarrow> gostr \<Rightarrow> u16 \<Rightarrow> ip list \<Rightarrow> ('n, Message \<times> ip) act" where
  "queryLoop E r qname qtype [] s = (Inl ErrFailed, s)"
| "queryLoop E r qname qtype (addr # queue) s =
     (if ctxErr E (sNet s) then (Inl ErrFailed, s)
      else if \<not> allowsUpstream r addr then queryLoop E r qname qtype queue s
      else (case query E r addr qname qtype s of
          (Inl _, s') \<Rightarrow> queryLoop E r qname qtype queue (observe E addr timeoutPenalty s')
        | (Inr msg, s') \<Rightarrow> (Inr (msg, addr), observe E addr (nowOf E s' - nowOf E s) s')))"

definition queryServers :: "'n env \<Rightarrow> resolver \<Rightarrow> ip list \<Rightarrow> gostr \<Rightarrow> u16 \<Rightarrow> ('n, Message \<times> ip) act" where
  "queryServers E r servers qname qtype s =
     (case withNet (rttOrder E (sRtt s) servers) s of
        (ordered, s) \<Rightarrow> queryLoop E r qname qtype (ordered @ ordered) s)"

section \<open>What a reply has to be\<close>

definition answersQuery :: "unicode \<Rightarrow> u16 \<Rightarrow> gostr \<Rightarrow> u16 \<Rightarrow> bool \<Rightarrow> Message \<Rightarrow> bool" where
  "answersQuery u wantID qname qtype strictCase msg =
     (ID (header msg) = wantID \<and> QR (header msg) \<and> length (Questions msg) = 1 \<and>
      equalName u (qName (hd (Questions msg))) qname \<and> qType (hd (Questions msg)) = qtype \<and>
      qClass (hd (Questions msg)) = ClassIN \<and> (strictCase \<longrightarrow> qName (hd (Questions msg)) = qname))"

lemma unpackAndVerify_Inr:
  "unpackAndVerify u buf wantID qname qtype strictCase = Inr msg \<longleftrightarrow>
     Unpack buf = Inr msg \<and> answersQuery u wantID qname qtype strictCase msg"
  by (auto simp: unpackAndVerify_def answersQuery_def split: sum.splits if_splits)

lemma toUpper_lower: "lowerByte (toUpper b) = lowerByte b"
proof (cases "97 \<le> b \<and> b \<le> 122")
  case True
  then have "32 \<le> b" by (simp add: word_le_nat_alt)
  then have "unat (b - 32) = unat b - 32" by (simp add: unat_sub)
  then have "65 \<le> b - 32 \<and> b - 32 \<le> 90" "\<not> b \<le> 90" using True by (auto simp: word_le_nat_alt)
  then show ?thesis using True by (simp add: toUpper_def lowerByte_def)
qed (auto simp: toUpper_def)

lemma toLower_lower: "lowerByte (toLower b) = lowerByte b"
proof -
  have "toLower b = lowerByte b" by (simp add: toLower_def lowerByte_def)
  then show ?thesis by simp
qed

lemma scatterCase_same: "map lowerByte (scatterCase bits n name) = map lowerByte name"
  by (induction bits n name rule: scatterCase.induct) (auto simp: toUpper_lower toLower_lower)

lemma scatterCase_length [simp]: "length (scatterCase bits n name) = length name"
  by (induction bits n name rule: scatterCase.induct) auto

lemma randomizeCase_lower: "map lowerByte (fst (randomizeCase E name n)) = map lowerByte name"
  by (auto simp: randomizeCase_def Let_def scatterCase_same split: prod.splits option.splits)

end
