(* ===== verification/Chain_Validation.thy ===== *)
theory Chain_Validation
  imports Upstream
begin

text \<open>
  The chain of trust (\<open>resolver/validate.go\<close>): checking an RRset against the signatures of a
  section, the security state a walk carries, the keys of a zone, the step over a zone cut,
  and the checks an answer and a denial have to pass.
\<close>

section \<open>Choosing records\<close>

definition rrsigsFor :: "unicode \<Rightarrow> RR list \<Rightarrow> gostr \<Rightarrow> u16 \<Rightarrow> RRSIG list" where
  "rrsigsFor u sec name qtype =
     List.map_filter (\<lambda>rr.
       if rrType rr \<noteq> TypeRRSIG \<or> \<not> equalName u (rrName rr) name then None
       else (case AsRRSIG rr of
           Some sig \<Rightarrow> if TypeCovered sig = qtype then Some sig else None
         | None \<Rightarrow> None)) sec"

definition recordsOfType :: "unicode \<Rightarrow> RR list \<Rightarrow> u16 \<Rightarrow> gostr \<Rightarrow> RR list" where
  "recordsOfType u sec qtype name =
     filter (\<lambda>rr. rrType rr = qtype \<and> rrClass rr = ClassIN \<and> equalName u (rrName rr) name) sec"

definition minTTLOf :: "RR list \<Rightarrow> u32" where
  "minTTLOf rrs =
     (if rrs = [] then 0
      else foldl (\<lambda>m rr. if TTL rr < m then TTL rr else m) (TTL (hd rrs)) (tl rrs))"

section \<open>Verifying an RRset\<close>

datatype verifyErr = NothingToVerify | NoKeys | NoSignature | SignatureErr dnssecErr

text \<open>
  The two loops over signatures and keys, on the list of the pairs in the order they are
  tried.
\<close>

fun tryPairs ::
  "unicode \<Rightarrow> crypto \<Rightarrow> RR list \<Rightarrow> int \<Rightarrow> (RRSIG \<times> DNSKEY) list \<Rightarrow> bool \<Rightarrow> verifyErr \<Rightarrow> verifyErr + RRSIG" where
  "tryPairs u cr rrset now [] unsupported lastErr =
     Inl (if unsupported then SignatureErr ErrUnsupportedAlgorithm else lastErr)"
| "tryPairs u cr rrset now ((sig, key) # pairs) unsupported lastErr =
     (case VerifyRRSet u cr rrset sig key now of
        Inr _ \<Rightarrow> Inr sig
      | Inl e \<Rightarrow>
          tryPairs u cr rrset now pairs (unsupported \<or> e = ErrUnsupportedAlgorithm) (SignatureErr e))"

text \<open>\<open>verifyRRSetWithKeys\<close>; \<open>now\<close> is the clock in seconds.\<close>

definition verifyRRSet ::
  "unicode \<Rightarrow> crypto \<Rightarrow> int \<Rightarrow> RR list \<Rightarrow> RR list \<Rightarrow> DNSKEY list \<Rightarrow> verifyErr + RRSIG" where
  "verifyRRSet u cr now rrset sec keys =
     (if rrset = [] then Inl NothingToVerify
      else if keys = [] then Inl NoKeys
      else let covering = rrsigsFor u sec (rrName (hd rrset)) (rrType (hd rrset)) in
        if covering = [] then Inl NoSignature
        else tryPairs u cr rrset now (List.product covering keys) False NoSignature)"

section \<open>The security state of a walk\<close>

record secState =
  secure :: bool
  keys :: "DNSKEY list"

definition insecure :: secState where
  "insecure = \<lparr>secure = False, keys = []\<rparr>"

text \<open>
  What the checks need of the resolver and the world: the tables, the clock in seconds, and
  whether validation is on.
\<close>

record checks =
  cUnicode :: unicode
  cCrypto :: crypto
  cNow :: int
  cValidate :: bool

definition checksOf :: "'n env \<Rightarrow> resolver \<Rightarrow> 'n rstate \<Rightarrow> checks" where
  "checksOf E r s = \<lparr>cUnicode = unicodeOf E, cCrypto = cryptoOf E, cNow = nowOf E s div second,
     cValidate = rValidate r\<rparr>"

section \<open>Denials\<close>

text \<open>The loop of \<open>verifiedNSECs\<close>; \<open>checked\<close> holds the owners and types already looked at.\<close>

fun nsecsLoop ::
  "checks \<Rightarrow> RR list \<Rightarrow> DNSKEY list \<Rightarrow> (gostr \<times> u16) list \<Rightarrow> RR list \<Rightarrow> RR list" where
  "nsecsLoop c sec ks checked [] = []"
| "nsecsLoop c sec ks checked (rr # rrs) =
     (if rrType rr \<noteq> TypeNSEC \<and> rrType rr \<noteq> TypeNSEC3 then nsecsLoop c sec ks checked rrs
      else let k = (normalizeName (cUnicode c) (rrName rr), rrType rr) in
        if k \<in> set checked then nsecsLoop c sec ks checked rrs
        else let rrset = recordsOfType (cUnicode c) sec (rrType rr) (rrName rr) in
          (case verifyRRSet (cUnicode c) (cCrypto c) (cNow c) rrset sec ks of
             Inr _ \<Rightarrow> rrset | Inl _ \<Rightarrow> []) @ nsecsLoop c sec ks (k # checked) rrs)"

definition verifiedNSECs :: "checks \<Rightarrow> RR list \<Rightarrow> DNSKEY list \<Rightarrow> RR list" where
  "verifiedNSECs c sec ks = nsecsLoop c sec ks [] sec"

definition checkDenial ::
  "checks \<Rightarrow> secState \<Rightarrow> RR list \<Rightarrow> (RR list \<Rightarrow> dnssecErr + unit) \<Rightarrow> dnssecErr + bool" where
  "checkDenial c sec sct prove =
     (if \<not> cValidate c \<or> \<not> secure sec then Inr False
      else case prove (verifiedNSECs c sct (keys sec)) of
        Inr _ \<Rightarrow> Inr True
      | Inl e \<Rightarrow> if e = ErrUnsupportedDenial \<or> e = ErrUnsupportedAlgorithm then Inr False else Inl e)"

section \<open>Answers\<close>

text \<open>
  The loop of \<open>validateAnswer\<close> over the records, with the names and types seen.  A result
  stands for a \<open>return\<close>; after the last record it is \<open>true, nil\<close>.
\<close>

fun answerLoop ::
  "checks \<Rightarrow> secState \<Rightarrow> Message \<Rightarrow> RR list \<Rightarrow> (gostr \<times> u16) list \<Rightarrow> RR list \<Rightarrow> resolveErr + bool" where
  "answerLoop c sec resp records seen [] = Inr True"
| "answerLoop c sec resp records seen (rr # rrs) =
     (let k = (normalizeName (cUnicode c) (rrName rr), rrType rr) in
      if k \<in> set seen then answerLoop c sec resp records seen rrs
      else let rrset = recordsOfType (cUnicode c) records (rrType rr) (rrName rr) in
        case verifyRRSet (cUnicode c) (cCrypto c) (cNow c) rrset (Answers resp) (keys sec) of
          Inl e \<Rightarrow> if e = SignatureErr ErrUnsupportedAlgorithm then Inr False else Inl ErrBogus
        | Inr sig \<Rightarrow>
            if IsWildcardExpansion (rrName rr) sig then
              (case checkDenial c sec (Authorities resp)
                      (\<lambda>nsecs. ProveNoCloserMatch (cUnicode c) (cCrypto c) nsecs (rrName rr)) of
                 Inl _ \<Rightarrow> Inl ErrBogus
               | Inr proven \<Rightarrow>
                   if \<not> proven then Inr False
                   else answerLoop c sec resp records (k # seen) rrs)
            else answerLoop c sec resp records (k # seen) rrs)"

definition validateAnswer ::
  "checks \<Rightarrow> secState \<Rightarrow> Message \<Rightarrow> RR list \<Rightarrow> resolveErr + bool" where
  "validateAnswer c sec resp records =
     (if \<not> cValidate c \<or> \<not> secure sec \<or> records = [] then Inr False
      else answerLoop c sec resp records [] records)"

section \<open>The keys of a zone\<close>

text \<open>
  The search for a key the parent vouched for, over the pairs of a key and an anchor in the
  order they are tried: whether one was found, and whether an algorithm was unsupported.
\<close>

fun vouchLoop ::
  "checks \<Rightarrow> gostr \<Rightarrow> RR list \<Rightarrow> RR list \<Rightarrow> (DNSKEY \<times> DS) list \<Rightarrow> bool \<Rightarrow> bool \<times> bool" where
  "vouchLoop c zone keySet answers [] unsupported = (False, unsupported)"
| "vouchLoop c zone keySet answers ((key, anchor) # pairs) unsupported =
     (case VerifyDS (cCrypto c) zone key anchor of
        Inr _ \<Rightarrow>
          (case verifyRRSet (cUnicode c) (cCrypto c) (cNow c) keySet answers [key] of
             Inr _ \<Rightarrow> (True, unsupported)
           | Inl e \<Rightarrow> vouchLoop c zone keySet answers pairs
                        (unsupported \<or> e = SignatureErr ErrUnsupportedAlgorithm))
      | Inl e \<Rightarrow> vouchLoop c zone keySet answers pairs (unsupported \<or> e = ErrUnsupportedAlgorithm))"

text \<open>What \<open>zoneKeys\<close> makes of the response: the keys to cache, none, or an error.\<close>

definition acceptKeys :: "checks \<Rightarrow> gostr \<Rightarrow> DS list \<Rightarrow> Message \<Rightarrow> resolveErr + DNSKEY list" where
  "acceptKeys c zone anchors resp =
     (let keySet = recordsOfType (cUnicode c) (Answers resp) TypeDNSKEY zone in
      if keySet = [] then Inl ErrBogus
      else let ks = List.map_filter AsDNSKEY keySet in
        case vouchLoop c zone keySet (Answers resp) (List.product ks anchors) False of
          (True, _) \<Rightarrow> Inr ks
        | (False, unsupported) \<Rightarrow> if unsupported then Inr [] else Inl ErrBogus)"

definition zoneKeys :: "'n env \<Rightarrow> resolver \<Rightarrow> gostr \<Rightarrow> ip list \<Rightarrow> DS list \<Rightarrow> ('n, DNSKEY list) act" where
  "zoneKeys E r zone servers anchors s =
     (case keysGet (unicodeOf E) (sKeys s) zone (nowOf E s) of
        Some ks \<Rightarrow> (Inr ks, s)
      | None \<Rightarrow>
          andThen (queryServers E r servers zone TypeDNSKEY) (\<lambda>(resp, _) s.
            case acceptKeys (checksOf E r s) zone anchors resp of
              Inl e \<Rightarrow> (Inl e, s)
            | Inr ks \<Rightarrow>
                (Inr ks, s\<lparr>sKeys := keysPut (unicodeOf E) zone ks
                   (minTTLOf (recordsOfType (unicodeOf E) (Answers resp) TypeDNSKEY zone))
                   (nowOf E s) (sKeys s)\<rparr>)) s)"

section \<open>Crossing zone cuts\<close>

definition enterZone ::
  "'n env \<Rightarrow> resolver \<Rightarrow> secState \<Rightarrow> RR list \<Rightarrow> gostr \<Rightarrow> ip list \<Rightarrow> ('n, secState) act" where
  "enterZone E r parent sct zone servers s =
     (let c = checksOf E r s; dsSet = recordsOfType (unicodeOf E) sct TypeDS zone in
      if dsSet = [] then
        (case checkDenial c parent sct (\<lambda>nsecs. ProveNoDS (unicodeOf E) (cryptoOf E) nsecs zone) of
           Inl _ \<Rightarrow> (Inl ErrBogus, s)
         | Inr _ \<Rightarrow> (Inr insecure, s))
      else case verifyRRSet (unicodeOf E) (cryptoOf E) (cNow c) dsSet sct (keys parent) of
          Inl _ \<Rightarrow> (Inl ErrBogus, s)
        | Inr _ \<Rightarrow>
            andThen (zoneKeys E r zone servers (List.map_filter AsDS dsSet)) (\<lambda>ks s.
              (Inr (if ks = [] then insecure else \<lparr>secure = True, keys = ks\<rparr>), s)) s)"

definition crossDelegation ::
  "'n env \<Rightarrow> resolver \<Rightarrow> secState \<Rightarrow> Message \<Rightarrow> gostr \<Rightarrow> ip list \<Rightarrow> ('n, secState) act" where
  "crossDelegation E r parent resp zone servers =
     (if \<not> secure parent then (\<lambda>s. (Inr insecure, s))
      else enterZone E r parent (Authorities resp) zone servers)"

definition fetchDelegation ::
  "'n env \<Rightarrow> resolver \<Rightarrow> secState \<Rightarrow> gostr \<Rightarrow> ip list \<Rightarrow> ('n, secState) act" where
  "fetchDelegation E r parent zone servers =
     andThen (queryServers E r servers zone TypeDS) (\<lambda>(resp, _).
       enterZone E r parent (Answers resp @ Authorities resp) zone servers)"

text \<open>
  \<open>descendTo\<close> with fuel: each turn asks for one more label of \<open>to\<close>, so one turn for each
  label and one to notice that \<open>to\<close> is reached are enough.
\<close>

fun descendLoop ::
  "nat \<Rightarrow> 'n env \<Rightarrow> resolver \<Rightarrow> secState \<Rightarrow> gostr \<Rightarrow> gostr \<Rightarrow> ip list \<Rightarrow> ('n, secState) act" where
  "descendLoop 0 E r sec zone to servers s = (Inl ErrFailed, s)"
| "descendLoop (Suc fuel) E r sec zone to servers s =
     (if equalName (unicodeOf E) zone to then (Inr sec, s)
      else let child = minimizedQName to zone in
        andThen (fetchDelegation E r sec child servers) (\<lambda>next s.
          if \<not> secure next then (Inr insecure, s)
          else descendLoop fuel E r next child to servers s) s)"

definition descendTo ::
  "'n env \<Rightarrow> resolver \<Rightarrow> secState \<Rightarrow> gostr \<Rightarrow> gostr \<Rightarrow> ip list \<Rightarrow> ('n, secState) act" where
  "descendTo E r sec from to servers =
     descendLoop (length (labelsOf to) + 2) E r sec from to servers"

text \<open>The two loops of \<open>signerBelow\<close>, over the sections one after the other.\<close>

fun signerLoop :: "unicode \<Rightarrow> gostr \<Rightarrow> gostr \<Rightarrow> gostr \<Rightarrow> RR list \<Rightarrow> gostr" where
  "signerLoop u zone qname deepest [] = deepest"
| "signerLoop u zone qname deepest (rr # rrs) =
     (case AsRRSIG rr of
        None \<Rightarrow> signerLoop u zone qname deepest rrs
      | Some sig \<Rightarrow>
          if \<not> isProperSubdomain u (SignerName sig) zone \<or> \<not> isSubdomainOrEqual u qname (SignerName sig)
          then signerLoop u zone qname deepest rrs
          else if deepest = [] \<or> isProperSubdomain u (SignerName sig) deepest
          then signerLoop u zone qname (SignerName sig) rrs
          else signerLoop u zone qname deepest rrs)"

definition signerBelow :: "unicode \<Rightarrow> Message \<Rightarrow> gostr \<Rightarrow> gostr \<Rightarrow> gostr" where
  "signerBelow u resp zone qname = signerLoop u zone qname [] (Answers resp @ Authorities resp)"

end
