(* ===== verification/Trust_Anchors.thy ===== *)
theory Trust_Anchors
  imports Dnssec_Records
begin

text \<open>
  Trust anchors (\<open>resolver/trustanchor.go\<close>): the compiled-in DS record of the root and the
  parser of a file of DS records, with what it uses of \<open>bufio\<close>, \<open>strings\<close>, \<open>strconv\<close> and
  \<open>encoding/hex\<close>.  A file is the bytes read from it; reading does not fail.
\<close>

section \<open>The standard library\<close>

text \<open>
  \<open>bufio.Scanner\<close> with its default buffer: the pieces between newlines, the last one only if
  it is not empty, each without a carriage return at its end.  A line that fills the buffer
  of 64 KiB without a newline ends the scan with an error.
\<close>

fun cutLine :: "byte list \<Rightarrow> byte list \<times> byte list" where
  "cutLine [] = ([], [])"
| "cutLine (b # bs) = (if b = 10 then ([], bs) else (case cutLine bs of (l, rest) \<Rightarrow> (b # l, rest)))"

lemma cutLine_shorter: "bs \<noteq> [] \<Longrightarrow> length (snd (cutLine bs)) < length bs"
proof (induction bs)
  case (Cons b bs)
  then show ?case by (cases "bs = []") (auto split: prod.split)
qed simp

function scanLines :: "byte list \<Rightarrow> byte list list" where
  "scanLines bs =
     (if bs = [] then [] else (case cutLine bs of (l, rest) \<Rightarrow> l # scanLines rest))"
  by pat_completeness auto
termination
proof (relation "measure length", goal_cases)
  case (2 bs l rest)
  then show ?case using cutLine_shorter [of bs] by (metis in_measure snd_conv)
qed simp

declare scanLines.simps [simp del]

definition dropCR :: "byte list \<Rightarrow> byte list" where
  "dropCR l = (if l \<noteq> [] \<and> last l = 13 then butlast l else l)"

definition isSpace :: "byte \<Rightarrow> bool" where
  "isSpace b = (b = 32 \<or> 9 \<le> b \<and> b \<le> 13)"

fun fieldsASCII :: "gostr \<Rightarrow> gostr list" where
  "fieldsASCII [] = []"
| "fieldsASCII (b # bs) =
     (if isSpace b then fieldsASCII bs
      else if bs = [] \<or> isSpace (hd bs) then [b] # fieldsASCII bs
      else (case fieldsASCII bs of [] \<Rightarrow> [[b]] | f # fs \<Rightarrow> (b # f) # fs))"

definition Fields :: "unicode \<Rightarrow> gostr \<Rightarrow> gostr list" where
  "Fields u s = (if isASCII s then fieldsASCII s else fields_nonascii u s)"

definition ParseUint :: "gostr \<Rightarrow> nat \<Rightarrow> nat option" where
  "ParseUint s bits =
     (if s = [] \<or> list_ex (\<lambda>b. b < 48 \<or> 57 < b) s then None
      else let n = foldl (\<lambda>n b. 10 * n + (unat b - 48)) 0 s in
        if n < 2 ^ bits then Some n else None)"

definition hexValue :: "byte \<Rightarrow> byte option" where
  "hexValue b =
     (if 48 \<le> b \<and> b \<le> 57 then Some (b - 48)
      else if 97 \<le> b \<and> b \<le> 102 then Some (b - 87)
      else if 65 \<le> b \<and> b \<le> 70 then Some (b - 55)
      else None)"

fun DecodeString :: "gostr \<Rightarrow> byte list option" where
  "DecodeString [] = Some []"
| "DecodeString [_] = None"
| "DecodeString (a # b # s) =
     (case (hexValue a, hexValue b, DecodeString s) of
        (Some x, Some y, Some bs) \<Rightarrow> Some ((push_bit 4 x OR y) # bs)
      | _ \<Rightarrow> None)"

section \<open>The parser\<close>

datatype anchorErr =
    ErrOwner | ErrNotDS | ErrFewFields | ErrKeyTag | ErrAlgorithm | ErrDigestType | ErrDigest
  | ErrEmptyDigest | ErrTooLong | ErrNoRecordsFound

definition parseDSLine :: "unicode \<Rightarrow> gostr list \<Rightarrow> anchorErr + DS" where
  "parseDSLine u fs =
     (if \<not> equalName u (hd fs) [dot] then Inl ErrOwner
      else if \<not> list_ex (\<lambda>f. EqualFold u f (lit ''DS'')) fs then Inl ErrNotDS
      else let rdata = tl (dropWhile (\<lambda>f. \<not> EqualFold u f (lit ''DS'')) fs) in
        if length rdata < 4 then Inl ErrFewFields
        else case ParseUint (rdata ! 0) 16 of None \<Rightarrow> Inl ErrKeyTag | Some keyTag \<Rightarrow>
             (case ParseUint (rdata ! 1) 8 of None \<Rightarrow> Inl ErrAlgorithm | Some algorithm \<Rightarrow>
             (case ParseUint (rdata ! 2) 8 of None \<Rightarrow> Inl ErrDigestType | Some digestType \<Rightarrow>
             (case DecodeString (concat (drop 3 rdata)) of None \<Rightarrow> Inl ErrDigest | Some digest \<Rightarrow>
               if digest = [] then Inl ErrEmptyDigest
               else Inr \<lparr>dsKeyTag = word_of_nat keyTag, dsAlgorithm = word_of_nat algorithm,
                         DigestType = word_of_nat digestType, Digest = digest\<rparr>))))"

text \<open>The loop over the lines, with the anchors found so far.\<close>

fun anchorsLoop :: "unicode \<Rightarrow> byte list list \<Rightarrow> DS list \<Rightarrow> anchorErr + DS list" where
  "anchorsLoop u [] anchors = (if anchors = [] then Inl ErrNoRecordsFound else Inr anchors)"
| "anchorsLoop u (line # lines) anchors =
     (if length line \<ge> 65536 then Inl ErrTooLong
      else let fs = Fields u (takeWhile (\<lambda>b. b \<noteq> 59) (dropCR line)) in
        if fs = [] then anchorsLoop u lines anchors
        else case parseDSLine u fs of
            Inl e \<Rightarrow> Inl e
          | Inr ds \<Rightarrow> anchorsLoop u lines (anchors @ [ds]))"

definition ParseTrustAnchors :: "unicode \<Rightarrow> byte list \<Rightarrow> anchorErr + DS list" where
  "ParseTrustAnchors u file = anchorsLoop u (scanLines file) []"

definition rootKSK2017Digest :: gostr where
  "rootKSK2017Digest = lit ''E06D44B80B8F1D39A95C0B0D7C65D08458E880409BBC683457104237C7F8EC8D''"

abbreviation (input) rootKSK2017Tag :: u16 where "rootKSK2017Tag \<equiv> 20326"

text \<open>\<open>None\<close> is the panic on a digest that is not hexadecimal.\<close>

definition RootAnchors :: "DS list option" where
  "RootAnchors =
     (case DecodeString rootKSK2017Digest of
        None \<Rightarrow> None
      | Some digest \<Rightarrow> Some [\<lparr>dsKeyTag = rootKSK2017Tag, dsAlgorithm = 8, DigestType = 2, Digest = digest\<rparr>])"

end
