(* ===== verification/Root_Hints.thy ===== *)
theory Root_Hints
  imports Upstream
begin

text \<open>
  Where a resolution starts when nothing is known (\<open>resolver/roothints.go\<close>), and priming
  (\<open>resolver/priming.go\<close>): the built-in addresses of the root servers, and replacing them by
  the ones the root zone publishes.

  The address literals are written as the bytes \<open>net.ParseIP\<close> gives for them, an IPv4 address
  in its IPv4-mapped form.  \<open>primeRootServers\<close> holds its mutex at the beginning and at the end
  and not during the query; here it is one step.
\<close>

section \<open>Hints\<close>

definition mapped :: "byte list \<Rightarrow> ip" where
  "mapped v4 = replicate 10 0 @ [0xFF, 0xFF] @ v4"

definition v6groups :: "u16 list \<Rightarrow> ip" where
  "v6groups gs = concat (map put16 gs)"

record rootServer =
  rsName :: gostr
  rsV4 :: ip
  rsV6 :: ip

definition rootHint :: "string \<Rightarrow> byte list \<Rightarrow> u16 list \<Rightarrow> rootServer" where
  "rootHint name v4 gs = \<lparr>rsName = lit name, rsV4 = mapped v4, rsV6 = v6groups gs\<rparr>"

definition rootHints :: "rootServer list" where
  "rootHints =
    [rootHint ''a.root-servers.net'' [198, 41, 0, 4] [0x2001, 0x503, 0xBA3E, 0, 0, 0, 2, 0x30],
     rootHint ''b.root-servers.net'' [170, 247, 170, 2] [0x2801, 0x1B8, 0x10, 0, 0, 0, 0, 0xB],
     rootHint ''c.root-servers.net'' [192, 33, 4, 12] [0x2001, 0x500, 2, 0, 0, 0, 0, 0xC],
     rootHint ''d.root-servers.net'' [199, 7, 91, 13] [0x2001, 0x500, 0x2D, 0, 0, 0, 0, 0xD],
     rootHint ''e.root-servers.net'' [192, 203, 230, 10] [0x2001, 0x500, 0xA8, 0, 0, 0, 0, 0xE],
     rootHint ''f.root-servers.net'' [192, 5, 5, 241] [0x2001, 0x500, 0x2F, 0, 0, 0, 0, 0xF],
     rootHint ''g.root-servers.net'' [192, 112, 36, 4] [0x2001, 0x500, 0x12, 0, 0, 0, 0, 0xD0D],
     rootHint ''h.root-servers.net'' [198, 97, 190, 53] [0x2001, 0x500, 1, 0, 0, 0, 0, 0x53],
     rootHint ''i.root-servers.net'' [192, 36, 148, 17] [0x2001, 0x7FE, 0, 0, 0, 0, 0, 0x53],
     rootHint ''j.root-servers.net'' [192, 58, 128, 30] [0x2001, 0x503, 0xC27, 0, 0, 0, 2, 0x30],
     rootHint ''k.root-servers.net'' [193, 0, 14, 129] [0x2001, 0x7FD, 0, 0, 0, 0, 0, 1],
     rootHint ''l.root-servers.net'' [199, 7, 83, 42] [0x2001, 0x500, 0x9F, 0, 0, 0, 0, 0x42],
     rootHint ''m.root-servers.net'' [202, 12, 27, 33] [0x2001, 0xDC3, 0, 0, 0, 0, 0, 0x35]]"

definition RootServers :: "ip list" where
  "RootServers = concat (map (\<lambda>s. [rsV4 s, rsV6 s]) rootHints)"

section \<open>Priming\<close>

abbreviation (input) primeInterval :: u32 where "primeInterval \<equiv> 300"

definition clampPrimeTTL :: "u32 \<Rightarrow> u32" where
  "clampPrimeTTL ttl = min (max ttl primeInterval) maxDelegationTTL"

definition primedRoots :: "'n env \<Rightarrow> 'n rstate \<Rightarrow> ip list option" where
  "primedRoots E s =
     (if sPrimed s = [] \<or> \<not> sPrimedUntil s > nowOf E s then None else Some (sPrimed s))"

definition rootServers :: "'n env \<Rightarrow> resolver \<Rightarrow> 'n rstate \<Rightarrow> ip list" where
  "rootServers E r s =
     (case rRoots r of
        Some roots \<Rightarrow> roots
      | None \<Rightarrow> (case primedRoots E s of Some primed \<Rightarrow> primed | None \<Rightarrow> RootServers))"

text \<open>The loop over the answers: the names of the servers and the smallest TTL.\<close>

fun primeNames :: "unicode \<Rightarrow> RR list \<Rightarrow> gostr list \<Rightarrow> u32 \<Rightarrow> gostr list \<times> u32" where
  "primeNames u [] nss ttl = (nss, ttl)"
| "primeNames u (rr # rrs) nss ttl =
     (if rrType rr \<noteq> TypeNS \<or> rrClass rr \<noteq> ClassIN \<or> \<not> equalName u (rrName rr) [dot]
      then primeNames u rrs nss ttl
      else primeNames u rrs (normalizeName u (rrNS rr) # nss)
             (if ttl = 0 \<or> TTL rr < ttl then TTL rr else ttl))"

text \<open>
  The address a record of the additional section contributes: an A or AAAA record with an
  address that may be asked.
\<close>

definition usableAddress :: "resolver \<Rightarrow> RR \<Rightarrow> ip option" where
  "usableAddress r rr =
     (case rrA rr of
        Some ip \<Rightarrow>
          if rrType rr = TypeA \<and> allowsUpstream r ip then Some ip
          else (case rrAAAA rr of
              Some ip6 \<Rightarrow> if rrType rr = TypeAAAA \<and> allowsUpstream r ip6 then Some ip6 else None
            | None \<Rightarrow> None)
      | None \<Rightarrow>
          (case rrAAAA rr of
              Some ip6 \<Rightarrow> if rrType rr = TypeAAAA \<and> allowsUpstream r ip6 then Some ip6 else None
            | None \<Rightarrow> None))"

definition primeAddrs :: "unicode \<Rightarrow> resolver \<Rightarrow> gostr list \<Rightarrow> RR list \<Rightarrow> ip list" where
  "primeAddrs u r nss rrs =
     List.map_filter (\<lambda>rr.
       if normalizeName u (rrName rr) \<notin> set nss \<or> rrClass rr \<noteq> ClassIN then None
       else usableAddress r rr) rrs"

text \<open>What a response to the priming query changes.\<close>

definition takePrimed :: "'n env \<Rightarrow> resolver \<Rightarrow> Message \<Rightarrow> 'n rstate \<Rightarrow> 'n rstate" where
  "takePrimed E r resp s =
     (case primeNames (unicodeOf E) (Answers resp) [] 0 of
        (nss, ttl) \<Rightarrow>
          if nss = [] then s
          else let addrs = primeAddrs (unicodeOf E) r nss (Additionals resp) in
            if length addrs < length rootHints then s
            else s\<lparr>sPrimed := addrs, sPrimedUntil := nowOf E s + seconds (clampPrimeTTL ttl)\<rparr>)"

definition primeRootServers :: "'n env \<Rightarrow> resolver \<Rightarrow> 'n rstate \<Rightarrow> 'n rstate" where
  "primeRootServers E r s =
     (if sPrimedUntil s > nowOf E s then s
      else case queryServers E r (if sPrimed s = [] then RootServers else sPrimed s) [dot] TypeNS
                  (s\<lparr>sPrimedUntil := nowOf E s + seconds primeInterval\<rparr>) of
          (Inl _, s) \<Rightarrow> s
        | (Inr (resp, _), s) \<Rightarrow> takePrimed E r resp s)"

section \<open>Facts\<close>

lemma usableAddress_allowed: "usableAddress r rr = Some ip \<Longrightarrow> allowsUpstream r ip"
  by (auto simp: usableAddress_def split: option.splits if_splits)

lemma primeAddrs_allowed: "ip \<in> set (primeAddrs u r nss rrs) \<Longrightarrow> allowsUpstream r ip"
  by (auto simp: primeAddrs_def List.map_filter_def usableAddress_allowed split: if_splits)

lemma RootServers_length: "length RootServers = 26"
  by (simp add: RootServers_def rootHints_def)

definition strictResolver :: resolver where
  "strictResolver = \<lparr>rRoots = None, rAllowPrivate = False, rValidate = True, rAnchors = None,
     rMinimize = True, rUse0x20 = False\<rparr>"

lemma allowsUpstream_strict: "allowsUpstream strictResolver ip \<Longrightarrow> allowsUpstream r ip"
  by (simp add: allowsUpstream_def strictResolver_def)

lemma RootServers_strict: "list_all (allowsUpstream strictResolver) RootServers"
  by code_simp

lemma RootServers_allowed: "ip \<in> set RootServers \<Longrightarrow> allowsUpstream r ip"
  using RootServers_strict allowsUpstream_strict by (auto simp: list_all_iff)

end
