(* ===== verification/Resolve_Walk.thy ===== *)
theory Resolve_Walk
  imports Chain_Validation Trust_Anchors Root_Hints
begin

text \<open>
  Iterative resolution (\<open>resolver/resolver.go\<close>): where a walk begins, one turn of the loop of
  \<open>resolve\<close> up to the point where it needs another resolution, what is done with a referral,
  and the loop itself, which calls \<open>resolve\<close> for the rest of a chain of aliases and for the
  addresses of name servers.

  \<open>disabled\<close> is \<open>checkingDisabled(ctx)\<close>.  A deadline or a cancellation is \<open>ctxErr\<close> of the world.
  A call that does not return has the result \<open>Hangs\<close>; that none does is proved in another theory.
\<close>

section \<open>Results\<close>

record resolution =
  resAnswers :: "RR list"
  resAuthority :: "RR list"
  resSecure :: bool

definition firstSOA :: "RR list \<Rightarrow> RR option" where
  "firstSOA authorities = find (\<lambda>rr. rrType rr = TypeSOA \<and> rrSOA rr \<noteq> None) authorities"

definition newNXDOMAINError :: "gostr \<Rightarrow> RR list \<Rightarrow> resolveErr" where
  "newNXDOMAINError qname authorities = NXDOMAINError qname (firstSOA authorities)"

definition soaAuthority :: "RR list \<Rightarrow> RR list" where
  "soaAuthority authorities = (case firstSOA authorities of Some rr \<Rightarrow> [rr] | None \<Rightarrow> [])"

section \<open>Where a walk begins\<close>

record walk =
  wZone :: gostr
  wServers :: "ip list"
  wSec :: secState
  wFromCache :: bool
  wMinimizeOff :: bool

definition startingPoint ::
  "'n env \<Rightarrow> resolver \<Rightarrow> gostr \<Rightarrow> 'n rstate \<Rightarrow> (gostr \<times> ip list \<times> bool \<times> bool) \<times> 'n rstate" where
  "startingPoint E r qname s =
     (case closestEnclosing (unicodeOf E) (sDelegations s) qname (nowOf E s) of
        (c, (zone, servers, sec, ok)) \<Rightarrow>
          let s = s\<lparr>sDelegations := c\<rparr> in
            if ok then ((zone, servers, sec, True), s)
            else (([dot], rootServers E r s, False, False), s))"

text \<open>\<open>RootAnchors\<close> does not panic, as \<open>RootAnchors_defined\<close> shows.\<close>

definition trustAnchors :: "resolver \<Rightarrow> DS list" where
  "trustAnchors r =
     (case rAnchors r of
        Some anchors \<Rightarrow> anchors
      | None \<Rightarrow> (case RootAnchors of Some anchors \<Rightarrow> anchors | None \<Rightarrow> []))"

definition rootState :: "'n env \<Rightarrow> resolver \<Rightarrow> ip list \<Rightarrow> ('n, secState) act" where
  "rootState E r servers =
     andThen (zoneKeys E r [dot] servers (trustAnchors r)) (\<lambda>ks s.
       (Inr \<lparr>secure = True, keys = ks\<rparr>, s))"

definition startingSecurity ::
  "'n env \<Rightarrow> resolver \<Rightarrow> bool \<Rightarrow> gostr \<Rightarrow> ip list \<Rightarrow> ('n, secState) act" where
  "startingSecurity E r disabled zone servers s =
     (if \<not> rValidate r \<or> disabled then (Inr insecure, s)
      else if normalizeName (unicodeOf E) zone = [] then rootState E r servers s
      else (case keysGet (unicodeOf E) (sKeys s) zone (nowOf E s) of
          Some ks \<Rightarrow> (Inr \<lparr>secure = True, keys = ks\<rparr>, s)
        | None \<Rightarrow> (Inr insecure, s)))"

text \<open>The walk from the root, with the minimization setting it has.\<close>

definition fromRoot :: "'n env \<Rightarrow> resolver \<Rightarrow> bool \<Rightarrow> bool \<Rightarrow> ('n, walk) act" where
  "fromRoot E r disabled off s =
     (let servers = rootServers E r s in
        andThen (startingSecurity E r disabled [dot] servers) (\<lambda>sec s.
          (Inr \<lparr>wZone = [dot], wServers = servers, wSec = sec, wFromCache = False,
                wMinimizeOff = off\<rparr>, s)) s)"

definition beginWalk :: "'n env \<Rightarrow> resolver \<Rightarrow> bool \<Rightarrow> gostr \<Rightarrow> ('n, walk) act" where
  "beginWalk E r disabled qname s =
     (case startingPoint E r qname (if rRoots r = None then primeRootServers E r s else s) of
        ((zone, servers, wasSecure, fromCache), s) \<Rightarrow>
          andThen (startingSecurity E r disabled zone servers) (\<lambda>sec s.
            if wasSecure \<and> \<not> secure sec \<and> rValidate r \<and> \<not> disabled then fromRoot E r disabled False s
            else (Inr \<lparr>wZone = zone, wServers = servers, wSec = sec, wFromCache = fromCache,
                       wMinimizeOff = False\<rparr>, s)) s)"

section \<open>What a response says\<close>

abbreviation (input) maxReferrals :: nat where "maxReferrals \<equiv> 30"
abbreviation (input) maxCNAMEChain :: nat where "maxCNAMEChain \<equiv> 15"
abbreviation (input) maxGlueLookups :: nat where "maxGlueLookups \<equiv> 6"

text \<open>The name and type to ask, and whether the name is a shortened one.\<close>

definition chooseQuestion ::
  "unicode \<Rightarrow> resolver \<Rightarrow> gostr \<Rightarrow> u16 \<Rightarrow> walk \<Rightarrow> gostr \<times> u16 \<times> bool" where
  "chooseQuestion u r qname qtype w =
     (if rMinimize r \<and> \<not> wMinimizeOff w \<and> \<not> equalName u (minimizedQName qname (wZone w)) qname
      then (minimizedQName qname (wZone w), TypeA, True)
      else (qname, qtype, False))"

text \<open>
  The loop over the aliases of one response: the name it ends at, the CNAME records on the
  way, and the records of the type asked for at that name.
\<close>

function followChain ::
  "unicode \<Rightarrow> RR list \<Rightarrow> u16 \<Rightarrow> nat \<Rightarrow> RR list \<Rightarrow> gostr \<Rightarrow> resolveErr + gostr \<times> RR list \<times> RR list" where
  "followChain u rrs qtype cnameDepth chain name =
     (let here = filter (\<lambda>rr. equalName u (rrName rr) name \<and> rrClass rr = ClassIN) rrs;
          found = filter (\<lambda>rr. rrType rr = qtype) here;
          cnames = filter (\<lambda>rr. rrType rr \<noteq> qtype \<and> rrType rr = TypeCNAME) here
      in if found \<noteq> [] \<or> cnames = [] then Inr (name, chain, found)
         else if cnameDepth + length chain + 1 \<ge> maxCNAMEChain then Inl ErrFailed
         else followChain u rrs qtype cnameDepth (chain @ [last cnames]) (rrCNAME (last cnames)))"
  by pat_completeness auto
termination
  by (relation "measure (\<lambda>(u, rrs, qtype, cnameDepth, chain, name). 15 - (cnameDepth + length chain))") auto

declare followChain.simps [simp del]

text \<open>
  The loop over the authority section: the zone referred to, the names of its servers, and the
  smallest TTL.  The names are a set in the code; here each is kept once, in the order met.
\<close>

record referred =
  newZone :: gostr
  nsNames :: "gostr list"
  nsTTL :: u32

definition takeNS :: "unicode \<Rightarrow> RR \<Rightarrow> referred \<Rightarrow> referred" where
  "takeNS u rr f =
     \<lparr>newZone = (if newZone f = [] then rrName rr else newZone f),
      nsNames = (let n = ToLower u (rrNS rr) in
                   if n \<in> set (nsNames f) then nsNames f else nsNames f @ [n]),
      nsTTL = (if nsTTL f = 0 \<or> TTL rr < nsTTL f then TTL rr else nsTTL f)\<rparr>"

fun referralLoop :: "unicode \<Rightarrow> gostr \<Rightarrow> gostr \<Rightarrow> referred \<Rightarrow> RR list \<Rightarrow> referred" where
  "referralLoop u qname zone f [] = f"
| "referralLoop u qname zone f (rr # rrs) =
     (if rrType rr \<noteq> TypeNS \<or> rrClass rr \<noteq> ClassIN then referralLoop u qname zone f rrs
      else if \<not> isSubdomainOrEqual u qname (rrName rr) \<or> \<not> isProperSubdomain u (rrName rr) zone
      then referralLoop u qname zone f rrs
      else if newZone f \<noteq> [] \<and> \<not> equalName u (rrName rr) (newZone f)
      then referralLoop u qname zone f rrs
      else referralLoop u qname zone (takeNS u rr f) rrs)"

definition findReferral :: "unicode \<Rightarrow> gostr \<Rightarrow> gostr \<Rightarrow> RR list \<Rightarrow> referred" where
  "findReferral u qname zone authorities =
     referralLoop u qname zone \<lparr>newZone = [], nsNames = [], nsTTL = 0\<rparr> authorities"

text \<open>The addresses in the additional section for the servers of a referral.\<close>

definition glueAddrs :: "unicode \<Rightarrow> resolver \<Rightarrow> gostr \<Rightarrow> gostr list \<Rightarrow> RR list \<Rightarrow> ip list" where
  "glueAddrs u r zone nss additionals =
     List.map_filter (\<lambda>rr.
       if ToLower u (rrName rr) \<notin> set nss \<or> rrClass rr \<noteq> ClassIN then None
       else if \<not> isSubdomainOrEqual u (rrName rr) zone then None
       else usableAddress r rr) additionals"

section \<open>One turn of the loop\<close>

text \<open>
  How a turn ends: with a result; with another turn; with a chain of aliases that leaves the
  response, to be resolved from the name it ends at; or with a referral, and the glue found.
  The last two carry what is needed when that is done.
\<close>

datatype turn =
    Final resolution
  | Again walk
  | Chase gostr "RR list" secState Message
  | Refer referred "ip list" walk Message

definition nodataTurn ::
  "checks \<Rightarrow> secState \<Rightarrow> Message \<Rightarrow> gostr \<Rightarrow> u16 \<Rightarrow> resolveErr + turn" where
  "nodataTurn c sec resp qname qtype =
     (case checkDenial c sec (Authorities resp)
             (\<lambda>nsecs. ProveNoData (cUnicode c) (cCrypto c) nsecs qname qtype) of
        Inl _ \<Rightarrow> Inl ErrBogus
      | Inr proven \<Rightarrow>
          Inr (Final \<lparr>resAnswers = [], resAuthority = soaAuthority (Authorities resp),
                      resSecure = proven\<rparr>))"

definition referralTurn ::
  "checks \<Rightarrow> resolver \<Rightarrow> walk \<Rightarrow> bool \<Rightarrow> Message \<Rightarrow> gostr \<Rightarrow> u16 \<Rightarrow> resolveErr + turn" where
  "referralTurn c r w minimizing resp qname qtype =
     (let f = findReferral (cUnicode c) qname (wZone w) (Authorities resp) in
        if nsNames f = [] \<and> minimizing then Inr (Again (w\<lparr>wMinimizeOff := True\<rparr>))
        else if nsNames f = [] then nodataTurn c (wSec w) resp qname qtype
        else Inr (Refer f (glueAddrs (cUnicode c) r (wZone w) (nsNames f) (Additionals resp)) w resp))"

definition answerTurn ::
  "checks \<Rightarrow> resolver \<Rightarrow> nat \<Rightarrow> walk \<Rightarrow> Message \<Rightarrow> gostr \<Rightarrow> u16 \<Rightarrow> resolveErr + turn" where
  "answerTurn c r cnameDepth w resp qname qtype =
     (case followChain (cUnicode c) (Answers resp) qtype cnameDepth [] qname of
        Inl e \<Rightarrow> Inl e
      | Inr (name, chain, answers) \<Rightarrow>
          if answers \<noteq> [] then
            (case validateAnswer c (wSec w) resp (chain @ answers) of
               Inl e \<Rightarrow> Inl e
             | Inr sec \<Rightarrow> Inr (Final \<lparr>resAnswers = chain @ answers, resAuthority = [],
                                       resSecure = sec\<rparr>))
          else if name \<noteq> qname then Inr (Chase name chain (wSec w) resp)
          else referralTurn c r w False resp qname qtype)"

text \<open>A response to the whole name, from the zone that signed it.\<close>

definition fullTurn ::
  "checks \<Rightarrow> resolver \<Rightarrow> nat \<Rightarrow> walk \<Rightarrow> Message \<Rightarrow> gostr \<Rightarrow> u16 \<Rightarrow> resolveErr + turn" where
  "fullTurn c r cnameDepth w resp qname qtype =
     (if RCode (header resp) = RCodeNameError then
        (case checkDenial c (wSec w) (Authorities resp)
                (\<lambda>nsecs. ProveNameError (cUnicode c) (cCrypto c) nsecs qname) of
           Inl _ \<Rightarrow> Inl ErrBogus
         | Inr _ \<Rightarrow> Inl (newNXDOMAINError qname (Authorities resp)))
      else if RCode (header resp) \<noteq> RCodeSuccess then Inl ErrFailed
      else answerTurn c r cnameDepth w resp qname qtype)"

text \<open>Moving the walk into the zone below that signed the response, if one did.\<close>

definition descendToSigner :: "'n env \<Rightarrow> resolver \<Rightarrow> walk \<Rightarrow> Message \<Rightarrow> gostr \<Rightarrow> ('n, walk) act" where
  "descendToSigner E r w resp qname s =
     (let signer = signerBelow (unicodeOf E) resp (wZone w) qname in
        if \<not> secure (wSec w) \<or> signer = [] then (Inr w, s)
        else andThen (descendTo E r (wSec w) (wZone w) signer (wServers w)) (\<lambda>sec s.
               (Inr (w\<lparr>wSec := sec, wZone := signer\<rparr>), s)) s)"

text \<open>What a turn does when no server answered.\<close>

definition silentTurn :: "'n env \<Rightarrow> resolver \<Rightarrow> bool \<Rightarrow> bool \<Rightarrow> walk \<Rightarrow> resolveErr \<Rightarrow> ('n, turn) act" where
  "silentTurn E r disabled minimizing w e s =
     (if minimizing then (Inr (Again (w\<lparr>wMinimizeOff := True\<rparr>)), s)
      else if wFromCache w then
        andThen (fromRoot E r disabled (wMinimizeOff w)) (\<lambda>w s. (Inr (Again w), s))
          (s\<lparr>sDelegations := forget (unicodeOf E) (sDelegations s) (wZone w)\<rparr>)
      else (Inl e, s))"

definition walkTurn ::
  "'n env \<Rightarrow> resolver \<Rightarrow> bool \<Rightarrow> gostr \<Rightarrow> u16 \<Rightarrow> nat \<Rightarrow> walk \<Rightarrow> ('n, turn) act" where
  "walkTurn E r disabled qname qtype cnameDepth w s =
     (case chooseQuestion (unicodeOf E) r qname qtype w of
        (askName, askType, minimizing) \<Rightarrow>
          (case queryServers E r (wServers w) askName askType s of
             (Inl e, s) \<Rightarrow> silentTurn E r disabled minimizing w e s
           | (Inr (resp, _), s) \<Rightarrow>
               if minimizing then
                 (if RCode (header resp) \<noteq> RCodeSuccess
                  then (Inr (Again (w\<lparr>wMinimizeOff := True\<rparr>)), s)
                  else (referralTurn (checksOf E r s) r w True resp qname qtype, s))
               else andThen (descendToSigner E r w resp qname) (\<lambda>w s.
                      (fullTurn (checksOf E r s) r cnameDepth w resp qname qtype, s)) s))"

section \<open>Following a referral\<close>

definition rememberDelegation ::
  "'n env \<Rightarrow> bool \<Rightarrow> referred \<Rightarrow> ip list \<Rightarrow> bool \<Rightarrow> ('n, unit) act" where
  "rememberDelegation E disabled f servers sec s =
     (if disabled then (Inr (), s)
      else (case delegationPut (unicodeOf E) (sDelegations s) (newZone f) servers (nsTTL f) sec (nowOf E s) of
          None \<Rightarrow> (Inl Hangs, s)
        | Some c \<Rightarrow> (Inr (), s\<lparr>sDelegations := c\<rparr>)))"

definition enterReferral ::
  "'n env \<Rightarrow> resolver \<Rightarrow> bool \<Rightarrow> walk \<Rightarrow> Message \<Rightarrow> referred \<Rightarrow> ip list \<Rightarrow> ('n, walk) act" where
  "enterReferral E r disabled w resp f servers =
     andThen (if rValidate r then crossDelegation E r (wSec w) resp (newZone f) servers
              else (\<lambda>s. (Inr (wSec w), s))) (\<lambda>sec.
     andThen (rememberDelegation E disabled f servers (secure sec)) (\<lambda>_ s.
       (Inr \<lparr>wZone = newZone f, wServers = servers, wSec = sec, wFromCache = False,
             wMinimizeOff = False\<rparr>, s)))"

definition joinChain ::
  "checks \<Rightarrow> secState \<Rightarrow> Message \<Rightarrow> RR list \<Rightarrow> resolution \<Rightarrow> resolveErr + resolution" where
  "joinChain c sec resp chain res =
     (case validateAnswer c sec resp chain of
        Inl e \<Rightarrow> Inl e
      | Inr chainSecure \<Rightarrow>
          Inr (res\<lparr>resAnswers := chain @ resAnswers res, resSecure := resSecure res \<and> chainSecure\<rparr>))"

definition addressesOf :: "resolver \<Rightarrow> RR list \<Rightarrow> ip list" where
  "addressesOf r rrs =
     List.map_filter (\<lambda>rr. case rrA rr of
         Some ip \<Rightarrow> if rrType rr = TypeA \<and> allowsUpstream r ip then Some ip else None
       | None \<Rightarrow> None) rrs"

end
