(* ===== verification/Resolve_Loop.thy ===== *)
theory Resolve_Loop
  imports Resolve_Walk
begin

text \<open>
  The loop of \<open>resolve\<close> (\<open>resolver/resolver.go\<close>) with the two places where it calls itself:
  for the rest of a chain of aliases, one deeper in the chain, and for the address of a name
  server without glue, one deeper in glue.  It is a total function: its termination is proved
  from the depths, which the code bounds by 15 and 6, and the 30 turns of one walk.
\<close>

section \<open>Depths\<close>

lemma followChain_depth:
  "followChain u rrs qtype c chain name = Inr (name', chain', found) \<Longrightarrow>
     chain' = chain \<and> name' = name \<or> length chain < length chain' \<and> c + length chain' < 15"
proof (induction u rrs qtype c chain name rule: followChain.induct)
  case (1 u rrs qtype c chain name)
  from "1.prems" show ?case
    by (subst (asm) followChain.simps) (auto simp: Let_def split: if_splits dest!: "1.IH" [rotated -1])
qed

lemma referralTurn_not_chase: "referralTurn cs r w m resp qname qtype \<noteq> Inr (Chase name chain sec resp')"
  by (auto simp: referralTurn_def nodataTurn_def Let_def split: sum.splits)

lemma answerTurn_chase:
  "answerTurn cs r c w resp qname qtype = Inr (Chase name chain sec resp') \<Longrightarrow>
     followChain (cUnicode cs) (Answers resp) qtype c [] qname = Inr (name, chain, []) \<and>
     name \<noteq> qname \<and> sec = wSec w \<and> resp' = resp"
  by (auto simp: answerTurn_def referralTurn_not_chase split: sum.splits prod.splits if_splits)

lemma fullTurn_chase:
  "fullTurn cs r c w resp qname qtype = Inr (Chase name chain sec resp') \<Longrightarrow>
     answerTurn cs r c w resp qname qtype = Inr (Chase name chain sec resp')"
  by (auto simp: fullTurn_def split: sum.splits if_splits)

lemma silentTurn_not_chase: "silentTurn E r disabled m w e s \<noteq> (Inr (Chase name chain sec resp'), s')"
  by (auto simp: silentTurn_def andThen_Inr)

lemma walkTurn_chase:
  assumes "walkTurn E r disabled qname qtype c w s = (Inr (Chase name chain sec resp), s')"
  shows "0 < length chain \<and> c + length chain < 15"
proof -
  obtain w1 s1 resp1 where
    "(fullTurn (checksOf E r s1) r c w1 resp1 qname qtype, s1) = (Inr (Chase name chain sec resp), s')"
    using assms
    by (auto simp: walkTurn_def silentTurn_not_chase referralTurn_not_chase andThen_Inr
        split: prod.splits sum.splits if_splits)
  then show ?thesis
    by (auto dest!: fullTurn_chase answerTurn_chase followChain_depth)
qed

lemma walkTurn_shrinks:
  assumes "(Inr (Chase name chain sec resp), s') = walkTurn E r disabled qname qtype c w s"
  shows "15 - (c + length chain) < 15 - c"
  using walkTurn_chase [OF assms [symmetric]] by linarith

section \<open>The loop\<close>

text \<open>
  \<open>glueServers\<close> is the block that resolves the names of the servers when a referral has no
  glue: the first name that gives an address ends it.  The names are met in the order of
  \<open>rangeNames\<close>, the order of Go's loop over the map.
\<close>

function (sequential) resolve :: "'n env \<Rightarrow> resolver \<Rightarrow> bool \<Rightarrow> gostr \<Rightarrow> u16 \<Rightarrow> nat \<Rightarrow> nat \<Rightarrow> ('n, resolution) act" and
walkLoop :: "'n env \<Rightarrow> resolver \<Rightarrow> bool \<Rightarrow> gostr \<Rightarrow> u16 \<Rightarrow> nat \<Rightarrow> nat \<Rightarrow> nat \<Rightarrow> walk \<Rightarrow> ('n, resolution) act" and
glueServers :: "'n env \<Rightarrow> resolver \<Rightarrow> bool \<Rightarrow> gostr list \<Rightarrow> nat \<Rightarrow> ('n, ip list) act"
where
  "resolve E r disabled qname qtype cnameDepth glueDepth s =
     (case beginWalk E r disabled qname s of
        (Inl e, s) \<Rightarrow> (Inl e, s)
      | (Inr w, s) \<Rightarrow> walkLoop E r disabled qname qtype cnameDepth glueDepth 0 w s)"
| "walkLoop E r disabled qname qtype cnameDepth glueDepth referrals w s =
     (if ctxErr E (sNet s) then (Inl ErrFailed, s)
      else if referrals \<ge> maxReferrals then (Inl ErrFailed, s)
      else case walkTurn E r disabled qname qtype cnameDepth w s of
          (Inl e, s) \<Rightarrow> (Inl e, s)
        | (Inr (Final res), s) \<Rightarrow> (Inr res, s)
        | (Inr (Again w), s) \<Rightarrow>
            walkLoop E r disabled qname qtype cnameDepth glueDepth (referrals + 1) w s
        | (Inr (Chase name chain sec resp), s) \<Rightarrow>
            (case resolve E r disabled name qtype (cnameDepth + length chain) glueDepth s of
               (Inl e, s) \<Rightarrow> (Inl e, s)
             | (Inr res, s) \<Rightarrow> (joinChain (checksOf E r s) sec resp chain res, s))
        | (Inr (Refer f glue w resp), s) \<Rightarrow>
            (case (if glue \<noteq> [] then (Inr glue, s)
                   else (case withNet (rangeNames E (nsNames f)) s of
                       (nss, s) \<Rightarrow> glueServers E r disabled nss glueDepth s)) of
               (Inl e, s) \<Rightarrow> (Inl e, s)
             | (Inr servers, s) \<Rightarrow>
                 if servers = [] then (Inl ErrFailed, s)
                 else (case enterReferral E r disabled w resp f servers s of
                     (Inl e, s) \<Rightarrow> (Inl e, s)
                   | (Inr w, s) \<Rightarrow>
                       walkLoop E r disabled qname qtype cnameDepth glueDepth (referrals + 1) w s)))"
| "glueServers E r disabled nss glueDepth s =
     (if glueDepth \<ge> maxGlueLookups then (Inl ErrFailed, s)
      else (case nss of
          [] \<Rightarrow> (Inr [], s)
        | ns # nss \<Rightarrow>
            (case resolve E r disabled ns TypeA 0 (glueDepth + 1) s of
               (Inl _, s) \<Rightarrow> glueServers E r disabled nss glueDepth s
             | (Inr res, s) \<Rightarrow>
                 if addressesOf r (resAnswers res) \<noteq> [] then (Inr (addressesOf r (resAnswers res)), s)
                 else glueServers E r disabled nss glueDepth s)))"
  by pat_completeness auto
termination
  apply (relation "measures
    [\<lambda>x. case x of Inl (E, r, disabled, qname, qtype, c, g, s) \<Rightarrow> 2 * (6 - g) + 1
       | Inr (Inl (E, r, disabled, qname, qtype, c, g, n, w, s)) \<Rightarrow> 2 * (6 - g) + 1
       | Inr (Inr (E, r, disabled, nss, g, s)) \<Rightarrow> 2 * (6 - g),
     \<lambda>x. case x of Inl (E, r, disabled, qname, qtype, c, g, s) \<Rightarrow> 15 - c
       | Inr (Inl (E, r, disabled, qname, qtype, c, g, n, w, s)) \<Rightarrow> 15 - c
       | Inr (Inr (E, r, disabled, nss, g, s)) \<Rightarrow> length nss,
     \<lambda>x. case x of Inl _ \<Rightarrow> 31
       | Inr (Inl (E, r, disabled, qname, qtype, c, g, n, w, s)) \<Rightarrow> 30 - n
       | Inr (Inr _) \<Rightarrow> 0]")
  by (auto dest: walkTurn_shrinks)

declare resolve.simps [simp del] walkLoop.simps [simp del] glueServers.simps [simp del]

section \<open>The entry points\<close>

record options =
  DisableDNSSEC :: bool
  DisableQNAMEMinimization :: bool
  Use0x20 :: bool
  TrustAnchors :: "DS list option"

definition NewWithOptions :: "options \<Rightarrow> resolver" where
  "NewWithOptions opt =
     \<lparr>rRoots = None, rAllowPrivate = False, rValidate = (\<not> DisableDNSSEC opt),
      rAnchors = TrustAnchors opt, rMinimize = (\<not> DisableQNAMEMinimization opt),
      rUse0x20 = Use0x20 opt\<rparr>"

text \<open>The tables of a resolver that was just made, in a world.\<close>

definition newState :: "'n \<Rightarrow> 'n rstate" where
  "newState n =
     \<lparr>sDelegations = Some (newDelegationCache 0), sKeys = Some Mapping.empty,
      sRtt = Some Mapping.empty, sPrimed = [], sPrimedUntil = 0, sNet = n\<rparr>"

definition ResolveRR :: "'n env \<Rightarrow> resolver \<Rightarrow> bool \<Rightarrow> gostr \<Rightarrow> u16 \<Rightarrow> ('n, resolution) act" where
  "ResolveRR E r disabled qname qtype = resolve E r disabled qname qtype 0 0"

definition Resolve :: "'n env \<Rightarrow> resolver \<Rightarrow> bool \<Rightarrow> gostr \<Rightarrow> u16 \<Rightarrow> ('n, ip list) act" where
  "Resolve E r disabled qname qtype =
     andThen (ResolveRR E r disabled qname qtype) (\<lambda>res s.
       (Inr (List.map_filter (\<lambda>rr.
          if rrType rr = TypeA \<and> rrA rr \<noteq> None then rrA rr
          else if rrType rr = TypeAAAA \<and> rrAAAA rr \<noteq> None then rrAAAA rr
          else None) (resAnswers res)), s))"

end
