(* ===== verification/Chain_Trust.thy ===== *)
theory Chain_Trust
  imports Resolve_Walk
begin

text \<open>
  What the chain of trust promises, stated without the resolver: a key set of a zone is
  vouched for if one of its keys matches a DS record and signed the set, and the DS record is
  a trust anchor of the root or is signed with a key set that is vouched for itself.  The
  lemmas show that every step of \<open>resolver/validate.go\<close> keeps to it: the key sets in the cache
  and in the security state of a walk are vouched for, and what is called secure is signed
  with such a set.
\<close>

section \<open>The specification\<close>

definition signedBy :: "unicode \<Rightarrow> crypto \<Rightarrow> RR list \<Rightarrow> DNSKEY list \<Rightarrow> bool" where
  "signedBy u cr rrset ks =
     (\<exists>sig key now. key \<in> set ks \<and> VerifyRRSet u cr rrset sig key now = Inr ())"

definition ownedBy :: "unicode \<Rightarrow> u16 \<Rightarrow> gostr \<Rightarrow> RR list \<Rightarrow> bool" where
  "ownedBy u t zone rrs = (\<forall>rr\<in>set rrs. rrType rr = t \<and> equalName u (rrName rr) zone)"

definition keySetVouched ::
  "unicode \<Rightarrow> crypto \<Rightarrow> gostr \<Rightarrow> DS list \<Rightarrow> DNSKEY list \<Rightarrow> bool" where
  "keySetVouched u cr zone anchors ks =
     (\<exists>rrs key anchor. ownedBy u TypeDNSKEY zone rrs \<and> ks = List.map_filter AsDNSKEY rrs \<and>
        key \<in> set ks \<and> anchor \<in> set anchors \<and> VerifyDS cr zone key anchor = Inr () \<and>
        signedBy u cr rrs [key])"

inductive vouched :: "unicode \<Rightarrow> crypto \<Rightarrow> DS list \<Rightarrow> gostr \<Rightarrow> DNSKEY list \<Rightarrow> bool"
  for u cr anchors where
  root: "normalizeName u zone = [] \<Longrightarrow> keySetVouched u cr zone anchors ks \<Longrightarrow>
     vouched u cr anchors zone ks"
| cut: "vouched u cr anchors parent pks \<Longrightarrow> ownedBy u TypeDS zone dsSet \<Longrightarrow> signedBy u cr dsSet pks \<Longrightarrow>
     keySetVouched u cr zone (List.map_filter AsDS dsSet) ks \<Longrightarrow> vouched u cr anchors zone ks"

text \<open>A record is covered if it is in a set signed with keys that are vouched for.\<close>

definition covered :: "unicode \<Rightarrow> crypto \<Rightarrow> DS list \<Rightarrow> RR \<Rightarrow> bool" where
  "covered u cr anchors rr =
     (\<exists>zone ks rrset. vouched u cr anchors zone ks \<and> rr \<in> set rrset \<and> signedBy u cr rrset ks)"

text \<open>The state of a walk, and the cache, keep to it.\<close>

definition secVouched :: "unicode \<Rightarrow> crypto \<Rightarrow> DS list \<Rightarrow> secState \<Rightarrow> bool" where
  "secVouched u cr anchors sec =
     (keys sec = [] \<or> (\<exists>zone. vouched u cr anchors zone (keys sec)))"

definition cacheVouched :: "unicode \<Rightarrow> crypto \<Rightarrow> DS list \<Rightarrow> keyCache option \<Rightarrow> bool" where
  "cacheVouched u cr anchors c =
     (\<forall>m k e. c = Some m \<longrightarrow> Mapping.lookup m k = Some e \<longrightarrow>
        (\<exists>zone. normalizeZone u zone = k \<and> vouched u cr anchors zone (keKeys e)))"

section \<open>Signatures\<close>

lemma tryPairs_Inr:
  "tryPairs u cr rrset now pairs un le = Inr sig \<Longrightarrow>
     \<exists>key. (sig, key) \<in> set pairs \<and> VerifyRRSet u cr rrset sig key now = Inr ()"
  by (induction u cr rrset now pairs un le rule: tryPairs.induct) (auto split: sum.splits)

lemma verifyRRSet_Inr:
  assumes "verifyRRSet u cr now rrset sec ks = Inr sig"
  shows "\<exists>key\<in>set ks. VerifyRRSet u cr rrset sig key now = Inr ()" "rrset \<noteq> []"
    "sig \<in> set (rrsigsFor u sec (rrName (hd rrset)) (rrType (hd rrset)))"
  using assms by (auto simp: verifyRRSet_def Let_def split: if_splits dest!: tryPairs_Inr)

lemma verifyRRSet_signedBy: "verifyRRSet u cr now rrset sec ks = Inr sig \<Longrightarrow> signedBy u cr rrset ks"
  using verifyRRSet_Inr(1) by (fastforce simp: signedBy_def)

lemma recordsOfType_owned: "ownedBy u t zone (recordsOfType u sec t zone)"
  by (auto simp: ownedBy_def recordsOfType_def)

lemma signedBy_covered:
  "secVouched u cr anchors sec \<Longrightarrow> signedBy u cr rrset (keys sec) \<Longrightarrow> rr \<in> set rrset \<Longrightarrow>
     covered u cr anchors rr"
  unfolding secVouched_def signedBy_def covered_def by fastforce

section \<open>Denial records and answers\<close>

lemma nsecsLoop_signed:
  "rr \<in> set (nsecsLoop c sct ks checked rrs) \<Longrightarrow>
     \<exists>rrset. rr \<in> set rrset \<and> signedBy (cUnicode c) (cCrypto c) rrset ks"
  by (induction c sct ks checked rrs rule: nsecsLoop.induct)
     (auto simp: Let_def split: if_splits sum.splits dest!: verifyRRSet_signedBy [OF sym] intro: exI)

lemma verifiedNSECs_covered:
  "secVouched (cUnicode c) (cCrypto c) anchors sec \<Longrightarrow> rr \<in> set (verifiedNSECs c sct (keys sec)) \<Longrightarrow>
     covered (cUnicode c) (cCrypto c) anchors rr"
  unfolding verifiedNSECs_def using nsecsLoop_signed signedBy_covered by metis

lemma checkDenial_True:
  "checkDenial c sec sct prove = Inr True \<longleftrightarrow>
     cValidate c \<and> secure sec \<and> prove (verifiedNSECs c sct (keys sec)) = Inr ()"
  by (auto simp: checkDenial_def split: sum.splits)

text \<open>
  The loop skips a record whose lower-cased name and type it has seen.  For ASCII names that
  record is in the set that was verified then.
\<close>

lemma normalize_equal:
  "isASCII a \<Longrightarrow> isASCII b \<Longrightarrow> normalizeName u a = normalizeName u b \<Longrightarrow> equalName u a b"
  by (simp add: normalizeName_eq_iff equalName_iff)

text \<open>
  What a set the loop let through is: signed, and if the signature was made for a wildcard,
  with a proof from signed records that nothing closer matches.
\<close>

definition letThrough :: "checks \<Rightarrow> secState \<Rightarrow> Message \<Rightarrow> RR \<Rightarrow> RR list \<Rightarrow> bool" where
  "letThrough c sec resp rr rrset =
     (\<exists>name sig key now. rr \<in> set rrset \<and> equalName (cUnicode c) (rrName rr) name \<and>
        key \<in> set (keys sec) \<and> VerifyRRSet (cUnicode c) (cCrypto c) rrset sig key now = Inr () \<and>
        (IsWildcardExpansion name sig \<longrightarrow>
           ProveNoCloserMatch (cUnicode c) (cCrypto c)
             (verifiedNSECs c (Authorities resp) (keys sec)) name = Inr ()))"

lemma letThroughI:
  assumes "verifyRRSet (cUnicode c) (cCrypto c) (cNow c)
      (recordsOfType (cUnicode c) records (rrType r) (rrName r)) (Answers resp) (keys sec) = Inr sig"
    and "IsWildcardExpansion (rrName r) sig \<longrightarrow>
      checkDenial c sec (Authorities resp)
        (\<lambda>nsecs. ProveNoCloserMatch (cUnicode c) (cCrypto c) nsecs (rrName r)) = Inr True"
    and "rr \<in> set (recordsOfType (cUnicode c) records (rrType r) (rrName r))"
  shows "letThrough c sec resp rr (recordsOfType (cUnicode c) records (rrType r) (rrName r))"
proof -
  obtain key where "key \<in> set (keys sec)" and
    "VerifyRRSet (cUnicode c) (cCrypto c)
       (recordsOfType (cUnicode c) records (rrType r) (rrName r)) sig key (cNow c) = Inr ()"
    using verifyRRSet_Inr(1) [OF assms(1)] by blast
  moreover have "equalName (cUnicode c) (rrName rr) (rrName r)"
    using assms(3) by (simp add: recordsOfType_def)
  ultimately show ?thesis
    using assms(2,3) unfolding letThrough_def checkDenial_True by blast
qed

lemma answerLoop_Cons:
  "answerLoop c sec resp records seen (r # rrs) = Inr True \<Longrightarrow>
   (normalizeName (cUnicode c) (rrName r), rrType r) \<notin> set seen \<Longrightarrow>
     \<exists>sig. verifyRRSet (cUnicode c) (cCrypto c) (cNow c)
         (recordsOfType (cUnicode c) records (rrType r) (rrName r)) (Answers resp) (keys sec) = Inr sig \<and>
       (IsWildcardExpansion (rrName r) sig \<longrightarrow>
          checkDenial c sec (Authorities resp)
            (\<lambda>nsecs. ProveNoCloserMatch (cUnicode c) (cCrypto c) nsecs (rrName r)) = Inr True) \<and>
       answerLoop c sec resp records
         ((normalizeName (cUnicode c) (rrName r), rrType r) # seen) rrs = Inr True"
  by (auto simp: Let_def split: sum.splits if_splits)

lemma answerLoop_covers:
  assumes ok: "\<forall>rr\<in>set records. rrClass rr = ClassIN \<and> isASCII (rrName rr)"
  shows "answerLoop c sec resp records seen rrs = Inr True \<Longrightarrow> set rrs \<subseteq> set records \<Longrightarrow>
    \<forall>x\<in>set records. (normalizeName (cUnicode c) (rrName x), rrType x) \<in> set seen \<longrightarrow>
      (\<exists>rrset. letThrough c sec resp x rrset) \<Longrightarrow>
    rr \<in> set rrs \<Longrightarrow> \<exists>rrset. letThrough c sec resp rr rrset"
proof (induction rrs arbitrary: seen)
  case (Cons r rrs)
  let ?u = "cUnicode c"
  let ?k = "(normalizeName ?u (rrName r), rrType r)"
  have r: "r \<in> set records" and sub: "set rrs \<subseteq> set records" using Cons.prems(2) by simp_all
  show ?case
  proof (cases "?k \<in> set seen")
    case True
    then have "answerLoop c sec resp records seen rrs = Inr True" using Cons.prems(1) by simp
    from Cons.IH [OF this sub Cons.prems(3)] show ?thesis
      using Cons.prems(3,4) True r by auto
  next
    case False
    from answerLoop_Cons [OF Cons.prems(1) False] obtain sig
      where sig: "verifyRRSet ?u (cCrypto c) (cNow c) (recordsOfType ?u records (rrType r) (rrName r))
          (Answers resp) (keys sec) = Inr sig"
        and wild: "IsWildcardExpansion (rrName r) sig \<longrightarrow> checkDenial c sec (Authorities resp)
            (\<lambda>nsecs. ProveNoCloserMatch ?u (cCrypto c) nsecs (rrName r)) = Inr True"
        and go: "answerLoop c sec resp records (?k # seen) rrs = Inr True" by blast
    have seen: "\<forall>x\<in>set records. (normalizeName ?u (rrName x), rrType x) \<in> set (?k # seen) \<longrightarrow>
        (\<exists>rrset. letThrough c sec resp x rrset)"
    proof (intro ballI impI)
      fix x assume x: "x \<in> set records" and "(normalizeName ?u (rrName x), rrType x) \<in> set (?k # seen)"
      then consider "normalizeName ?u (rrName x) = normalizeName ?u (rrName r)" "rrType x = rrType r"
        | "(normalizeName ?u (rrName x), rrType x) \<in> set seen" by auto
      then show "\<exists>rrset. letThrough c sec resp x rrset"
      proof cases
        case 1
        then have "x \<in> set (recordsOfType ?u records (rrType r) (rrName r))"
          using x r ok normalize_equal by (auto simp: recordsOfType_def)
        then show ?thesis using letThroughI [OF sig wild] by blast
      next
        case 2
        then show ?thesis using Cons.prems(3) x by blast
      qed
    qed
    show ?thesis using Cons.IH [OF go sub seen] Cons.prems(4) seen r by auto
  qed
qed simp

lemma validateAnswer_covers:
  assumes "validateAnswer c sec resp records = Inr True"
    and "\<forall>rr\<in>set records. rrClass rr = ClassIN \<and> isASCII (rrName rr)" and "rr \<in> set records"
  shows "\<exists>rrset. letThrough c sec resp rr rrset"
  using assms(1) answerLoop_covers [OF assms(2), of c sec resp "[]" records] assms(3)
  by (auto simp: validateAnswer_def split: if_splits)

section \<open>Key sets\<close>

lemma vouchLoop_True:
  "vouchLoop c zone keySet answers pairs un = (True, un') \<Longrightarrow>
     \<exists>key anchor. (key, anchor) \<in> set pairs \<and> VerifyDS (cCrypto c) zone key anchor = Inr () \<and>
       signedBy (cUnicode c) (cCrypto c) keySet [key]"
proof (induction c zone keySet answers pairs un rule: vouchLoop.induct)
  case (2 c zone keySet answers key anchor pairs un)
  show ?case
  proof (cases "VerifyDS (cCrypto c) zone key anchor")
    case (Inl e)
    then show ?thesis using 2 by fastforce
  next
    case ds: (Inr x)
    show ?thesis
    proof (cases "verifyRRSet (cUnicode c) (cCrypto c) (cNow c) keySet answers [key]")
      case (Inl e)
      then show ?thesis using 2 ds by fastforce
    next
      case (Inr sig)
      then show ?thesis using verifyRRSet_signedBy ds by fastforce
    qed
  qed
qed simp

lemma acceptKeys_vouched:
  assumes "acceptKeys c zone anchors resp = Inr ks" "ks \<noteq> []"
  shows "keySetVouched (cUnicode c) (cCrypto c) zone anchors ks"
proof -
  let ?set = "recordsOfType (cUnicode c) (Answers resp) TypeDNSKEY zone"
  from assms obtain un where ks: "ks = List.map_filter AsDNSKEY ?set"
    and "vouchLoop c zone ?set (Answers resp) (List.product ks anchors) False = (True, un)"
    by (auto simp: acceptKeys_def Let_def split: if_splits prod.splits bool.splits)
  from vouchLoop_True [OF this(2)] obtain key anchor
    where "key \<in> set ks" "anchor \<in> set anchors" "VerifyDS (cCrypto c) zone key anchor = Inr ()"
      "signedBy (cUnicode c) (cCrypto c) ?set [key]" by auto
  then show ?thesis unfolding keySetVouched_def using ks recordsOfType_owned by blast
qed

lemma keysPut_vouched:
  assumes "cacheVouched u cr anchors c" "ks \<noteq> [] \<Longrightarrow> vouched u cr anchors zone ks"
  shows "cacheVouched u cr anchors (keysPut u zone ks ttl now c)"
  using assms by (auto simp: cacheVouched_def keysPut_def Let_def lookup_update' split: option.splits if_splits)

lemma keysGet_vouched:
  "cacheVouched u cr anchors c \<Longrightarrow> keysGet u c zone now = Some ks \<Longrightarrow> \<exists>z. vouched u cr anchors z ks"
  using keysGet_Some by (fastforce simp: cacheVouched_def)

end
