(* ===== verification/Resolve_Invariant.thy ===== *)
theory Resolve_Invariant
  imports Resolve_Loop Chain_Trust Delegation_Facts
begin

text \<open>
  What a resolution keeps.  The locale \<open>upstream\<close> is the interface between the resolver and
  the world: a property of the world that drawing random numbers and exchanges with
  permitted addresses preserve.  Inside it, every operation of the resolver is shown to
  keep the state well-formed, its keys vouched for and the property of the world, and to give
  only results that are sound.  The statements are about \<open>keeps\<close>, a partial-correctness triple.
\<close>

section \<open>Sound results\<close>

definition isAlias :: "unicode \<Rightarrow> gostr \<Rightarrow> u16 \<Rightarrow> RR \<Rightarrow> bool" where
  "isAlias u name qtype rr =
     (equalName u (rrName rr) name \<and> rrClass rr = ClassIN \<and> rrType rr = TypeCNAME \<and> rrType rr \<noteq> qtype)"

definition isAnswer :: "unicode \<Rightarrow> gostr \<Rightarrow> u16 \<Rightarrow> RR \<Rightarrow> bool" where
  "isAnswer u name qtype rr =
     (equalName u (rrName rr) name \<and> rrClass rr = ClassIN \<and> rrType rr = qtype)"

text \<open>A chain of aliases from one name to another.\<close>

fun chainTo :: "unicode \<Rightarrow> u16 \<Rightarrow> gostr \<Rightarrow> RR list \<Rightarrow> gostr \<Rightarrow> bool" where
  "chainTo u qtype name [] target = (name = target)"
| "chainTo u qtype name (rr # rrs) target =
     (isAlias u name qtype rr \<and> chainTo u qtype (rrCNAME rr) rrs target)"

definition provenRecord :: "unicode \<Rightarrow> crypto \<Rightarrow> DS list \<Rightarrow> RR \<Rightarrow> bool" where
  "provenRecord u cr anchors rr =
     (\<exists>zone ks rrset name sig key now nsecs.
        vouched u cr anchors zone ks \<and> rr \<in> set rrset \<and> equalName u (rrName rr) name \<and>
        key \<in> set ks \<and> VerifyRRSet u cr rrset sig key now = Inr () \<and>
        (IsWildcardExpansion name sig \<longrightarrow>
           list_all (covered u cr anchors) nsecs \<and> ProveNoCloserMatch u cr nsecs name = Inr ()))"

definition provenNoData :: "unicode \<Rightarrow> crypto \<Rightarrow> DS list \<Rightarrow> gostr \<Rightarrow> u16 \<Rightarrow> bool" where
  "provenNoData u cr anchors name qtype =
     (\<exists>nsecs. list_all (covered u cr anchors) nsecs \<and> ProveNoData u cr nsecs name qtype = Inr ())"

text \<open>
  A sound resolution: the answers are a chain of aliases from the name asked for, \<open>depth\<close>
  aliases having gone before, and records of the type asked for at its end; and if it is
  called secure, every record is proven, and so is the absence of records if there are none.
\<close>

definition asciiOwners :: "RR list \<Rightarrow> bool" where
  "asciiOwners rrs = list_all (\<lambda>rr. isASCII (rrName rr)) rrs"

definition soundResolution ::
  "unicode \<Rightarrow> crypto \<Rightarrow> DS list \<Rightarrow> nat \<Rightarrow> gostr \<Rightarrow> u16 \<Rightarrow> resolution \<Rightarrow> bool" where
  "soundResolution u cr anchors depth qname qtype res =
     (\<exists>chain rest target. resAnswers res = chain @ rest \<and>
        chainTo u qtype qname chain target \<and> list_all (isAnswer u target qtype) rest \<and>
        (depth < 15 \<longrightarrow> depth + length chain < 15) \<and>
        (resSecure res \<longrightarrow> asciiOwners (chain @ rest) \<longrightarrow>
           list_all (provenRecord u cr anchors) (chain @ rest) \<and>
           (rest = [] \<longrightarrow> provenNoData u cr anchors target qtype)))"

lemma chainTo_snoc:
  "chainTo u qtype name (rrs @ [rr]) target \<longleftrightarrow>
     (\<exists>mid. chainTo u qtype name rrs mid \<and> isAlias u mid qtype rr \<and> rrCNAME rr = target)"
  by (induction rrs arbitrary: name) auto

lemma chainTo_append:
  "chainTo u qtype name (xs @ ys) target \<longleftrightarrow>
     (\<exists>mid. chainTo u qtype name xs mid \<and> chainTo u qtype mid ys target)"
  by (induction xs arbitrary: name) auto

lemma chainTo_ClassIN: "chainTo u qtype name rrs target \<Longrightarrow> rr \<in> set rrs \<Longrightarrow> rrClass rr = ClassIN"
  by (induction rrs arbitrary: name) (auto simp: isAlias_def)

text \<open>What \<open>followChain\<close> finds is such a chain and such records.\<close>

lemma followChain_chain:
  "followChain u rrs qtype c chain name = Inr (name', chain', found) \<Longrightarrow>
     chainTo u qtype start chain name \<Longrightarrow>
     chainTo u qtype start chain' name' \<and> list_all (isAnswer u name' qtype) found"
proof (induction u rrs qtype c chain name rule: followChain.induct)
  case (1 u rrs qtype c chain name)
  let ?here = "filter (\<lambda>rr. equalName u (rrName rr) name \<and> rrClass rr = ClassIN) rrs"
  let ?found = "filter (\<lambda>rr. rrType rr = qtype) ?here"
  let ?cnames = "filter (\<lambda>rr. rrType rr \<noteq> qtype \<and> rrType rr = TypeCNAME) ?here"
  show ?case
  proof (cases "?found \<noteq> [] \<or> ?cnames = []")
    case True
    then show ?thesis using "1.prems"
      by (subst (asm) (1) followChain.simps) (auto simp: Let_def list_all_iff isAnswer_def)
  next
    case False
    then have last: "last ?cnames \<in> set ?cnames" by (intro last_in_set) simp
    from False "1.prems"(1) have c: "\<not> c + length chain + 1 \<ge> maxCNAMEChain"
      and go: "followChain u rrs qtype c (chain @ [last ?cnames]) (rrCNAME (last ?cnames))
         = Inr (name', chain', found)"
      by (simp_all add: followChain.simps [of u rrs qtype c chain name] Let_def split: if_splits)
    have "chainTo u qtype start (chain @ [last ?cnames]) (rrCNAME (last ?cnames))"
      using "1.prems"(2) last by (auto simp: chainTo_snoc isAlias_def)
    then show ?thesis using "1.IH" [OF refl refl refl False c go] by blast
  qed
qed

section \<open>What the checks establish\<close>

text \<open>The checks of a response run with the tables of the environment.\<close>

abbreviation (input) tablesOf :: "unicode \<Rightarrow> crypto \<Rightarrow> checks \<Rightarrow> bool" where
  "tablesOf u cr c \<equiv> cUnicode c = u \<and> cCrypto c = cr"

lemma checksOf_simps [simp]: "cUnicode (checksOf E r s) = unicodeOf E" "cCrypto (checksOf E r s) = cryptoOf E"
  by (simp_all add: checksOf_def)

lemma letThrough_proven:
  assumes "secVouched u cr anchors sec" "tablesOf u cr c" "letThrough c sec resp rr rrset"
  shows "provenRecord u cr anchors rr"
proof -
  from assms(2,3) obtain name sig key now where
    l: "rr \<in> set rrset" "equalName u (rrName rr) name" "key \<in> set (keys sec)"
      "VerifyRRSet u cr rrset sig key now = Inr ()"
    and wild: "IsWildcardExpansion name sig \<longrightarrow>
      ProveNoCloserMatch u cr (verifiedNSECs c (Authorities resp) (keys sec)) name = Inr ()"
    unfolding letThrough_def by blast
  from assms(1) l(3) obtain zone where "vouched u cr anchors zone (keys sec)"
    unfolding secVouched_def by fastforce
  moreover have "list_all (covered u cr anchors) (verifiedNSECs c (Authorities resp) (keys sec))"
    using verifiedNSECs_covered assms(1,2) unfolding list_all_iff by blast
  ultimately show ?thesis using l wild unfolding provenRecord_def by blast
qed

lemma validateAnswer_proven:
  assumes "secVouched u cr anchors sec" "tablesOf u cr c" "validateAnswer c sec resp rrs = Inr True"
    "\<forall>rr\<in>set rrs. rrClass rr = ClassIN" "asciiOwners rrs"
  shows "list_all (provenRecord u cr anchors) rrs"
  unfolding list_all_iff
proof
  fix rr assume rr: "rr \<in> set rrs"
  have "\<forall>rr\<in>set rrs. rrClass rr = ClassIN \<and> isASCII (rrName rr)"
    using assms(4,5) by (auto simp: asciiOwners_def list_all_iff)
  from validateAnswer_covers [OF assms(3) this rr] letThrough_proven [OF assms(1,2)]
  show "provenRecord u cr anchors rr" by blast
qed

lemma checkDenial_noData:
  assumes "secVouched u cr anchors sec" "tablesOf u cr c"
    "checkDenial c sec sct (\<lambda>nsecs. ProveNoData u cr nsecs name qtype) = Inr True"
  shows "provenNoData u cr anchors name qtype"
  using assms verifiedNSECs_covered unfolding checkDenial_True provenNoData_def list_all_iff by blast

text \<open>What a turn has to establish for each of its ends.\<close>

fun goodTurn :: "unicode \<Rightarrow> crypto \<Rightarrow> DS list \<Rightarrow> nat \<Rightarrow> gostr \<Rightarrow> u16 \<Rightarrow> turn \<Rightarrow> bool" where
  "goodTurn u cr anchors depth qname qtype (Final res) = soundResolution u cr anchors depth qname qtype res"
| "goodTurn u cr anchors depth qname qtype (Again w) = secVouched u cr anchors (wSec w)"
| "goodTurn u cr anchors depth qname qtype (Chase name chain sec resp) =
     (secVouched u cr anchors sec \<and> chainTo u qtype qname chain name \<and> depth + length chain < 15)"
| "goodTurn u cr anchors depth qname qtype (Refer f glue w resp) = secVouched u cr anchors (wSec w)"

lemma soundI:
  assumes "chainTo u qtype qname chain target" "list_all (isAnswer u target qtype) rest"
    "depth < 15 \<Longrightarrow> depth + length chain < 15"
    "sec \<Longrightarrow> asciiOwners (chain @ rest) \<Longrightarrow> list_all (provenRecord u cr anchors) (chain @ rest)"
    "sec \<Longrightarrow> rest = [] \<Longrightarrow> asciiOwners chain \<Longrightarrow> provenNoData u cr anchors target qtype"
  shows "soundResolution u cr anchors depth qname qtype
    \<lparr>resAnswers = chain @ rest, resAuthority = auth, resSecure = sec\<rparr>"
  unfolding soundResolution_def using assms by (intro exI [of _ chain] exI [of _ rest] exI [of _ target]) auto

lemma nodataTurn_good:
  assumes "secVouched u cr anchors sec" "tablesOf u cr c" "nodataTurn c sec resp qname qtype = Inr t"
  shows "goodTurn u cr anchors depth qname qtype t"
proof -
  obtain proven where t: "t = Final \<lparr>resAnswers = [] @ [], resAuthority = soaAuthority (Authorities resp),
      resSecure = proven\<rparr>"
    and p: "checkDenial c sec (Authorities resp) (\<lambda>nsecs. ProveNoData u cr nsecs qname qtype) = Inr proven"
    using assms(2,3) by (auto simp: nodataTurn_def split: sum.splits)
  show ?thesis
    unfolding t goodTurn.simps
    by (rule soundI) (use checkDenial_noData [OF assms(1,2)] p in auto)
qed

lemma referralTurn_good:
  assumes "secVouched u cr anchors (wSec w)" "tablesOf u cr c"
    "referralTurn c r w minimizing resp qname qtype = Inr t"
  shows "goodTurn u cr anchors depth qname qtype t"
  using assms nodataTurn_good [OF assms(1,2)]
  by (auto simp: referralTurn_def Let_def split: if_splits)

lemma answerTurn_good:
  assumes "secVouched u cr anchors (wSec w)" "tablesOf u cr c"
    "answerTurn c r depth w resp qname qtype = Inr t"
  shows "goodTurn u cr anchors depth qname qtype t"
proof -
  obtain name chain answers
    where f: "followChain u (Answers resp) qtype depth [] qname = Inr (name, chain, answers)"
    using assms(2,3) by (auto simp: answerTurn_def split: sum.splits)
  have ch: "chainTo u qtype qname chain name" and an: "list_all (isAnswer u name qtype) answers"
    using followChain_chain [OF f] by simp_all
  have depth: "chain = [] \<and> name = qname \<or> depth + length chain < 15"
    using followChain_depth [OF f] by auto
  consider "answers \<noteq> []" | "answers = []" "name \<noteq> qname" | "answers = []" "name = qname" by blast
  then show ?thesis
  proof cases
    case 1
    obtain sec where t: "t = Final \<lparr>resAnswers = chain @ answers, resAuthority = [], resSecure = sec\<rparr>"
      and v: "validateAnswer c (wSec w) resp (chain @ answers) = Inr sec"
      using assms(2,3) f 1 by (auto simp: answerTurn_def split: sum.splits)
    have "\<forall>rr\<in>set (chain @ answers). rrClass rr = ClassIN"
      using chainTo_ClassIN [OF ch] an by (auto simp: list_all_iff isAnswer_def)
    note proven = validateAnswer_proven [OF assms(1,2) _ this]
    show ?thesis unfolding t goodTurn.simps
      by (rule soundI [OF ch an]) (use depth v proven 1 in auto)
  next
    case 2
    then have "t = Chase name chain (wSec w) resp"
      using assms(2,3) f by (auto simp: answerTurn_def)
    then show ?thesis using assms(1) ch depth 2 by auto
  next
    case 3
    then show ?thesis using assms f referralTurn_good [OF assms(1,2)] by (auto simp: answerTurn_def)
  qed
qed

lemma fullTurn_good:
  "secVouched u cr anchors (wSec w) \<Longrightarrow> tablesOf u cr c \<Longrightarrow> fullTurn c r depth w resp qname qtype = Inr t \<Longrightarrow>
     goodTurn u cr anchors depth qname qtype t"
  using answerTurn_good by (auto simp: fullTurn_def split: if_splits sum.splits)

lemma joinChain_sound:
  assumes "secVouched u cr anchors sec" "tablesOf u cr c"
    "chainTo u qtype qname chain name" "depth + length chain < 15"
    "soundResolution u cr anchors (depth + length chain) name qtype res"
    "joinChain c sec resp chain res = Inr res'"
  shows "soundResolution u cr anchors depth qname qtype res'"
proof -
  from assms(5) obtain chain2 rest target where
    res: "resAnswers res = chain2 @ rest" "chainTo u qtype name chain2 target"
      "list_all (isAnswer u target qtype) rest" "depth + length chain + length chain2 < 15"
    and proven: "resSecure res \<longrightarrow> asciiOwners (chain2 @ rest) \<longrightarrow>
      list_all (provenRecord u cr anchors) (chain2 @ rest) \<and>
      (rest = [] \<longrightarrow> provenNoData u cr anchors target qtype)"
    unfolding soundResolution_def using assms(4) by auto
  from assms(6) obtain b where b: "validateAnswer c sec resp chain = Inr b"
    and res': "res' = \<lparr>resAnswers = (chain @ chain2) @ rest, resAuthority = resAuthority res,
      resSecure = resSecure res \<and> b\<rparr>"
    using res(1) by (cases res) (auto simp: joinChain_def split: sum.splits)
  have split: "asciiOwners (chain @ chain2 @ rest) \<longleftrightarrow> asciiOwners chain \<and> asciiOwners (chain2 @ rest)"
    by (simp add: asciiOwners_def)
  have v: "b \<Longrightarrow> asciiOwners chain \<Longrightarrow> list_all (provenRecord u cr anchors) chain"
    using validateAnswer_proven [OF assms(1,2), of resp chain] b chainTo_ClassIN [OF assms(3)] by auto
  show ?thesis unfolding res'
    by (rule soundI) (use assms(3) res proven v split in \<open>auto simp: chainTo_append\<close>)
qed

section \<open>Triples\<close>

text \<open>
  \<open>keeps I m Q\<close>: from a state with \<open>I\<close>, \<open>m\<close> ends in a state with \<open>I\<close>, its error is not that it
  hangs, and a result it gives satisfies \<open>Q\<close>.
\<close>

definition keeps :: "('n rstate \<Rightarrow> bool) \<Rightarrow> ('n, 'a) act \<Rightarrow> ('a \<Rightarrow> bool) \<Rightarrow> bool" where
  "keeps I m Q =
     (\<forall>s x s'. I s \<longrightarrow> m s = (x, s') \<longrightarrow> I s' \<and> x \<noteq> Inl Hangs \<and> (\<forall>y. x = Inr y \<longrightarrow> Q y))"

lemma keepsI:
  "(\<And>s x s'. I s \<Longrightarrow> m s = (x, s') \<Longrightarrow> I s' \<and> x \<noteq> Inl Hangs \<and> (\<forall>y. x = Inr y \<longrightarrow> Q y)) \<Longrightarrow> keeps I m Q"
  by (simp add: keeps_def)

lemma keepsD:
  "keeps I m Q \<Longrightarrow> I s \<Longrightarrow> m s = (x, s') \<Longrightarrow> I s' \<and> x \<noteq> Inl Hangs \<and> (\<forall>y. x = Inr y \<longrightarrow> Q y)"
  by (simp add: keeps_def)

lemma keeps_andThen:
  assumes "keeps I m Q" "\<And>y. Q y \<Longrightarrow> keeps I (f y) R"
  shows "keeps I (andThen m f) R"
proof (rule keepsI)
  fix s x s' assume i: "I s" and run: "andThen m f s = (x, s')"
  obtain y s1 where m: "m s = (y, s1)" by (cases "m s")
  note k = keepsD [OF assms(1) i m]
  show "I s' \<and> x \<noteq> Inl Hangs \<and> (\<forall>y. x = Inr y \<longrightarrow> R y)"
  proof (cases y)
    case (Inl e)
    then show ?thesis using run m k by (auto simp: andThen_def)
  next
    case (Inr z)
    then have "f z s1 = (x, s')" "I s1" "Q z" using run m k by (auto simp: andThen_def)
    then show ?thesis using keepsD [OF assms(2)] by blast
  qed
qed

lemma keeps_return: "Q y \<Longrightarrow> keeps I (\<lambda>s. (Inr y, s)) Q"
  by (simp add: keeps_def)

lemma keeps_fail: "e \<noteq> Hangs \<Longrightarrow> keeps I (\<lambda>s. (Inl e, s)) Q"
  by (simp add: keeps_def)

lemma keeps_weaken: "keeps I m Q \<Longrightarrow> (\<And>y. Q y \<Longrightarrow> R y) \<Longrightarrow> keeps I m R"
  by (simp add: keeps_def)

lemma keeps_pure:
  "(\<And>s. I s \<Longrightarrow> g s \<noteq> Inl Hangs \<and> (\<forall>y. g s = Inr y \<longrightarrow> Q y)) \<Longrightarrow> keeps I (\<lambda>s. (g s, s)) Q"
  by (simp add: keeps_def)

text \<open>An operation that looks at the state first and then runs another.\<close>

lemma keeps_look: "(\<And>s0. I s0 \<Longrightarrow> keeps I (m s0) Q) \<Longrightarrow> keeps I (\<lambda>s. m s s) Q"
  unfolding keeps_def by blast

section \<open>The interface to the world\<close>

definition stateOk :: "'n env \<Rightarrow> resolver \<Rightarrow> ('n \<Rightarrow> bool) \<Rightarrow> 'n rstate \<Rightarrow> bool" where
  "stateOk E r P s =
     (P (sNet s) \<and> cacheVouched (unicodeOf E) (cryptoOf E) (trustAnchors r) (sKeys s) \<and>
      pred_option cacheInv (sDelegations s))"

lemma stateOk_update [simp]:
  "stateOk E r P (s\<lparr>sRtt := t\<rparr>) = stateOk E r P s"
  "stateOk E r P (s\<lparr>sPrimed := ips\<rparr>) = stateOk E r P s"
  "stateOk E r P (s\<lparr>sPrimedUntil := until\<rparr>) = stateOk E r P s"
  by (simp_all add: stateOk_def)

locale upstream =
  fixes E :: "'n env" and r :: resolver and P :: "'n \<Rightarrow> bool"
  assumes rand_P: "P n \<Longrightarrow> P (snd (randRead E k n))"
    and shuffle_P: "P n \<Longrightarrow> P (snd (shuffleIPs E ips n))"
    and range_P: "P n \<Longrightarrow> P (snd (rangeNames E nss n))"
    and first_P: "P n \<Longrightarrow> P (snd (firstKey E t n))"
    and udp_P: "allowsUpstream r ip \<Longrightarrow> P n \<Longrightarrow> P (snd (udpExchange E ip b n))"
    and tcp_P: "allowsUpstream r ip \<Longrightarrow> P n \<Longrightarrow> P (snd (tcpExchange E ip b n))"
begin

abbreviation ok :: "'n rstate \<Rightarrow> bool" where "ok \<equiv> stateOk E r P"

lemma withNet_ok:
  assumes "\<And>n. P n \<Longrightarrow> P (snd (f n))" "ok s" "withNet f s = (x, s')"
  shows "ok s'"
  using assms(2,3) assms(1) [of "sNet s"] by (auto simp: withNet_def stateOk_def split: prod.splits)

lemma observe_ok: "ok s \<Longrightarrow> ok (observe E addr took s)"
  using withNet_ok [OF first_P] by (auto simp: observe_def split: option.split prod.split)

lemma keeps_failOnErr: "keeps ok (failOnErr x) (\<lambda>_. True)"
  by (auto simp: keeps_def failOnErr_def split: sum.splits)

lemma keeps_randomQueryID: "keeps ok (randomQueryID E) (\<lambda>_. True)"
  using withNet_ok [OF rand_P]
  by (fastforce simp: keeps_def randomQueryID_def split: prod.splits option.splits)

lemma randomizeCase_P: "P n \<Longrightarrow> P (snd (randomizeCase E qname n))"
  using rand_P [of n "(length (filter isASCIILetter qname) + 7) div 8"]
  by (auto simp: randomizeCase_def Let_def split: prod.splits option.splits)

lemma keeps_queryUDP:
  assumes "allowsUpstream r addr"
  shows "keeps ok (queryUDP E addr packet qid qname qtype strict) (\<lambda>_. True)"
proof (rule keepsI)
  fix s x s' assume s: "ok s" and run: "queryUDP E addr packet qid qname qtype strict s = (x, s')"
  obtain y s1 where w: "withNet (udpExchange E addr packet) s = (y, s1)" by (meson surj_pair)
  have "ok s1" by (rule withNet_ok [OF udp_P [OF assms] s w])
  then show "ok s' \<and> x \<noteq> Inl Hangs \<and> (\<forall>y. x = Inr y \<longrightarrow> True)"
    using run w by (auto simp: queryUDP_def failOnErr_def split: option.splits sum.splits)
qed

lemma keeps_queryTCP:
  assumes "allowsUpstream r addr"
  shows "keeps ok (queryTCP E addr packet qid qname qtype strict) (\<lambda>_. True)"
proof (rule keepsI)
  fix s x s' assume s: "ok s" and run: "queryTCP E addr packet qid qname qtype strict s = (x, s')"
  obtain y s1 where
    w: "withNet (tcpExchange E addr (put16 (word_of_nat (length packet)) @ packet)) s = (y, s1)"
    by (meson surj_pair)
  have "ok s1" by (rule withNet_ok [OF tcp_P [OF assms] s w])
  then show "ok s' \<and> x \<noteq> Inl Hangs \<and> (\<forall>y. x = Inr y \<longrightarrow> True)"
    using run w
    by (auto simp: queryTCP_def failOnErr_def Let_def split: option.splits sum.splits if_splits)
qed

lemma keeps_queryOnce:
  assumes "allowsUpstream r addr"
  shows "keeps ok (queryOnce E r addr qname qtype edns) (\<lambda>_. True)"
  unfolding queryOnce_def
proof (rule keeps_andThen [OF keeps_randomQueryID])
  fix qid
  have rest: "keeps ok (andThen (failOnErr (queryPacket E r qid wireName qtype edns)) (\<lambda>packet.
      andThen (queryUDP E addr packet qid wireName qtype (rUse0x20 r)) (\<lambda>msg.
        if TC (header msg) then queryTCP E addr packet qid wireName qtype (rUse0x20 r)
        else (\<lambda>s. (Inr msg, s))))) (\<lambda>_. True)" for wireName
    by (intro keeps_andThen [OF keeps_failOnErr] keeps_andThen [OF keeps_queryUDP [OF assms]])
       (simp add: keeps_queryTCP [OF assms] keeps_return)
  show "keeps ok (\<lambda>s. case (if rUse0x20 r then withNet (randomizeCase E qname) s else (qname, s)) of
       (wireName, s) \<Rightarrow>
         andThen (failOnErr (queryPacket E r qid wireName qtype edns)) (\<lambda>packet.
           andThen (queryUDP E addr packet qid wireName qtype (rUse0x20 r)) (\<lambda>msg.
             if TC (header msg) then queryTCP E addr packet qid wireName qtype (rUse0x20 r)
             else (\<lambda>s. (Inr msg, s)))) s) (\<lambda>_. True)"
  proof (rule keepsI)
    fix s x s'
    let ?rest = "\<lambda>wireName. andThen (failOnErr (queryPacket E r qid wireName qtype edns)) (\<lambda>packet.
      andThen (queryUDP E addr packet qid wireName qtype (rUse0x20 r)) (\<lambda>msg.
        if TC (header msg) then queryTCP E addr packet qid wireName qtype (rUse0x20 r)
        else (\<lambda>s. (Inr msg, s))))"
    assume s: "ok s" and run: "(case (if rUse0x20 r then withNet (randomizeCase E qname) s else (qname, s)) of
      (wireName, s) \<Rightarrow> ?rest wireName s) = (x, s')"
    obtain wireName s1
      where w: "(if rUse0x20 r then withNet (randomizeCase E qname) s else (qname, s)) = (wireName, s1)"
      by (meson surj_pair)
    have "ok s1"
    proof (cases "rUse0x20 r")
      case True
      then have "withNet (randomizeCase E qname) s = (wireName, s1)" using w by simp
      from withNet_ok [OF randomizeCase_P s this] show ?thesis by simp
    next
      case False
      then show ?thesis using w s by simp
    qed
    moreover have "?rest wireName s1 = (x, s')" using run unfolding w by simp
    ultimately show "ok s' \<and> x \<noteq> Inl Hangs \<and> (\<forall>y. x = Inr y \<longrightarrow> True)"
      using keepsD [OF rest] by blast
  qed
qed

lemma keeps_query:
  "allowsUpstream r addr \<Longrightarrow> keeps ok (query E r addr qname qtype) (\<lambda>_. True)"
  unfolding query_def by (intro keeps_andThen [OF keeps_queryOnce]) (auto simp: keeps_queryOnce keeps_return)

lemma keeps_queryLoop: "keeps ok (queryLoop E r qname qtype queue) (\<lambda>_. True)"
proof (rule keepsI)
  fix s x s' assume "ok s" "queryLoop E r qname qtype queue s = (x, s')"
  then show "ok s' \<and> x \<noteq> Inl Hangs \<and> (\<forall>y. x = Inr y \<longrightarrow> True)"
  proof (induction queue arbitrary: s)
    case (Cons addr queue)
    show ?case
    proof (cases "\<not> ctxErr E (sNet s) \<and> allowsUpstream r addr")
      case True
      obtain y s1 where q: "query E r addr qname qtype s = (y, s1)" by (meson surj_pair)
      then have "ok s1" using keepsD [OF keeps_query] True Cons.prems(1) by blast
      show ?thesis
      proof (cases y)
        case (Inl e)
        then have "queryLoop E r qname qtype queue (observe E addr timeoutPenalty s1) = (x, s')"
          using Cons.prems(2) q True by simp
        from Cons.IH [OF observe_ok [OF \<open>ok s1\<close>] this] show ?thesis .
      next
        case (Inr msg)
        then show ?thesis using Cons.prems(2) q True observe_ok [OF \<open>ok s1\<close>] by auto
      qed
    next
      case False
      then show ?thesis using Cons by (auto split: if_splits)
    qed
  qed auto
qed

lemma rttOrder_P: "P n \<Longrightarrow> P (snd (rttOrder E t servers n))"
  using shuffle_P [of n servers] by (auto simp: rttOrder_def split: prod.splits option.splits)

lemma keeps_queryServers: "keeps ok (queryServers E r servers qname qtype) (\<lambda>_. True)"
proof (rule keepsI)
  fix s x s' assume s: "ok s" and run: "queryServers E r servers qname qtype s = (x, s')"
  obtain ordered s1 where w: "withNet (rttOrder E (sRtt s) servers) s = (ordered, s1)" by (meson surj_pair)
  have "ok s1" by (rule withNet_ok [OF rttOrder_P s w])
  then show "ok s' \<and> x \<noteq> Inl Hangs \<and> (\<forall>y. x = Inr y \<longrightarrow> True)"
    using run w keepsD [OF keeps_queryLoop] by (auto simp: queryServers_def)
qed

end

end
