(* ===== verification/Resolve_Sound.thy ===== *)
theory Resolve_Sound
  imports Resolve_Invariant
begin

text \<open>
  The properties of a whole resolution.  Inside the locale \<open>upstream\<close>, each operation from
  \<open>zoneKeys\<close> to \<open>resolve\<close> keeps the state as it should be and gives results that are sound.  The
  locale is then interpreted twice: on every world, which gives the soundness of the results
  and that no resolution hangs, and on a world with a log of the servers asked, which gives
  that no packet goes to an address that is not permitted.
\<close>

section \<open>The operations of the chain of trust\<close>

context upstream
begin

abbreviation okKeys :: "DNSKEY list \<Rightarrow> bool" where
  "okKeys ks \<equiv> ks \<noteq> [] \<longrightarrow> (\<exists>z. vouched (unicodeOf E) (cryptoOf E) (trustAnchors r) z ks)"

abbreviation okSec :: "secState \<Rightarrow> bool" where
  "okSec \<equiv> secVouched (unicodeOf E) (cryptoOf E) (trustAnchors r)"

lemma okSec_insecure [simp]: "okSec insecure"
  by (simp add: secVouched_def insecure_def)

lemma okSec_keys [simp]: "okSec \<lparr>secure = b, keys = ks\<rparr> \<longleftrightarrow> okKeys ks"
  by (auto simp: secVouched_def)

lemma keeps_zoneKeys:
  assumes "\<And>ks. keySetVouched (unicodeOf E) (cryptoOf E) zone anchors ks \<Longrightarrow>
    vouched (unicodeOf E) (cryptoOf E) (trustAnchors r) zone ks"
  shows "keeps ok (zoneKeys E r zone servers anchors) okKeys"
proof (rule keepsI)
  fix s x s' assume s: "ok s" and run: "zoneKeys E r zone servers anchors s = (x, s')"
  show "ok s' \<and> x \<noteq> Inl Hangs \<and> (\<forall>y. x = Inr y \<longrightarrow> okKeys y)"
  proof (cases "keysGet (unicodeOf E) (sKeys s) zone (nowOf E s)")
    case (Some ks)
    then show ?thesis using run s keysGet_vouched by (auto simp: zoneKeys_def stateOk_def)
  next
    case None
    obtain y s1 where q: "queryServers E r servers zone TypeDNSKEY s = (y, s1)" by (meson surj_pair)
    note k = keepsD [OF keeps_queryServers s q]
    show ?thesis
    proof (cases y)
      case (Inl e)
      then show ?thesis using run q None k by (auto simp: zoneKeys_def andThen_def)
    next
      case (Inr z)
      obtain resp srv where z: "z = (resp, srv)" by (cases z)
      show ?thesis
      proof (cases "acceptKeys (checksOf E r s1) zone anchors resp")
        case err: (Inl e)
        then have "e \<noteq> Hangs" by (auto simp: acceptKeys_def Let_def split: if_splits prod.splits bool.splits)
        then show ?thesis using run q None k Inr z err by (auto simp: zoneKeys_def andThen_def)
      next
        case acc: (Inr ks)
        have ks: "ks \<noteq> [] \<Longrightarrow> vouched (unicodeOf E) (cryptoOf E) (trustAnchors r) zone ks"
          using acceptKeys_vouched [OF acc] assms by simp
        then have "cacheVouched (unicodeOf E) (cryptoOf E) (trustAnchors r)
            (keysPut (unicodeOf E) zone ks t now (sKeys s1))" for t now
          using k keysPut_vouched by (auto simp: stateOk_def)
        then show ?thesis using run q None k Inr z acc ks
          by (auto simp: zoneKeys_def andThen_def stateOk_def)
      qed
    qed
  qed
qed

lemma checkDenial_error:
  "checkDenial c sec sct prove = Inl e \<Longrightarrow> secure sec"
  by (auto simp: checkDenial_def split: if_splits)

lemma keeps_enterZone:
  assumes "okSec parent"
  shows "keeps ok (enterZone E r parent sct zone servers) okSec"
proof (rule keepsI)
  fix s x s' assume s: "ok s" and run: "enterZone E r parent sct zone servers s = (x, s')"
  let ?u = "unicodeOf E" and ?cr = "cryptoOf E"
  let ?ds = "recordsOfType ?u sct TypeDS zone"
  show "ok s' \<and> x \<noteq> Inl Hangs \<and> (\<forall>y. x = Inr y \<longrightarrow> okSec y)"
  proof (cases "?ds = []")
    case True
    then show ?thesis using run s by (auto simp: enterZone_def Let_def split: sum.splits)
  next
    case False
    show ?thesis
    proof (cases "verifyRRSet ?u ?cr (cNow (checksOf E r s)) ?ds sct (keys parent)")
      case (Inl e)
      then show ?thesis using run s False by (auto simp: enterZone_def Let_def)
    next
      case (Inr sig)
      then have signed: "signedBy ?u ?cr ?ds (keys parent)" by (rule verifyRRSet_signedBy)
      then obtain z where "vouched ?u ?cr (trustAnchors r) z (keys parent)"
        using assms unfolding secVouched_def signedBy_def by fastforce
      then have "keySetVouched ?u ?cr zone (List.map_filter AsDS ?ds) ks \<Longrightarrow>
          vouched ?u ?cr (trustAnchors r) zone ks" for ks
        using vouched.cut recordsOfType_owned signed by blast
      then have k: "keeps ok (andThen (zoneKeys E r zone servers (List.map_filter AsDS ?ds)) (\<lambda>ks s.
          (Inr (if ks = [] then insecure else \<lparr>secure = True, keys = ks\<rparr>), s))) okSec"
        by (intro keeps_andThen [OF keeps_zoneKeys] keeps_return) auto
      show ?thesis using run False Inr keepsD [OF k s] by (simp add: enterZone_def Let_def)
    qed
  qed
qed

lemma keeps_crossDelegation: "okSec parent \<Longrightarrow> keeps ok (crossDelegation E r parent resp zone servers) okSec"
  by (simp add: crossDelegation_def keeps_enterZone keeps_return)

lemma keeps_fetchDelegation: "okSec parent \<Longrightarrow> keeps ok (fetchDelegation E r parent zone servers) okSec"
  unfolding fetchDelegation_def
  by (intro keeps_andThen [OF keeps_queryServers]) (auto simp: keeps_enterZone split: prod.split)

lemma keeps_descendLoop: "okSec sec \<Longrightarrow> keeps ok (descendLoop fuel E r sec zone target servers) okSec"
proof (induction fuel arbitrary: sec zone)
  case (Suc fuel)
  have "keeps ok (andThen (fetchDelegation E r sec (minimizedQName target zone) servers) (\<lambda>next s.
      if \<not> secure next then (Inr insecure, s)
      else descendLoop fuel E r next (minimizedQName target zone) target servers s)) okSec"
  proof (rule keeps_andThen [OF keeps_fetchDelegation [OF Suc.prems]])
    fix sec' assume "okSec sec'"
    then show "keeps ok (\<lambda>s. if \<not> secure sec' then (Inr insecure, s)
        else descendLoop fuel E r sec' (minimizedQName target zone) target servers s) okSec"
      using Suc.IH keeps_return [of okSec insecure ok] by (cases "secure sec'") simp_all
  qed
  note go = this
  show ?case
  proof (cases "equalName (unicodeOf E) zone target")
    case True
    then have "descendLoop (Suc fuel) E r sec zone target servers = (\<lambda>s. (Inr sec, s))"
      by (intro ext) simp
    then show ?thesis using keeps_return [of okSec, OF Suc.prems] by simp
  next
    case False
    then have "descendLoop (Suc fuel) E r sec zone target servers =
        andThen (fetchDelegation E r sec (minimizedQName target zone) servers) (\<lambda>next s.
          if \<not> secure next then (Inr insecure, s)
          else descendLoop fuel E r next (minimizedQName target zone) target servers s)"
      by (intro ext) (simp add: Let_def)
    then show ?thesis using go by simp
  qed
qed (simp add: keeps_def)

lemma keeps_descendTo: "okSec sec \<Longrightarrow> keeps ok (descendTo E r sec zone target servers) okSec"
  unfolding descendTo_def by (rule keeps_descendLoop)

section \<open>Beginning a walk\<close>

lemma keeps_rootState: "keeps ok (rootState E r servers) okSec"
  unfolding rootState_def
  by (intro keeps_andThen [OF keeps_zoneKeys] keeps_return)
     (auto intro: vouched.root simp: normalizeName_def trimDot_def ToLower_def)

lemma keeps_startingSecurity: "keeps ok (startingSecurity E r disabled zone servers) okSec"
proof (rule keepsI)
  fix s x s' assume s: "ok s" and run: "startingSecurity E r disabled zone servers s = (x, s')"
  consider "\<not> rValidate r \<or> disabled"
    | "rValidate r" "\<not> disabled" "normalizeName (unicodeOf E) zone = []"
    | "rValidate r" "\<not> disabled" "normalizeName (unicodeOf E) zone \<noteq> []" by blast
  then show "ok s' \<and> x \<noteq> Inl Hangs \<and> (\<forall>y. x = Inr y \<longrightarrow> okSec y)"
  proof cases
    case 1
    then show ?thesis using run s by (auto simp: startingSecurity_def)
  next
    case 2
    then show ?thesis using run keepsD [OF keeps_rootState s] by (simp add: startingSecurity_def)
  next
    case 3
    then show ?thesis using run s keysGet_vouched
      by (cases "keysGet (unicodeOf E) (sKeys s) zone (nowOf E s)")
         (auto simp: startingSecurity_def stateOk_def)
  qed
qed

lemma keeps_fromRoot: "keeps ok (fromRoot E r disabled off) (\<lambda>w. okSec (wSec w))"
proof -
  have "keeps ok (andThen (startingSecurity E r disabled [dot] servers) (\<lambda>sec s.
      (Inr \<lparr>wZone = [dot], wServers = servers, wSec = sec, wFromCache = False,
            wMinimizeOff = off\<rparr>, s))) (\<lambda>w. okSec (wSec w))" for servers
    by (intro keeps_andThen [OF keeps_startingSecurity] keeps_return) simp
  note k = keepsD [OF this]
  show ?thesis by (rule keepsI) (unfold fromRoot_def Let_def, rule k)
qed

lemma takePrimed_ok: "ok s \<Longrightarrow> ok (takePrimed E r resp s)"
  by (auto simp: takePrimed_def Let_def split: prod.split)

lemma primeRootServers_ok: "ok s \<Longrightarrow> ok (primeRootServers E r s)"
proof -
  assume s: "ok s"
  define s0 where "s0 = s\<lparr>sPrimedUntil := nowOf E s + seconds primeInterval\<rparr>"
  obtain x s1 where q: "queryServers E r (if sPrimed s = [] then RootServers else sPrimed s) [dot] TypeNS s0
      = (x, s1)" by (meson surj_pair)
  have "ok s0" using s by (simp add: s0_def)
  then have "ok s1" using keepsD [OF keeps_queryServers _ q] by blast
  then show ?thesis
    using s q unfolding primeRootServers_def s0_def [symmetric]
    by (simp add: takePrimed_ok split: sum.split prod.split)
qed

lemma startingPoint_ok: "ok s \<Longrightarrow> startingPoint E r qname s = (p, s') \<Longrightarrow> ok s'"
proof (cases "sDelegations s")
  case (Some c)
  assume "ok s" "startingPoint E r qname s = (p, s')"
  then show ?thesis
    using closestLoop_state [of c "normalizeZone (unicodeOf E) qname" "nowOf E s"] Some
    by (auto simp: startingPoint_def closestEnclosing_def Let_def stateOk_def split: prod.splits if_splits)
qed (auto simp: startingPoint_def closestEnclosing_def Let_def stateOk_def split: prod.splits if_splits)

lemma keeps_beginWalk: "keeps ok (beginWalk E r disabled qname) (\<lambda>w. okSec (wSec w))"
proof (rule keepsI)
  fix s x s' assume s: "ok s" and run: "beginWalk E r disabled qname s = (x, s')"
  define s0 where "s0 = (if rRoots r = None then primeRootServers E r s else s)"
  have "ok s0" using s primeRootServers_ok by (simp add: s0_def)
  obtain zone servers wasSecure fromCache s1
    where p: "startingPoint E r qname s0 = ((zone, servers, wasSecure, fromCache), s1)"
    by (metis prod.exhaust)
  have "ok s1" using startingPoint_ok [OF \<open>ok s0\<close> p] .
  define m where "m = andThen (startingSecurity E r disabled zone servers) (\<lambda>sec s.
    if wasSecure \<and> \<not> secure sec \<and> rValidate r \<and> \<not> disabled then fromRoot E r disabled False s
    else (Inr \<lparr>wZone = zone, wServers = servers, wSec = sec, wFromCache = fromCache,
               wMinimizeOff = False\<rparr>, s))"
  have "keeps ok m (\<lambda>w. okSec (wSec w))"
    unfolding m_def
  proof (rule keeps_andThen [OF keeps_startingSecurity])
    fix sec assume "okSec sec"
    then show "keeps ok (\<lambda>s. if wasSecure \<and> \<not> secure sec \<and> rValidate r \<and> \<not> disabled
        then fromRoot E r disabled False s
        else (Inr \<lparr>wZone = zone, wServers = servers, wSec = sec, wFromCache = fromCache,
                   wMinimizeOff = False\<rparr>, s)) (\<lambda>w. okSec (wSec w))"
      by (cases "wasSecure \<and> \<not> secure sec \<and> rValidate r \<and> \<not> disabled")
         (auto simp: keeps_fromRoot keeps_return)
  qed
  moreover have "m s1 = (x, s')" using run p by (simp add: beginWalk_def m_def s0_def)
  ultimately show "ok s' \<and> x \<noteq> Inl Hangs \<and> (\<forall>y. x = Inr y \<longrightarrow> okSec (wSec y))"
    using keepsD \<open>ok s1\<close> by blast
qed

end

section \<open>The turns of a walk\<close>

lemma delegationPut_ok:
  assumes "pred_option cacheInv c"
  shows "\<exists>c'. delegationPut u c zone servers ttl sec now = Some c' \<and> pred_option cacheInv c'"
proof (cases c)
  case (Some d)
  then show ?thesis using assms put_returns [of d servers u zone ttl sec now]
    by (cases "servers = []") (auto simp: delegation_store.insert_inv)
qed simp

lemma forget_ok: "pred_option cacheInv c \<Longrightarrow> pred_option cacheInv (forget u c zone)"
  by (cases c) (auto simp: forget_eq delegation_store.remove_inv, simp add: forget_def)

context upstream
begin

abbreviation sound :: "nat \<Rightarrow> gostr \<Rightarrow> u16 \<Rightarrow> resolution \<Rightarrow> bool" where
  "sound \<equiv> soundResolution (unicodeOf E) (cryptoOf E) (trustAnchors r)"

abbreviation good :: "nat \<Rightarrow> gostr \<Rightarrow> u16 \<Rightarrow> turn \<Rightarrow> bool" where
  "good \<equiv> goodTurn (unicodeOf E) (cryptoOf E) (trustAnchors r)"

lemma keeps_silentTurn:
  assumes "okSec (wSec w)" "e \<noteq> Hangs"
  shows "keeps ok (silentTurn E r disabled minimizing w e) (good depth qname qtype)"
proof -
  have root: "keeps ok (andThen (fromRoot E r disabled (wMinimizeOff w)) (\<lambda>w s. (Inr (Again w), s)))
      (good depth qname qtype)"
    by (intro keeps_andThen [OF keeps_fromRoot] keeps_return) simp
  show ?thesis
  proof (rule keepsI)
    fix s x s' assume s: "ok s" and run: "silentTurn E r disabled minimizing w e s = (x, s')"
    have "ok (s\<lparr>sDelegations := forget (unicodeOf E) (sDelegations s) (wZone w)\<rparr>)"
      using s by (simp add: stateOk_def forget_ok)
    note k = keepsD [OF root this]
    consider "minimizing" | "\<not> minimizing" "wFromCache w" | "\<not> minimizing" "\<not> wFromCache w" by blast
    then show "ok s' \<and> x \<noteq> Inl Hangs \<and> (\<forall>y. x = Inr y \<longrightarrow> good depth qname qtype y)"
      by cases (use run s assms k in \<open>auto simp: silentTurn_def\<close>)
  qed
qed

lemma keeps_descendToSigner:
  assumes "okSec (wSec w)"
  shows "keeps ok (descendToSigner E r w resp qname) (\<lambda>w. okSec (wSec w))"
proof -
  let ?signer = "signerBelow (unicodeOf E) resp (wZone w) qname"
  have "keeps ok (andThen (descendTo E r (wSec w) (wZone w) ?signer (wServers w)) (\<lambda>sec s.
      (Inr (w\<lparr>wSec := sec, wZone := ?signer\<rparr>), s))) (\<lambda>w. okSec (wSec w))"
    by (intro keeps_andThen [OF keeps_descendTo [OF assms]] keeps_return) simp
  note k = keepsD [OF this]
  show ?thesis
    by (rule keepsI, cases "\<not> secure (wSec w) \<or> ?signer = []")
       (use assms k in \<open>auto simp: descendToSigner_def Let_def\<close>)
qed

lemma turn_errors:
  "nodataTurn c sec resp qname qtype \<noteq> Inl Hangs"
  "referralTurn c r w m resp qname qtype \<noteq> Inl Hangs"
  by (auto simp: referralTurn_def nodataTurn_def Let_def split: sum.splits)

lemma followChain_error: "followChain u rrs qtype depth chain name \<noteq> Inl Hangs"
proof (induction u rrs qtype depth chain name rule: followChain.induct)
  case (1 u rrs qtype depth chain name)
  then show ?case by (subst followChain.simps) (simp add: Let_def)
qed

lemma answerLoop_error: "answerLoop c sec resp records seen rrs \<noteq> Inl Hangs"
  by (induction rrs arbitrary: seen) (auto simp: Let_def split: sum.splits)

lemma validateAnswer_error: "validateAnswer c sec resp records \<noteq> Inl Hangs"
  by (simp add: validateAnswer_def answerLoop_error)

lemma answerTurn_error: "answerTurn c r depth w resp qname qtype \<noteq> Inl Hangs"
  using validateAnswer_error followChain_error turn_errors
  by (auto simp: answerTurn_def split: sum.splits)

lemma fullTurn_error: "fullTurn c r depth w resp qname qtype \<noteq> Inl Hangs"
  using answerTurn_error by (auto simp: fullTurn_def newNXDOMAINError_def split: sum.splits)

lemma joinChain_error: "joinChain c sec resp chain res \<noteq> Inl Hangs"
  using validateAnswer_error by (auto simp: joinChain_def split: sum.splits)

lemma good_fullTurn:
  "okSec (wSec w) \<Longrightarrow> fullTurn (checksOf E r s) r depth w resp qname qtype = Inr t \<Longrightarrow>
     good depth qname qtype t"
  by (rule fullTurn_good) simp_all

lemma keeps_walkTurn:
  assumes "okSec (wSec w)"
  shows "keeps ok (walkTurn E r disabled qname qtype depth w) (good depth qname qtype)"
proof (rule keepsI)
  fix s x s' assume s: "ok s" and run: "walkTurn E r disabled qname qtype depth w s = (x, s')"
  obtain askName askType m where ask: "chooseQuestion (unicodeOf E) r qname qtype w = (askName, askType, m)"
    by (metis prod.exhaust)
  obtain y s1 where q: "queryServers E r (wServers w) askName askType s = (y, s1)" by (meson surj_pair)
  note k = keepsD [OF keeps_queryServers s q]
  show "ok s' \<and> x \<noteq> Inl Hangs \<and> (\<forall>y. x = Inr y \<longrightarrow> good depth qname qtype y)"
  proof (cases y)
    case (Inl e)
    then have "e \<noteq> Hangs" "ok s1" "silentTurn E r disabled m w e s1 = (x, s')"
      using run ask q k by (auto simp: walkTurn_def)
    then show ?thesis using keepsD [OF keeps_silentTurn [OF assms]] by blast
  next
    case (Inr z)
    obtain resp srv where z: "z = (resp, srv)" by (cases z)
    show ?thesis
    proof (cases m)
      case True
      note good = referralTurn_good [OF assms, of "checksOf E r s1" r True resp qname qtype _ depth]
      show ?thesis using run ask q k Inr z assms turn_errors good True
        by (auto simp: walkTurn_def split: if_splits)
    next
      case False
      have "keeps ok (andThen (descendToSigner E r w resp qname) (\<lambda>w s.
          (fullTurn (checksOf E r s) r depth w resp qname qtype, s))) (good depth qname qtype)"
        by (intro keeps_andThen [OF keeps_descendToSigner [OF assms]] keeps_pure)
           (simp add: fullTurn_error good_fullTurn)
      moreover have "andThen (descendToSigner E r w resp qname) (\<lambda>w s.
          (fullTurn (checksOf E r s) r depth w resp qname qtype, s)) s1 = (x, s')"
        using run ask q Inr z False by (simp add: walkTurn_def)
      ultimately show ?thesis using keepsD k by blast
    qed
  qed
qed

lemma keeps_rememberDelegation: "keeps ok (rememberDelegation E disabled f servers sec) (\<lambda>_. True)"
proof (rule keepsI)
  fix s x s' assume s: "ok s" and run: "rememberDelegation E disabled f servers sec s = (x, s')"
  then obtain c where "delegationPut (unicodeOf E) (sDelegations s) (newZone f) servers (nsTTL f) sec (nowOf E s)
      = Some c" "pred_option cacheInv c"
    using delegationPut_ok unfolding stateOk_def by blast
  then show "ok s' \<and> x \<noteq> Inl Hangs \<and> (\<forall>y. x = Inr y \<longrightarrow> True)"
    using run s by (auto simp: rememberDelegation_def stateOk_def split: if_splits)
qed

lemma keeps_enterReferral:
  assumes "okSec (wSec w)"
  shows "keeps ok (enterReferral E r disabled w resp f servers) (\<lambda>w. okSec (wSec w))"
proof -
  have "keeps ok (if rValidate r then crossDelegation E r (wSec w) resp (newZone f) servers
      else (\<lambda>s. (Inr (wSec w), s))) okSec"
    using keeps_crossDelegation [OF assms] keeps_return [of okSec, OF assms] by (cases "rValidate r") auto
  then show ?thesis unfolding enterReferral_def
    by (rule keeps_andThen) (intro keeps_andThen [OF keeps_rememberDelegation] keeps_return, simp)
qed

section \<open>The whole resolution\<close>

text \<open>The three functions of the loop, by the induction their termination gives.\<close>

abbreviation kept :: "('a \<Rightarrow> bool) \<Rightarrow> resolveErr + 'a \<Rightarrow> 'n rstate \<Rightarrow> bool" where
  "kept Q x s' \<equiv> ok s' \<and> x \<noteq> Inl Hangs \<and> (\<forall>y. x = Inr y \<longrightarrow> Q y)"

lemma referral_servers:
  assumes "ok s" "(if glue \<noteq> [] then (Inr glue, s)
      else (case withNet (rangeNames E nss) s of (nss, s) \<Rightarrow> glueServers E r disabled nss g s)) = (x, s')"
    and "\<And>nss' s1. glue = [] \<Longrightarrow> withNet (rangeNames E nss) s = (nss', s1) \<Longrightarrow> ok s1 \<Longrightarrow>
      glueServers E r disabled nss' g s1 = (x, s') \<Longrightarrow> ok s' \<and> x \<noteq> Inl Hangs"
  shows "ok s' \<and> x \<noteq> Inl Hangs"
proof (cases "glue = []")
  case True
  obtain nss' s1 where w: "withNet (rangeNames E nss) s = (nss', s1)" by (meson surj_pair)
  have "ok s1" by (rule withNet_ok [OF _ assms(1) w]) (rule range_P)
  then show ?thesis using assms(2,3) w True by simp
qed (use assms in auto)

lemma walkLoop_step:
  assumes s: "ok s" and w: "okSec (wSec w)"
    and run: "walkLoop E r disabled qname qtype depth g n w s = (x, s')"
    and again: "\<And>w1 s1. walkTurn E r disabled qname qtype depth w s = (Inr (Again w1), s1) \<Longrightarrow>
      ok s1 \<Longrightarrow> okSec (wSec w1) \<Longrightarrow> \<not> ctxErr E (sNet s) \<Longrightarrow> \<not> n \<ge> maxReferrals \<Longrightarrow>
      walkLoop E r disabled qname qtype depth g (n + 1) w1 s1 = (x, s') \<Longrightarrow> kept (sound depth qname qtype) x s'"
    and chase: "\<And>name chain sec resp s1 y s2.
      walkTurn E r disabled qname qtype depth w s = (Inr (Chase name chain sec resp), s1) \<Longrightarrow>
      ok s1 \<Longrightarrow> \<not> ctxErr E (sNet s) \<Longrightarrow> \<not> n \<ge> maxReferrals \<Longrightarrow>
      resolve E r disabled name qtype (depth + length chain) g s1 = (y, s2) \<Longrightarrow>
      kept (sound (depth + length chain) name qtype) y s2"
    and refer: "\<And>f glue w1 resp s1 y s2.
      walkTurn E r disabled qname qtype depth w s = (Inr (Refer f glue w1 resp), s1) \<Longrightarrow>
      ok s1 \<Longrightarrow> okSec (wSec w1) \<Longrightarrow> \<not> ctxErr E (sNet s) \<Longrightarrow> \<not> n \<ge> maxReferrals \<Longrightarrow>
      (if glue \<noteq> [] then (Inr glue, s1)
       else (case withNet (rangeNames E (nsNames f)) s1 of (nss, s) \<Rightarrow> glueServers E r disabled nss g s))
        = (y, s2) \<Longrightarrow>
      (ok s2 \<and> y \<noteq> Inl Hangs) \<and>
      (\<forall>servers w2 s3. y = Inr servers \<longrightarrow> servers \<noteq> [] \<longrightarrow>
         enterReferral E r disabled w1 resp f servers s2 = (Inr w2, s3) \<longrightarrow> ok s3 \<longrightarrow> okSec (wSec w2) \<longrightarrow>
         walkLoop E r disabled qname qtype depth g (n + 1) w2 s3 = (x, s') \<longrightarrow>
         kept (sound depth qname qtype) x s')"
  shows "kept (sound depth qname qtype) x s'"
proof (cases "ctxErr E (sNet s) \<or> n \<ge> maxReferrals")
  case True
  then show ?thesis using run s
    by (cases "ctxErr E (sNet s)") (auto simp: walkLoop.simps [of E r disabled qname qtype depth g n w s])
next
  case False
  then have go: "\<not> ctxErr E (sNet s)" "\<not> n \<ge> maxReferrals" by simp_all
  obtain t s1 where t: "walkTurn E r disabled qname qtype depth w s = (t, s1)" by (meson surj_pair)
  note k = keepsD [OF keeps_walkTurn [OF w] s t]
  note unf = run [unfolded walkLoop.simps [of E r disabled qname qtype depth g n w s] t]
  consider e where "t = Inl e" | res where "t = Inr (Final res)" | w1 where "t = Inr (Again w1)"
    | name chain sec resp where "t = Inr (Chase name chain sec resp)"
    | f glue w1 resp where "t = Inr (Refer f glue w1 resp)"
    by (metis sum.exhaust turn.exhaust)
  then show ?thesis
  proof cases
    case 1
    then show ?thesis using unf go k by auto
  next
    case 2
    then show ?thesis using unf go k by auto
  next
    case 3
    then show ?thesis using unf go k by (intro again [OF t [unfolded 3]]) auto
  next
    case (4 name chain sec resp)
    obtain y s2 where y: "resolve E r disabled name qtype (depth + length chain) g s1 = (y, s2)"
      by (meson surj_pair)
    note sub = chase [OF t [unfolded 4] _ go y]
    show ?thesis
    proof (cases y)
      case (Inl e)
      then show ?thesis using unf go k 4 y sub by auto
    next
      case (Inr res)
      then have "joinChain (checksOf E r s2) sec resp chain res = x" "s2 = s'"
        using unf go 4 y by auto
      moreover have "secVouched (unicodeOf E) (cryptoOf E) (trustAnchors r) sec"
        "chainTo (unicodeOf E) qtype qname chain name" "depth + length chain < 15"
        using k 4 by auto
      ultimately show ?thesis
        using sub Inr k joinChain_error joinChain_sound [of _ _ _ sec "checksOf E r s2"] by auto
    qed
  next
    case (5 f glue w1 resp)
    obtain y s2 where y: "(if glue \<noteq> [] then (Inr glue, s1)
       else (case withNet (rangeNames E (nsNames f)) s1 of (nss, s) \<Rightarrow> glueServers E r disabled nss g s))
        = (y, s2)" by (meson surj_pair)
    have ok1: "ok s1" "okSec (wSec w1)" using k 5 by auto
    note sub = refer [OF t [unfolded 5] ok1 go y]
    have unf: "(case y of Inl e \<Rightarrow> (Inl e, s2)
      | Inr servers \<Rightarrow> if servers = [] then (Inl ErrFailed, s2)
        else (case enterReferral E r disabled w1 resp f servers s2 of (Inl e, s) \<Rightarrow> (Inl e, s)
          | (Inr w, s) \<Rightarrow> walkLoop E r disabled qname qtype depth g (n + 1) w s)) = (x, s')"
      using unf [unfolded 5] go y by simp
    show ?thesis
    proof (cases "\<exists>servers. y = Inr servers \<and> servers \<noteq> []")
      case False
      then show ?thesis using unf sub by (cases y) auto
    next
      case True
      then obtain servers where servers: "y = Inr servers" "servers \<noteq> []" by blast
      obtain z s3 where z: "enterReferral E r disabled w1 resp f servers s2 = (z, s3)" by (meson surj_pair)
      note k3 = keepsD [OF keeps_enterReferral [OF ok1(2)] _ z]
      show ?thesis using unf sub servers z k3 by (cases z) auto
    qed
  qed
qed

lemma resolution_keeps:
  "E' = E \<Longrightarrow> r' = r \<Longrightarrow> ok s \<Longrightarrow> resolve E' r' disabled qname qtype depth g s = (x, s') \<Longrightarrow>
     kept (sound depth qname qtype) x s'"
  "E' = E \<Longrightarrow> r' = r \<Longrightarrow> ok s \<Longrightarrow> okSec (wSec w) \<Longrightarrow>
     walkLoop E' r' disabled qname qtype depth g n w s = (x, s') \<Longrightarrow>
     kept (sound depth qname qtype) x s'"
  "E' = E \<Longrightarrow> r' = r \<Longrightarrow> ok s \<Longrightarrow> glueServers E' r' disabled nss g s = (z, s') \<Longrightarrow>
     ok s' \<and> z \<noteq> Inl Hangs"
proof (induction E' r' disabled qname qtype depth g s and E' r' disabled qname qtype depth g n w s
    and E' r' disabled nss g s arbitrary: x s' and x s' and z s'
    rule: resolve_walkLoop_glueServers.induct)
  case (1 E' r' disabled qname qtype depth g s)
  obtain y s1 where y: "beginWalk E r disabled qname s = (y, s1)" by (meson surj_pair)
  note k = keepsD [OF keeps_beginWalk "1.prems"(3) y]
  show ?case
  proof (cases y)
    case (Inl e)
    then show ?thesis using "1.prems" y k by (auto simp: resolve.simps)
  next
    case (Inr w)
    then have "walkLoop E r disabled qname qtype depth g 0 w s1 = (x, s')"
      using "1.prems" y by (simp add: resolve.simps)
    then show ?thesis using "1.IH" [of y s1 w] "1.prems"(1,2) y k Inr by simp
  qed
next
  case (2 E' r' disabled qname qtype depth g n w s)
  have E: "E' = E" and r: "r' = r" by fact+
  note IH = "2.IH" [unfolded E r]
  show ?case
  proof (rule walkLoop_step [OF "2.prems"(3,4) "2.prems"(5) [unfolded E r]], goal_cases)
    case (1 w1 s1)
    show ?case using IH(1) [OF 1(4,5) 1(1) [symmetric] refl refl] 1 by blast
  next
    case (2 name chain sec resp s1 y s2)
    show ?case using IH(2) [OF 2(3,4) 2(1) [symmetric] refl refl] 2 by blast
  next
    case (3 f glue w1 resp s1 y s2)
    have "ok s2 \<and> y \<noteq> Inl Hangs"
    proof (rule referral_servers [OF 3(2,6)], goal_cases)
      case (1 nss' s1')
      show ?case using IH(3) [OF 3(4,5) 3(1) [symmetric] refl refl _ 1(2) [symmetric]] 1 by blast
    qed
    moreover have "kept (sound depth qname qtype) x s'"
      if "y = Inr servers" "servers \<noteq> []"
        and e: "enterReferral E r disabled w1 resp f servers s2 = (Inr w2, s3)"
        and "ok s3" "okSec (wSec w2)" "walkLoop E r disabled qname qtype depth g (n + 1) w2 s3 = (x, s')"
      for servers w2 s3
      using IH(4) [OF 3(4,5) 3(1) [symmetric] refl refl 3(6) [symmetric] that(1,2) e [symmetric] refl] that
      by blast
    ultimately show ?case by blast
  qed
next
  case (3 E' r' disabled nss g s)
  have E: "E' = E" and r: "r' = r" by fact+
  note IH = "3.IH" [unfolded E r]
  note unf = "3.prems"(4) [unfolded E r glueServers.simps [of E r disabled nss g s]]
  show ?case
  proof (cases "6 \<le> g \<or> nss = []")
    case True
    then show ?thesis using unf "3.prems"(3) by (auto split: if_splits)
  next
    case False
    then obtain ns rest where nss: "nss = ns # rest" and g: "\<not> 6 \<le> g" by (cases nss) auto
    obtain y s1 where y: "resolve E r disabled ns TypeA 0 (g + 1) s = (y, s1)" by (meson surj_pair)
    have k: "ok s1" using IH(1) [OF g nss refl refl "3.prems"(3) y] by blast
    show ?thesis
    proof (cases y)
      case (Inl e)
      then have "glueServers E r disabled rest g s1 = (z, s')" using unf g nss y by simp
      from IH(2) [OF g nss y [symmetric] Inl refl refl k this] show ?thesis .
    next
      case (Inr res)
      show ?thesis
      proof (cases "addressesOf r (resAnswers res) = []")
        case True
        then have "glueServers E r disabled rest g s1 = (z, s')" using unf g nss y Inr by simp
        from IH(3) [OF g nss y [symmetric] Inr _ refl refl k this] True show ?thesis by simp
      next
        case False
        then show ?thesis using unf g nss y Inr k by auto
      qed
    qed
  qed
qed

end

end
