(* ===== verification/Resolve_Facts.thy ===== *)
theory Resolve_Facts
  imports Resolve_Sound Verify_Facts
begin

text \<open>
  The theorems about whole resolutions, in every state a resolver can be in, and the example
  world their witnesses run in: name servers that give a list of replies one after the other.
\<close>

section \<open>Reachable states\<close>

text \<open>Any number of resolutions, one after the other, with any change of the world in between.\<close>

inductive resolverRun :: "'n env \<Rightarrow> resolver \<Rightarrow> 'n rstate \<Rightarrow> bool" for E r where
  start: "resolverRun E r (newState n)"
| query: "resolverRun E r s \<Longrightarrow> ResolveRR E r disabled qname qtype s = (x, s') \<Longrightarrow> resolverRun E r s'"
| world: "resolverRun E r s \<Longrightarrow> resolverRun E r (s\<lparr>sNet := n\<rparr>)"

interpretation anyWorld: upstream E r "\<lambda>_. True" for E :: "'n env" and r
  by unfold_locales auto

lemma newState_ok: "P n \<Longrightarrow> stateOk E r P (newState n)"
  by (simp add: stateOk_def newState_def cacheVouched_def newDelegationCache_inv)

lemma resolverRun_ok: "resolverRun E r s \<Longrightarrow> stateOk E r (\<lambda>_. True) s"
proof (induction rule: resolverRun.induct)
  case (query s disabled qname qtype x s')
  then show ?case using anyWorld.resolution_keeps(1) unfolding ResolveRR_def by blast
qed (simp_all add: newState_ok, simp add: stateOk_def)

section \<open>The example world\<close>

definition scripted :: "byte list list env" where
  "scripted = \<lparr>unicodeOf = plainUnicode, cryptoOf = plainCrypto, timeNow = (\<lambda>_. 1500 * second),
     ctxErr = (\<lambda>_. False), randRead = (\<lambda>k n. (Some (replicate k 0), n)),
     shuffleIPs = (\<lambda>ips n. (ips, n)), rangeNames = (\<lambda>nss n. (nss, n)),
     firstKey = (\<lambda>t n. (None, n)),
     udpExchange = (\<lambda>ip packet n. case n of [] \<Rightarrow> (None, []) | b # n \<Rightarrow> (Some b, n)),
     tcpExchange = (\<lambda>ip packet n. (None, n))\<rparr>"

text \<open>The bytes of records and replies, names written out in full.\<close>

definition nameBytes :: "gostr \<Rightarrow> byte list" where
  "nameBytes name = concat (map (\<lambda>l. word_of_nat (length l) # l) (splitName name)) @ [0]"

definition rrBytes :: "gostr \<Rightarrow> u16 \<Rightarrow> byte list \<Rightarrow> byte list" where
  "rrBytes owner t raw =
     nameBytes owner @ put16 t @ put16 ClassIN @ put32 300 @ put16 (word_of_nat (length raw)) @ raw"

definition replyBytes :: "gostr \<Rightarrow> u16 \<Rightarrow> byte list list \<Rightarrow> byte list list \<Rightarrow> byte list" where
  "replyBytes qname qtype an ns =
     [0, 0, 0x80, 0, 0, 1] @ put16 (word_of_nat (length an)) @ put16 (word_of_nat (length ns)) @ [0, 0]
     @ nameBytes qname @ put16 qtype @ put16 ClassIN @ concat an @ concat ns"

definition sigRdata :: "u16 \<Rightarrow> byte \<Rightarrow> byte list" where
  "sigRdata t labels =
     rrsigFields (sampleSig\<lparr>TypeCovered := t, sigLabels := labels, SignerName := [dot]\<rparr>) @ [0, 1]"

definition exampleResolver :: resolver where
  "exampleResolver = \<lparr>rRoots = Some [[198, 41, 0, 4]], rAllowPrivate = False, rValidate = True,
     rAnchors = Some [\<lparr>dsKeyTag = 1040, dsAlgorithm = 15, DigestType = 2, Digest = 0 # rdata sampleKey\<rparr>],
     rMinimize = True, rUse0x20 = False\<rparr>"

definition secureScript :: "byte list list" where
  "secureScript =
     [replyBytes [dot] TypeDNSKEY
        [rrBytes [dot] TypeDNSKEY (rdata sampleKey), rrBytes [dot] TypeRRSIG (sigRdata TypeDNSKEY 0)] [],
      replyBytes (lit ''a'') TypeA
        [rrBytes (lit ''a'') TypeA [192, 0, 2, 1], rrBytes (lit ''a'') TypeRRSIG (sigRdata TypeA 1)] []]"

text \<open>The state after the keys of the root were fetched.\<close>

definition keyedState :: "byte list list rstate" where
  "keyedState =
     \<lparr>sDelegations = Some (newDelegationCache 0),
      sKeys = Some (Mapping.update [] \<lparr>keKeys = [sampleKey], keExpiry = 1800 * second\<rparr> Mapping.empty),
      sRtt = Some (Mapping.update [198, 41, 0, 4] 0 Mapping.empty), sPrimed = [], sPrimedUntil = 0,
      sNet = tl secureScript\<rparr>"

lemma example_keys:
  "zoneKeys scripted exampleResolver [dot] [[198, 41, 0, 4]] (trustAnchors exampleResolver) (newState secureScript)
     = (Inr [sampleKey], keyedState)"
  by code_simp

definition exampleWalk :: walk where
  "exampleWalk = \<lparr>wZone = [dot], wServers = [[198, 41, 0, 4]],
     wSec = \<lparr>secure = True, keys = [sampleKey]\<rparr>, wFromCache = False, wMinimizeOff = False\<rparr>"

lemma example_begin:
  "beginWalk scripted exampleResolver False (lit ''a'') (newState secureScript) = (Inr exampleWalk, keyedState)"
proof -
  have start: "startingPoint scripted exampleResolver (lit ''a'') (newState n) =
      (([dot], [[198, 41, 0, 4]], False, False), newState n)" for n
    by code_simp
  have r: "rRoots exampleResolver = Some [[198, 41, 0, 4]]" "rValidate exampleResolver"
    "normalizeName (unicodeOf scripted) [dot] = []"
    by code_simp+
  show ?thesis
    by (simp add: beginWalk_def start startingSecurity_def r rootState_def andThen_def example_keys exampleWalk_def)
qed

lemma example_loop:
  "case walkLoop scripted exampleResolver False (lit ''a'') TypeA 0 0 0 exampleWalk keyedState of
     (x, s') \<Rightarrow> map_sum id (\<lambda>res. (resSecure res, map rrName (resAnswers res))) x = Inr (True, [lit ''a'']) \<and>
       (case sKeys s' of Some m \<Rightarrow> map_option keKeys (Mapping.lookup m []) = Some [sampleKey] | None \<Rightarrow> False)"
  by code_simp

lemma example_secure:
  "\<exists>(res :: resolution) s' m e.
     ResolveRR scripted exampleResolver False (lit ''a'') TypeA (newState secureScript) = (Inr res, s') \<and>
     resSecure res \<and> map rrName (resAnswers res) = [lit ''a''] \<and>
     sKeys s' = Some m \<and> Mapping.lookup m [] = Some e \<and> keKeys e = [sampleKey]"
proof -
  obtain x s' where w: "walkLoop scripted exampleResolver False (lit ''a'') TypeA 0 0 0 exampleWalk keyedState
      = (x, s')" by (meson surj_pair)
  then have "ResolveRR scripted exampleResolver False (lit ''a'') TypeA (newState secureScript) = (x, s')"
    by (simp add: ResolveRR_def resolve.simps example_begin)
  then show ?thesis using example_loop w by (cases x) (auto split: option.splits)
qed

lemma example_run: "resolverRun scripted exampleResolver (newState secureScript)"
  by (rule resolverRun.start)

section \<open>Answers\<close>

lemma resolution_sound:
  assumes "resolverRun E r s" "ResolveRR E r disabled qname qtype s = (Inr res, s')"
  shows "soundResolution (unicodeOf E) (cryptoOf E) (trustAnchors r) 0 qname qtype res"
  using anyWorld.resolution_keeps(1) [OF refl refl resolverRun_ok [OF assms(1)]] assms(2)
  unfolding ResolveRR_def by blast

text \<open>
  (C11) What an answer is.  Whatever the name servers send, the records a resolution returns are
  a chain of aliases, each owned by the name the one before points to, the first by the name
  asked for, and then records of the type asked for at the end of that chain; all are of
  class IN, and there are fewer than fifteen aliases however many responses they came from.
\<close>

theorem answer_is_a_chain:
  assumes "resolverRun E r s" "ResolveRR E r disabled qname qtype s = (Inr res, s')"
  shows "\<exists>chain rest target. resAnswers res = chain @ rest \<and> length chain < 15 \<and>
    chainTo (unicodeOf E) qtype qname chain target \<and> list_all (isAnswer (unicodeOf E) target qtype) rest"
  using resolution_sound [OF assms] unfolding soundResolution_def by auto

theorem answer_is_a_chain_witness:
  "\<exists>chain rest target rr. length chain < 15 \<and> chain @ rest = [rr] \<and> rrName rr = lit ''a'' \<and>
     chainTo plainUnicode TypeA (lit ''a'') chain target \<and> list_all (isAnswer plainUnicode target TypeA) rest"
proof -
  obtain res :: resolution and s' where r: "ResolveRR scripted exampleResolver False (lit ''a'') TypeA (newState secureScript) = (Inr res, s')"
    "map rrName (resAnswers res) = [lit ''a'']" using example_secure by (elim exE conjE)
  have u: "unicodeOf scripted = plainUnicode" by (simp add: scripted_def)
  obtain rr where rr: "resAnswers res = [rr]" "rrName rr = lit ''a''" using r(2) by (auto simp: Cons_eq_map_conv)
  from answer_is_a_chain [OF example_run r(1)] show ?thesis unfolding u rr(1) using rr(2) by metis
qed



text \<open>
  (C5) The key cache.  In every reachable state, every key set in the cache of validated keys is
  vouched for: one of its keys matches a DS record and signed the set, the DS record is signed
  by the key set of another zone that is vouched for, and so on up to a trust anchor.
\<close>

theorem cached_keys_are_vouched:
  assumes "resolverRun E r s" "sKeys s = Some m" "Mapping.lookup m k = Some e"
  shows "\<exists>zone. normalizeZone (unicodeOf E) zone = k \<and>
    vouched (unicodeOf E) (cryptoOf E) (trustAnchors r) zone (keKeys e)"
  using resolverRun_ok [OF assms(1)] assms(2,3) by (auto simp: stateOk_def cacheVouched_def)

theorem cached_keys_are_vouched_witness:
  "\<exists>zone. vouched plainUnicode plainCrypto (trustAnchors exampleResolver) zone [sampleKey]"
proof -
  obtain res :: resolution and s' m e
    where r: "ResolveRR scripted exampleResolver False (lit ''a'') TypeA (newState secureScript) = (Inr res, s')"
      "sKeys s' = Some m" "Mapping.lookup m [] = Some e" "keKeys e = [sampleKey]"
    using example_secure by (elim exE conjE)
  from cached_keys_are_vouched [OF resolverRun.query [OF example_run r(1)] r(2,3)] r(4)
  show ?thesis by (auto simp: scripted_def)
qed

lemma resolution_not_hangs:
  assumes "resolverRun E r s"
  shows "fst (ResolveRR E r disabled qname qtype s) \<noteq> Inl Hangs"
proof -
  obtain x s' where "resolve E r disabled qname qtype 0 0 s = (x, s')" by (meson surj_pair)
  with anyWorld.resolution_keeps(1) [OF refl refl resolverRun_ok [OF assms] this]
  show ?thesis by (simp add: ResolveRR_def)
qed

text \<open>
  (C7) Every resolution returns.  The functions are total, since the depth of glue and of
  aliases and the number of referrals are bounded; and the one loop whose end is not evident,
  the eviction of the delegation cache, never spins in a state a resolver can reach.
\<close>

theorem resolution_returns:
  assumes "resolverRun E r s"
  shows "\<exists>x s'. ResolveRR E r disabled qname qtype s = (x, s') \<and> x \<noteq> Inl Hangs"
  using resolution_not_hangs [OF assms] by (metis prod.collapse)

theorem resolution_returns_witness:
  "\<exists>x s'. ResolveRR scripted exampleResolver False (lit ''a'') TypeA (newState secureScript) = (x, s') \<and>
     x \<noteq> Inl Hangs"
  by (rule resolution_returns [OF example_run])

section \<open>Where queries go\<close>

text \<open>The world with a log of the addresses that packets were sent to.\<close>

definition loggedEnv :: "'n env \<Rightarrow> ('n \<times> ip list) env" where
  "loggedEnv E = \<lparr>unicodeOf = unicodeOf E, cryptoOf = cryptoOf E,
     timeNow = (\<lambda>(n, l). timeNow E n), ctxErr = (\<lambda>(n, l). ctxErr E n),
     randRead = (\<lambda>k (n, l). case randRead E k n of (x, n) \<Rightarrow> (x, (n, l))),
     shuffleIPs = (\<lambda>ips (n, l). case shuffleIPs E ips n of (x, n) \<Rightarrow> (x, (n, l))),
     rangeNames = (\<lambda>nss (n, l). case rangeNames E nss n of (x, n) \<Rightarrow> (x, (n, l))),
     firstKey = (\<lambda>t (n, l). case firstKey E t n of (x, n) \<Rightarrow> (x, (n, l))),
     udpExchange = (\<lambda>ip b (n, l). case udpExchange E ip b n of (x, n) \<Rightarrow> (x, (n, l @ [ip]))),
     tcpExchange = (\<lambda>ip b (n, l). case tcpExchange E ip b n of (x, n) \<Rightarrow> (x, (n, l @ [ip])))\<rparr>"

interpretation logged: upstream "loggedEnv E" r "\<lambda>(n, l). list_all (allowsUpstream r) l"
  for E :: "'n env" and r
  by unfold_locales (auto simp: loggedEnv_def split: prod.splits)

text \<open>
  (C6) Only permitted servers are asked.  Whatever addresses the name servers hand out, as glue,
  as answers, when priming or through the caches, a resolution sends no packet to an address
  that \<open>allowsUpstream\<close> refuses: with the option off, no loopback, private, link-local,
  multicast, unspecified or carrier-grade address.
\<close>

theorem only_permitted_servers_are_asked:
  assumes "resolverRun (loggedEnv E) r s" "snd (sNet s) = []"
    and "ip \<in> set (snd (sNet (snd (ResolveRR (loggedEnv E) r disabled qname qtype s))))"
  shows "allowsUpstream r ip"
proof -
  obtain x s' where run: "resolve (loggedEnv E) r disabled qname qtype 0 0 s = (x, s')" by (meson surj_pair)
  have "stateOk (loggedEnv E) r (\<lambda>(n, l). list_all (allowsUpstream r) l) s"
    using resolverRun_ok [OF assms(1)] assms(2) by (auto simp: stateOk_def split: prod.split)
  from logged.resolution_keeps(1) [OF refl refl this run] assms(3) run
  show ?thesis by (auto simp: stateOk_def ResolveRR_def list_all_iff split: prod.splits)
qed

theorem only_permitted_servers_are_asked_witness:
  "allowsUpstream (exampleResolver\<lparr>rValidate := False\<rparr>) [198, 41, 0, 4]"
proof -
  let ?r = "exampleResolver\<lparr>rValidate := False\<rparr>"
  have "[198, 41, 0, 4] \<in> set (snd (sNet (snd
      (ResolveRR (loggedEnv scripted) ?r False (lit ''a'') TypeA (newState ([], []))))))"
    by code_simp
  note asked = this
  show ?thesis
    by (rule only_permitted_servers_are_asked [OF resolverRun.start _ asked]) (simp add: newState_def)
qed

end
