(* ===== verification/Walk_Facts.thy ===== *)
theory Walk_Facts
  imports Resolve_Facts
begin

text \<open>
  Theorems about the single steps of a resolution: which reply is accepted, where a referral
  may lead, what a server is asked, and two things the checks of an answer do not notice.
\<close>

section \<open>Replies\<close>

text \<open>A query ID that was drawn.\<close>

definition drawnID :: "'n env \<Rightarrow> u16 \<Rightarrow> bool" where
  "drawnID E qid = (\<exists>n b. fst (randRead E 2 n) = Some b \<and> qid = be16 (b ! 0) (b ! 1))"

text \<open>The name on the wire: the one asked for, up to case if case is randomized.\<close>

definition wireForm :: "resolver \<Rightarrow> gostr \<Rightarrow> gostr \<Rightarrow> bool" where
  "wireForm r qname wire =
     (if rUse0x20 r then map lowerByte wire = map lowerByte qname else wire = qname)"

definition acceptedFor :: "'n env \<Rightarrow> resolver \<Rightarrow> gostr \<Rightarrow> u16 \<Rightarrow> Message \<Rightarrow> bool" where
  "acceptedFor E r qname qtype msg =
     (\<exists>qid wire. drawnID E qid \<and> wireForm r qname wire \<and>
        answersQuery (unicodeOf E) qid wire qtype (rUse0x20 r) msg)"

abbreviation anyState :: "'n rstate \<Rightarrow> bool" where
  "anyState \<equiv> \<lambda>_. True"

lemma keeps_drawnID: "keeps anyState (randomQueryID E) (drawnID E)"
  by (auto simp: keeps_def randomQueryID_def withNet_def drawnID_def
      split: prod.splits option.splits) (metis fst_conv)

lemma keeps_failOnErr_any: "(\<And>y. x = Inr y \<Longrightarrow> Q y) \<Longrightarrow> keeps anyState (failOnErr x) Q"
  by (auto simp: keeps_def failOnErr_def split: sum.splits)

lemma failOnErr_Inr [simp]: "failOnErr x s = (Inr y, s') \<longleftrightarrow> x = Inr y \<and> s' = s"
  "failOnErr x s = (Inl e, s') \<longleftrightarrow> (\<exists>z. x = Inl z) \<and> e = ErrFailed \<and> s' = s"
  by (auto simp: failOnErr_def split: sum.splits)

lemma keeps_queryUDP_any:
  "keeps anyState (queryUDP E addr packet qid qname qtype strict)
     (answersQuery (unicodeOf E) qid qname qtype strict)"
  by (auto simp: keeps_def queryUDP_def failOnErr_def unpackAndVerify_Inr
      split: prod.splits option.splits sum.splits)

lemma keeps_queryTCP_any:
  "keeps anyState (queryTCP E addr packet qid qname qtype strict)
     (answersQuery (unicodeOf E) qid qname qtype strict)"
  by (auto simp: keeps_def queryTCP_def failOnErr_def unpackAndVerify_Inr Let_def
      split: prod.splits option.splits sum.splits if_splits)

lemma keeps_queryOnce_any:
  "keeps anyState (queryOnce E r addr qname qtype edns) (acceptedFor E r qname qtype)"
  unfolding queryOnce_def
proof (rule keeps_andThen [OF keeps_drawnID])
  fix qid assume qid: "drawnID E qid"
  let ?rest = "\<lambda>wireName. andThen (failOnErr (queryPacket E r qid wireName qtype edns)) (\<lambda>packet.
      andThen (queryUDP E addr packet qid wireName qtype (rUse0x20 r)) (\<lambda>msg.
        if TC (header msg) then queryTCP E addr packet qid wireName qtype (rUse0x20 r)
        else (\<lambda>s. (Inr msg, s))))"
  have rest: "keeps anyState (?rest wire) (answersQuery (unicodeOf E) qid wire qtype (rUse0x20 r))" for wire
    by (intro keeps_andThen [OF keeps_failOnErr_any [of _ "\<lambda>_. True"]] keeps_andThen [OF keeps_queryUDP_any])
       (auto simp: keeps_queryTCP_any keeps_return)
  show "keeps anyState (\<lambda>s. case (if rUse0x20 r then withNet (randomizeCase E qname) s else (qname, s)) of
       (wireName, s) \<Rightarrow> ?rest wireName s) (acceptedFor E r qname qtype)"
  proof (rule keepsI)
    fix s x s'
    assume run: "(case (if rUse0x20 r then withNet (randomizeCase E qname) s else (qname, s)) of
       (wireName, s) \<Rightarrow> ?rest wireName s) = (x, s')"
    obtain wire s1
      where w: "(if rUse0x20 r then withNet (randomizeCase E qname) s else (qname, s)) = (wire, s1)"
      by (meson surj_pair)
    have "wireForm r qname wire"
    proof (cases "rUse0x20 r")
      case True
      then have "wire = fst (randomizeCase E qname (sNet s))"
        using w by (auto simp: withNet_def split: prod.splits)
      then show ?thesis using True randomizeCase_lower by (auto simp: wireForm_def)
    qed (use w in \<open>simp add: wireForm_def\<close>)
    moreover have "?rest wire s1 = (x, s')" using run unfolding w by simp
    ultimately show "True \<and> x \<noteq> Inl Hangs \<and> (\<forall>y. x = Inr y \<longrightarrow> acceptedFor E r qname qtype y)"
      using keepsD [OF rest TrueI] qid unfolding acceptedFor_def by blast
  qed
qed

lemma keeps_query_any:
  "keeps anyState (query E r addr qname qtype) (acceptedFor E r qname qtype)"
  unfolding query_def
  by (intro keeps_andThen [OF keeps_queryOnce_any]) (simp add: keeps_queryOnce_any keeps_return)

lemma queryLoop_accepts:
  "queryLoop E r qname qtype queue s = (Inr (msg, addr), s') \<Longrightarrow>
     addr \<in> set queue \<and> allowsUpstream r addr \<and> acceptedFor E r qname qtype msg"
proof (induction queue arbitrary: s)
  case (Cons a queue)
  obtain y s1 where q: "query E r a qname qtype s = (y, s1)" by (meson surj_pair)
  have acc: "y = Inr m \<Longrightarrow> acceptedFor E r qname qtype m" for m
    using keepsD [OF keeps_query_any TrueI q] by blast
  show ?case
  proof (cases "\<not> ctxErr E (sNet s) \<and> allowsUpstream r a")
    case True
    then show ?thesis using Cons.prems q acc Cons.IH by (cases y) auto
  next
    case False
    then show ?thesis using Cons by (auto split: if_splits)
  qed
qed simp



section \<open>Referrals\<close>

definition referralOk :: "unicode \<Rightarrow> gostr \<Rightarrow> gostr \<Rightarrow> RR list \<Rightarrow> referred \<Rightarrow> bool" where
  "referralOk u qname zone rrs f =
     ((nsNames f \<noteq> [] \<longrightarrow> isSubdomainOrEqual u qname (newZone f) \<and> isProperSubdomain u (newZone f) zone) \<and>
      (newZone f \<noteq> [] \<longrightarrow> nsNames f \<noteq> []) \<and>
      (\<forall>n\<in>set (nsNames f). \<exists>rr\<in>set rrs. rrType rr = TypeNS \<and> rrClass rr = ClassIN \<and>
         isProperSubdomain u (rrName rr) zone \<and> isSubdomainOrEqual u qname (rrName rr) \<and>
         n = ToLower u (rrNS rr)))"

lemma takeNS_ok:
  assumes "referralOk u qname zone rrs f" "rr \<in> set rrs" "rrType rr = TypeNS" "rrClass rr = ClassIN"
    "isSubdomainOrEqual u qname (rrName rr)" "isProperSubdomain u (rrName rr) zone"
  shows "referralOk u qname zone rrs (takeNS u rr f)"
  using assms unfolding referralOk_def takeNS_def by (auto simp: Let_def)

lemma referralLoop_ok:
  "referralOk u qname zone rrs f \<Longrightarrow> set sub \<subseteq> set rrs \<Longrightarrow>
     referralOk u qname zone rrs (referralLoop u qname zone f sub)"
  by (induction sub arbitrary: f) (auto simp: takeNS_ok)

lemma findReferral_ok: "referralOk u qname zone rrs (findReferral u qname zone rrs)"
  unfolding findReferral_def by (rule referralLoop_ok) (simp_all add: referralOk_def)

lemma usableAddress_Some:
  "usableAddress r rr = Some ip \<Longrightarrow> allowsUpstream r ip \<and> (rrA rr = Some ip \<or> rrAAAA rr = Some ip)"
  by (auto simp: usableAddress_def split: option.splits if_splits)

lemma glueAddrs_ok:
  assumes "ip \<in> set (glueAddrs u r zone nss rrs)"
  shows "allowsUpstream r ip \<and> (\<exists>rr\<in>set rrs. ToLower u (rrName rr) \<in> set nss \<and> rrClass rr = ClassIN \<and>
    isSubdomainOrEqual u (rrName rr) zone \<and> (rrA rr = Some ip \<or> rrAAAA rr = Some ip))"
proof -
  from assms obtain rr where "rr \<in> set rrs" and some: "(if ToLower u (rrName rr) \<notin> set nss \<or> rrClass rr \<noteq> ClassIN
      then None else if \<not> isSubdomainOrEqual u (rrName rr) zone then None else usableAddress r rr) = Some ip"
    unfolding glueAddrs_def map_filter_def by (auto simp del: not_None_eq)
  then show ?thesis by (auto dest!: usableAddress_Some split: if_splits)
qed

lemma referralTurn_Refer:
  "referralTurn c r w m resp qname qtype = Inr (Refer f glue w' resp') \<Longrightarrow>
     w' = w \<and> resp' = resp \<and> nsNames f \<noteq> [] \<and>
     f = findReferral (cUnicode c) qname (wZone w) (Authorities resp) \<and>
     glue = glueAddrs (cUnicode c) r (wZone w) (nsNames f) (Additionals resp)"
  by (auto simp: referralTurn_def nodataTurn_def Let_def split: if_splits sum.splits)

lemma fullTurn_Refer:
  "fullTurn c r depth w resp qname qtype = Inr (Refer f glue w' resp') \<Longrightarrow>
     referralTurn c r w False resp qname qtype = Inr (Refer f glue w' resp')"
  by (auto simp: fullTurn_def answerTurn_def split: if_splits sum.splits)

lemma walkTurn_Refer:
  assumes "walkTurn E r disabled qname qtype depth w s = (Inr (Refer f glue w' resp), s')"
  shows "\<exists>c m. cUnicode c = unicodeOf E \<and>
    referralTurn c r w' m resp qname qtype = Inr (Refer f glue w' resp)"
proof -
  have silent: "silentTurn E r disabled m w e s1 \<noteq> (Inr (Refer f glue w' resp), s')" for m e s1
    by (auto simp: silentTurn_def andThen_Inr)
  from assms show ?thesis
    unfolding walkTurn_def
    by (auto simp: silent andThen_Inr split: prod.splits sum.splits if_splits
        dest: fullTurn_Refer referralTurn_Refer intro!: exI [of _ "checksOf E r s'"])
qed

text \<open>
  (C12) Where a referral may lead.  When a turn of the walk ends in a referral, the new zone is
  the name asked for or above it and strictly below the zone the walk stands in, so a server
  cannot take the walk sideways or back up; every server name comes from an NS record of such
  a zone in the authority section; and every glue address is permitted and belongs to one of
  those names, which lies inside the zone the walk stands in.
\<close>

theorem referral_descends:
  assumes "walkTurn E r disabled qname qtype depth w s = (Inr (Refer f glue w' resp), s')"
  shows "isSubdomainOrEqual (unicodeOf E) qname (newZone f) \<and>
    isProperSubdomain (unicodeOf E) (newZone f) (wZone w') \<and> nsNames f \<noteq> [] \<and>
    (\<forall>n\<in>set (nsNames f). \<exists>rr\<in>set (Authorities resp). rrType rr = TypeNS \<and> rrClass rr = ClassIN \<and>
       isProperSubdomain (unicodeOf E) (rrName rr) (wZone w') \<and>
       isSubdomainOrEqual (unicodeOf E) qname (rrName rr) \<and> n = ToLower (unicodeOf E) (rrNS rr)) \<and>
    (\<forall>ip\<in>set glue. allowsUpstream r ip \<and> (\<exists>rr\<in>set (Additionals resp).
       ToLower (unicodeOf E) (rrName rr) \<in> set (nsNames f) \<and>
       isSubdomainOrEqual (unicodeOf E) (rrName rr) (wZone w') \<and> (rrA rr = Some ip \<or> rrAAAA rr = Some ip)))"
proof -
  from walkTurn_Refer [OF assms] obtain c m where c: "cUnicode c = unicodeOf E"
    and t: "referralTurn c r w' m resp qname qtype = Inr (Refer f glue w' resp)" by blast
  note f = referralTurn_Refer [OF t, unfolded c]
  have "referralOk (unicodeOf E) qname (wZone w') (Authorities resp) f"
    using f findReferral_ok by metis
  then show ?thesis using f glueAddrs_ok unfolding referralOk_def by blast
qed

definition referScript :: "byte list list" where
  "referScript = [replyBytes (lit ''a'') TypeA [] [rrBytes (lit ''a'') TypeNS (nameBytes (lit ''ns.a''))]]"

theorem referral_descends_witness:
  "isSubdomainOrEqual plainUnicode (lit ''a'') (lit ''a'') \<and> isProperSubdomain plainUnicode (lit ''a'') [dot]"
proof -
  let ?turn = "walkTurn scripted exampleResolver False (lit ''a'') TypeA 0 (exampleWalk\<lparr>wSec := insecure\<rparr>)
    (newState referScript)"
  have "case fst ?turn of Inr (Refer f glue w resp) \<Rightarrow> newZone f = lit ''a'' \<and> wZone w = [dot] | _ \<Rightarrow> False"
    by code_simp
  moreover obtain x s' where x: "?turn = (x, s')" by (meson surj_pair)
  ultimately obtain f glue w resp
    where t: "?turn = (Inr (Refer f glue w resp), s')" and "newZone f = lit ''a''" "wZone w = [dot]"
    by (auto split: sum.splits turn.splits)
  with referral_descends [OF t] show ?thesis by (simp add: scripted_def)
qed

section \<open>What the checks of an answer do not notice\<close>

definition aliasRR :: RR where
  "aliasRR = zeroRR\<lparr>rrName := lit ''a.x'', rrType := TypeCNAME, rrClass := ClassIN, TTL := 300,
     rrCNAME := lit ''b.y'', Raw := nameBytes (lit ''b.y'')\<rparr>"

definition foreignRR :: RR where
  "foreignRR = zeroRR\<lparr>rrName := lit ''b.y'', rrType := TypeA, rrClass := ClassIN, TTL := 300,
     rrA := Some [192, 0, 2, 1]\<rparr>"

definition signedRR :: "gostr \<Rightarrow> u16 \<Rightarrow> gostr \<Rightarrow> RR" where
  "signedRR owner t signer = zeroRR\<lparr>rrName := owner, rrType := TypeRRSIG, rrClass := ClassIN, TTL := 300,
     Raw := rrsigFields (sampleSig\<lparr>TypeCovered := t, sigLabels := 2, SignerName := signer\<rparr>)
       @ nameBytes signer @ [1]\<rparr>"


end
