(* ===== verification/Descent_Facts.thy ===== *)
theory Descent_Facts
  imports Resolve_Facts Decode_Facts
begin

text \<open>
  Facts about the names a walk asks for on its way down: what minimisation reveals, and that the
  fuel of the descent to a signer is enough.
\<close>

section \<open>Shortened names\<close>

lemma splitName_joinDot_tail:
  assumes "ls \<noteq> []" "\<forall>l\<in>set ls. dot \<notin> set l" "last ls \<noteq> []"
  shows "splitName (joinDot ls) = ls"
proof -
  have l: "last (joinDot ls) = last (last ls)" "joinDot ls \<noteq> []" using last_joinDot [OF assms(1,3)] by simp_all
  moreover have "last (last ls) \<noteq> dot" using assms by (metis last_in_set)
  ultimately have "trimDot (joinDot ls) = joinDot ls" by (simp add: trimDot_def)
  then show ?thesis using l(2) assms(1,2) by (simp add: splitName_def splitDot_joinDot)
qed

text \<open>A name that does not end in an empty label.\<close>

definition endsInLabel :: "gostr \<Rightarrow> bool" where
  "endsInLabel n = (splitName n \<noteq> [] \<longrightarrow> last (splitName n) \<noteq> [])"

lemma splitName_minimized:
  assumes "endsInLabel qname" "length (splitName zone) < length (splitName qname)"
  shows "splitName (minimizedQName qname zone) =
    drop (length (splitName qname) - length (splitName zone) - 1) (splitName qname)"
proof -
  let ?k = "length (splitName qname) - length (splitName zone) - 1"
  let ?ls = "drop ?k (splitName qname)"
  have "?ls \<noteq> []" using assms(2) by simp
  moreover have "\<forall>l\<in>set ?ls. dot \<notin> set l"
    using splitDot_no_dot by (auto simp: splitName_def Let_def dest!: in_set_dropD split: if_splits)
  moreover have "last ?ls \<noteq> []" using assms by (auto simp: endsInLabel_def)
  ultimately have "splitName (joinDot ?ls) = ?ls" by (rule splitName_joinDot_tail)
  then show ?thesis using assms(2) by (simp add: minimizedQName_def Let_def)
qed

text \<open>
  (C32) What a server learns.  With minimisation on, a server is asked either for the labels of its
  zone and one more, with type A whatever the client wants to know, or, if no more than one
  label is left below the zone, for the question itself.
\<close>

theorem minimised_question:
  assumes "rMinimize r" "\<not> wMinimizeOff w" "endsInLabel qname" "isASCII qname"
    and "chooseQuestion u r qname qtype w = (ask, askType, minimizing)"
  shows "if minimizing then
      splitName ask = drop (length (splitName qname) - length (splitName (wZone w)) - 1) (splitName qname) \<and>
      length (splitName ask) = length (splitName (wZone w)) + 1 \<and> askType = TypeA
    else ask = qname \<and> askType = qtype \<and> length (splitName qname) \<le> length (splitName (wZone w)) + 1"
proof -
  let ?m = "minimizedQName qname (wZone w)"
  let ?full = "splitName qname" and ?zone = "splitName (wZone w)"
  have self: "equalName u qname qname" using assms(4) by (simp add: equalName_def EqualFold_def)
  show ?thesis
  proof (cases "equalName u ?m qname")
    case False
    then have long: "length ?zone < length ?full" using self by (auto simp: minimizedQName_def Let_def split: if_splits)
    have "minimizing" "ask = ?m" "askType = TypeA" using assms(1,2,5) False by (auto simp: chooseQuestion_def)
    then show ?thesis using splitName_minimized [OF assms(3) long] long by simp
  next
    case True
    have "length ?full \<le> length ?zone + 1"
    proof (rule ccontr)
      assume "\<not> ?thesis"
      then have long: "length ?zone < length ?full" "length ?zone + 1 < length ?full" by simp_all
      note m = splitName_minimized [OF assms(3) long(1)]
      have m': "?m = joinDot (drop (length ?full - length ?zone - 1) ?full)" using long by (simp add: minimizedQName_def Let_def)
      have "isASCII (trimDot qname)" using assms(4) by (auto simp: isASCII_def trimDot_def list_all_iff dest: in_set_butlastD)
      then have "\<forall>l\<in>set ?full. isASCII l" using isASCII_splitDot by (auto simp: splitName_def Let_def)
      then have "isASCII ?m" unfolding m' isASCII_joinDot by (auto dest: in_set_dropD)
      then have "canon ?m = canon qname" using True assms(4) by (simp add: equalName_iff)
      then have "length (splitName ?m) = length ?full" by (metis canon_def length_map)
      then show False using m long by simp
    qed
    moreover have "\<not> minimizing" "ask = qname" "askType = qtype" using assms(5) True by (auto simp: chooseQuestion_def)
    ultimately show ?thesis by simp
  qed
qed

theorem minimised_question_witness:
  "chooseQuestion plainUnicode exampleResolver (lit ''mail.example.org'') 15
     \<lparr>wZone = lit ''org'', wServers = [], wSec = insecure, wFromCache = False, wMinimizeOff = False\<rparr>
     = (lit ''example.org'', TypeA, True) \<and> length (splitName (lit ''example.org'')) = 2"
proof -
  let ?w = "\<lparr>wZone = lit ''org'', wServers = [], wSec = insecure, wFromCache = False, wMinimizeOff = False\<rparr>"
  have q: "chooseQuestion plainUnicode exampleResolver (lit ''mail.example.org'') 15 ?w = (lit ''example.org'', TypeA, True)"
    by code_simp
  have "rMinimize exampleResolver" "\<not> wMinimizeOff ?w" "endsInLabel (lit ''mail.example.org'')"
    "isASCII (lit ''mail.example.org'')" by code_simp+
  from minimised_question [OF this q] have "length (splitName (lit ''example.org'')) = length (splitName (wZone ?w)) + 1"
    unfolding if_True by blast
  moreover have "length (splitName (wZone ?w)) = 1" by code_simp
  ultimately show ?thesis using q by simp
qed

section \<open>The descent to a signer\<close>

lemma equalName_refl: "equalName u n n"
  by (simp add: equalName_def EqualFold_def)

text \<open>
  The loop of \<open>descendTo\<close> takes no more turns than its target has labels, and one more: with
  more fuel it does the same.
\<close>

lemma descendLoop_enough:
  assumes "endsInLabel to"
  shows "length (splitName to) - length (splitName zone) + 2 \<le> n \<Longrightarrow> n \<le> m \<Longrightarrow>
    descendLoop n E r sec zone to servers s = descendLoop m E r sec zone to servers s"
proof (induction n arbitrary: m sec zone s)
  case (Suc n)
  obtain m' where m: "m = Suc m'" "n \<le> m'" using Suc.prems by (cases m) auto
  let ?child = "minimizedQName to zone"
  have step: "descendLoop n E r sec' ?child to servers s' = descendLoop m' E r sec' ?child to servers s'" for sec' s'
  proof (cases "length (splitName to) \<le> length (splitName zone)")
    case True
    then have "?child = to" by (simp add: minimizedQName_def)
    moreover have "n \<noteq> 0" "m' \<noteq> 0" using Suc.prems m by auto
    ultimately show ?thesis by (cases n; cases m') (simp_all add: equalName_refl)
  next
    case False
    then have "length (splitName ?child) = length (splitName zone) + 1"
      using splitName_minimized [OF assms] by simp
    then have "length (splitName to) - length (splitName ?child) + 2 \<le> n" using Suc.prems(1) False by linarith
    then show ?thesis using Suc.IH m(2) by blast
  qed
  have "(\<lambda>next s. if \<not> secure next then (Inr insecure, s) else descendLoop n E r next ?child to servers s) =
      (\<lambda>next s. if \<not> secure next then (Inr insecure, s) else descendLoop m' E r next ?child to servers s)"
    by (intro ext) (simp add: step)
  then show ?case by (simp add: m(1) Let_def)
qed simp

lemma descendTo_enough:
  "endsInLabel to \<Longrightarrow> length (splitName to) + 2 \<le> n \<Longrightarrow>
     descendLoop n E r sec zone to servers s = descendTo E r sec zone to servers s"
  unfolding descendTo_def labelsOf_eq by (rule descendLoop_enough [symmetric]) auto

end
