(* ===== verification/Resolver_Handler.thy ===== *)
theory Resolver_Handler
  imports Resolve_Facts Handlers
begin

text \<open>
  The innermost handler (\<open>resolverhandler\<close>): a query becomes a resolution, and its outcome the
  response.  The world of the handler is the state of the resolver.  Logging is not modelled;
  a resolution that does not return writes nothing, and none does.
\<close>

section \<open>The handler\<close>

text \<open>The response before anything is known of the outcome.\<close>

definition emptyResponse :: "Message \<Rightarrow> Header" where
  "emptyResponse req =
     zeroHeader\<lparr>ID := ID (header req), QR := True, Opcode := Opcode (header req),
       RD := RD (header req), RA := True\<rparr>"

definition outcomeReply :: "Header \<Rightarrow> Question list \<Rightarrow> resolveErr + resolution \<Rightarrow> Message list" where
  "outcomeReply h qs x =
     (case x of
        Inr res \<Rightarrow>
          [(reply (h\<lparr>AD := resSecure res\<rparr>) qs)\<lparr>Answers := resAnswers res, Authorities := resAuthority res\<rparr>]
      | Inl ErrBogus \<Rightarrow> [reply (h\<lparr>RCode := RCodeServerFailure\<rparr>) qs]
      | Inl (NXDOMAINError _ soa) \<Rightarrow>
          [(reply (h\<lparr>RCode := RCodeNameError\<rparr>) qs)
             \<lparr>Authorities := (case soa of Some rr \<Rightarrow> [rr] | None \<Rightarrow> [])\<rparr>]
      | Inl ErrFailed \<Rightarrow> [reply (h\<lparr>RCode := RCodeServerFailure\<rparr>) qs]
      | Inl Hangs \<Rightarrow> [])"

definition resolverServe :: "'n env \<Rightarrow> resolver \<Rightarrow> 'n rstate handler" where
  "resolverServe E r addr req s =
     (let h = emptyResponse req; qs = Questions req in
      if Opcode (header req) \<noteq> 0 then ([reply (h\<lparr>RCode := RCodeNotImplemented\<rparr>) qs], s)
      else if length qs \<noteq> 1 then ([reply (h\<lparr>RCode := RCodeFormatError\<rparr>) qs], s)
      else let q = hd qs; h = h\<lparr>CD := CD (header req)\<rparr> in
        case ResolveRR E r (CD (header req)) (qName q) (qType q) s of
          (x, s) \<Rightarrow> (outcomeReply h qs x, s))"

section \<open>Facts\<close>

lemma emptyResponse_simps [simp]:
  "ID (emptyResponse req) = ID (header req)" "QR (emptyResponse req)"
  "Opcode (emptyResponse req) = Opcode (header req)" "RD (emptyResponse req) = RD (header req)"
  "RA (emptyResponse req)" "\<not> AD (emptyResponse req)" "RCode (emptyResponse req) = 0"
  by (simp_all add: emptyResponse_def zeroHeader_def)

text \<open>What the outcome of a resolution has to look like to the client.\<close>

definition tells :: "resolveErr + resolution \<Rightarrow> Message \<Rightarrow> bool" where
  "tells x resp =
     (case x of
        Inr res \<Rightarrow> RCode (header resp) = RCodeSuccess \<and> AD (header resp) = resSecure res \<and>
          Answers resp = resAnswers res \<and> Authorities resp = resAuthority res
      | Inl (NXDOMAINError _ soa) \<Rightarrow> RCode (header resp) = RCodeNameError \<and> \<not> AD (header resp) \<and>
          Answers resp = [] \<and> Authorities resp = (case soa of Some rr \<Rightarrow> [rr] | None \<Rightarrow> [])
      | Inl _ \<Rightarrow> RCode (header resp) = RCodeServerFailure \<and> \<not> AD (header resp) \<and>
          Answers resp = [] \<and> Authorities resp = [])"

lemma outcomeReply_tells:
  assumes "x \<noteq> Inl Hangs" "\<not> AD h" "RCode h = 0"
  shows "\<exists>resp. outcomeReply h qs x = [resp] \<and> tells x resp \<and> Questions resp = qs \<and> Additionals resp = [] \<and>
    ID (header resp) = ID h \<and> QR (header resp) = QR h \<and> Opcode (header resp) = Opcode h \<and>
    RD (header resp) = RD h \<and> RA (header resp) = RA h \<and> CD (header resp) = CD h"
  using assms by (auto simp: outcomeReply_def tells_def split: sum.splits resolveErr.splits)

lemma handler_replies:
  assumes "stateOk E r (\<lambda>_. True) s"
  shows "\<exists>resp. fst (resolverServe E r addr req s) = [resp] \<and>
    ID (header resp) = ID (header req) \<and> QR (header resp) \<and> RA (header resp) \<and>
    Opcode (header resp) = Opcode (header req) \<and> RD (header resp) = RD (header req) \<and>
    Questions resp = Questions req \<and> Additionals resp = [] \<and>
    (if Opcode (header req) \<noteq> 0 \<or> length (Questions req) \<noteq> 1 then
       RCode (header resp) = (if Opcode (header req) \<noteq> 0 then RCodeNotImplemented else RCodeFormatError) \<and>
       \<not> AD (header resp) \<and> Answers resp = [] \<and> snd (resolverServe E r addr req s) = s
     else CD (header resp) = CD (header req) \<and>
       tells (fst (ResolveRR E r (CD (header req)) (qName (hd (Questions req))) (qType (hd (Questions req))) s)) resp)"
proof (cases "Opcode (header req) \<noteq> 0 \<or> length (Questions req) \<noteq> 1")
  case True
  then show ?thesis by (auto simp: resolverServe_def Let_def)
next
  case False
  obtain x s' where x: "ResolveRR E r (CD (header req)) (qName (hd (Questions req)))
      (qType (hd (Questions req))) s = (x, s')" by (meson surj_pair)
  have "x \<noteq> Inl Hangs" using anyWorld.resolution_keeps(1) [OF refl refl assms x [unfolded ResolveRR_def]] by blast
  from outcomeReply_tells [OF this, of "(emptyResponse req)\<lparr>CD := CD (header req)\<rparr>" "Questions req"]
  show ?thesis using False x by (auto simp: resolverServe_def Let_def)
qed

text \<open>
  (C10) One answer to every query.  In every reachable state the handler writes exactly one
  message: a response with the ID, opcode, RD and questions of the request.  An opcode other
  than QUERY is told NOTIMP and a request without exactly one question FORMERR, and neither
  is resolved; for the rest, CD is echoed, an answer becomes NOERROR with AD just when it is
  secure, a name that does not exist NXDOMAIN with the SOA, and every other error, a failed
  validation among them, SERVFAIL with empty sections.
\<close>

theorem handler_answers_once:
  assumes "resolverRun E r s"
  shows "\<exists>resp. fst (resolverServe E r addr req s) = [resp] \<and>
    ID (header resp) = ID (header req) \<and> QR (header resp) \<and> RA (header resp) \<and>
    Opcode (header resp) = Opcode (header req) \<and> RD (header resp) = RD (header req) \<and>
    Questions resp = Questions req \<and> Additionals resp = [] \<and>
    (if Opcode (header req) \<noteq> 0 \<or> length (Questions req) \<noteq> 1 then
       RCode (header resp) = (if Opcode (header req) \<noteq> 0 then RCodeNotImplemented else RCodeFormatError) \<and>
       \<not> AD (header resp) \<and> Answers resp = [] \<and> snd (resolverServe E r addr req s) = s
     else CD (header resp) = CD (header req) \<and>
       tells (fst (ResolveRR E r (CD (header req)) (qName (hd (Questions req))) (qType (hd (Questions req))) s)) resp)"
  by (rule handler_replies [OF resolverRun_ok [OF assms]])

theorem handler_answers_once_witness:
  "\<exists>resp. fst (resolverServe scripted exampleResolver (UDPAddr [127, 0, 0, 1])
       (reply (zeroHeader\<lparr>ID := 5, Opcode := 5\<rparr>) []) (newState secureScript)) = [resp] \<and>
     ID (header resp) = 5 \<and> RCode (header resp) = RCodeNotImplemented"
  using handler_answers_once [OF example_run, of "UDPAddr [127, 0, 0, 1]" "reply (zeroHeader\<lparr>ID := 5, Opcode := 5\<rparr>) []"]
  by auto

end
