(* ===== verification/Unchecked_Facts.thy ===== *)
theory Unchecked_Facts
  imports Resolver_Handler
begin

text \<open>
  Resolution without validation: when it is switched off, or when the client asks for it with
  the CD bit (\<open>WithoutValidation\<close>).
\<close>

section \<open>One turn\<close>

text \<open>An outcome that claims no validation and does not fail for want of it.\<close>

definition notChecked :: "resolveErr + resolution \<Rightarrow> bool" where
  "notChecked x = (case x of Inl e \<Rightarrow> e \<noteq> ErrBogus | Inr res \<Rightarrow> \<not> resSecure res)"

definition uncheckedTurn :: "resolveErr + turn \<Rightarrow> bool" where
  "uncheckedTurn t =
     (case t of
        Inl e \<Rightarrow> e \<noteq> ErrBogus
      | Inr (Final res) \<Rightarrow> \<not> resSecure res
      | Inr (Again w) \<Rightarrow> \<not> secure (wSec w)
      | Inr (Chase _ _ sec _) \<Rightarrow> \<not> secure sec
      | Inr (Refer _ _ w _) \<Rightarrow> \<not> secure (wSec w))"

lemma queryLoop_fails: "queryLoop E r qname qtype queue s = (Inl e, s') \<Longrightarrow> e = ErrFailed"
  by (induction queue arbitrary: s) (auto split: if_splits prod.splits sum.splits)

lemma queryServers_fails: "queryServers E r servers qname qtype s = (Inl e, s') \<Longrightarrow> e = ErrFailed"
  by (auto simp: queryServers_def dest: queryLoop_fails split: prod.splits)

lemma followChain_fails: "followChain u rrs qtype c chain name = Inl e \<Longrightarrow> e = ErrFailed"
proof (induction u rrs qtype c chain name rule: followChain.induct)
  case (1 u rrs qtype c chain name)
  from "1.prems" show ?case
    by (subst (asm) followChain.simps) (auto simp: Let_def split: if_splits dest!: "1.IH" [rotated -1])
qed

lemma insecure_checks [simp]:
  "\<not> secure sec \<Longrightarrow> checkDenial c sec sct prove = Inr False"
  "\<not> secure sec \<Longrightarrow> validateAnswer c sec resp records = Inr False"
  "\<not> secure insecure"
  by (simp_all add: checkDenial_def validateAnswer_def insecure_def)

lemma referralTurn_unchecked: "\<not> secure (wSec w) \<Longrightarrow> uncheckedTurn (referralTurn c r w m resp qname qtype)"
  by (simp add: referralTurn_def nodataTurn_def uncheckedTurn_def Let_def)

lemma fullTurn_unchecked: "\<not> secure (wSec w) \<Longrightarrow> uncheckedTurn (fullTurn c r depth w resp qname qtype)"
  using referralTurn_unchecked [of w c r False resp qname qtype]
  by (auto simp: fullTurn_def answerTurn_def uncheckedTurn_def newNXDOMAINError_def
      dest: followChain_fails split: sum.splits)

section \<open>The walk\<close>

text \<open>Nothing is checked in these modes.\<close>

abbreviation unchecking :: "resolver \<Rightarrow> bool \<Rightarrow> bool" where
  "unchecking r disabled \<equiv> disabled \<or> \<not> rValidate r"

lemma startingSecurity_unchecked:
  "unchecking r disabled \<Longrightarrow> startingSecurity E r disabled zone servers s = (Inr insecure, s)"
  by (auto simp: startingSecurity_def)

lemma fromRoot_unchecked:
  "unchecking r disabled \<Longrightarrow> fromRoot E r disabled off s = (y, s') \<Longrightarrow> \<exists>w. y = Inr w \<and> \<not> secure (wSec w)"
  by (auto simp: fromRoot_def Let_def andThen_def startingSecurity_unchecked)

lemma beginWalk_unchecked:
  "unchecking r disabled \<Longrightarrow> beginWalk E r disabled qname s = (y, s') \<Longrightarrow> \<exists>w. y = Inr w \<and> \<not> secure (wSec w)"
  by (auto simp: beginWalk_def andThen_def startingSecurity_unchecked split: prod.splits)

lemma silentTurn_unchecked:
  assumes "unchecking r disabled" "\<not> secure (wSec w)" "e \<noteq> ErrBogus" "silentTurn E r disabled m w e s = (y, s')"
  shows "uncheckedTurn y"
proof (cases "\<not> m \<and> wFromCache w")
  case True
  let ?s = "s\<lparr>sDelegations := forget (unicodeOf E) (sDelegations s) (wZone w)\<rparr>"
  obtain w' s1 where "fromRoot E r disabled (wMinimizeOff w) ?s = (Inr w', s1)" "\<not> secure (wSec w')"
    using fromRoot_unchecked [OF assms(1)] by (metis surj_pair)
  then show ?thesis using assms(4) True by (auto simp: silentTurn_def andThen_def uncheckedTurn_def)
next
  case False
  then show ?thesis using assms by (auto simp: silentTurn_def uncheckedTurn_def split: if_splits)
qed

lemma walkTurn_unchecked:
  assumes "unchecking r disabled" "\<not> secure (wSec w)" "walkTurn E r disabled qname qtype depth w s = (y, s')"
  shows "uncheckedTurn y"
proof -
  obtain ask askType m where q: "chooseQuestion (unicodeOf E) r qname qtype w = (ask, askType, m)"
    by (metis prod.exhaust)
  obtain z s1 where z: "queryServers E r (wServers w) ask askType s = (z, s1)" by (meson surj_pair)
  show ?thesis
  proof (cases z)
    case (Inl e)
    then have "silentTurn E r disabled m w e s1 = (y, s')" using assms(3) q z by (simp add: walkTurn_def)
    moreover have "e \<noteq> ErrBogus" using queryServers_fails z Inl by blast
    ultimately show ?thesis using silentTurn_unchecked assms(1,2) by blast
  next
    case (Inr p)
    then obtain resp ip where p: "z = Inr (resp, ip)" by (cases p) auto
    have d: "descendToSigner E r w resp qname s1 = (Inr w, s1)" using assms(2) by (simp add: descendToSigner_def Let_def)
    consider "m" "RCode (header resp) \<noteq> RCodeSuccess" | "m" "RCode (header resp) = RCodeSuccess" | "\<not> m" by blast
    then show ?thesis
    proof cases
      case 1
      then show ?thesis using assms(2,3) q z p by (auto simp: walkTurn_def uncheckedTurn_def)
    next
      case 2
      then show ?thesis using assms(3) q z p referralTurn_unchecked [OF assms(2)] by (auto simp: walkTurn_def)
    next
      case 3
      then have "y = fullTurn (checksOf E r s1) r depth w resp qname qtype"
        using assms(3) q z p d by (auto simp: walkTurn_def andThen_def)
      then show ?thesis using fullTurn_unchecked [OF assms(2)] by simp
    qed
  qed
qed

lemma enterReferral_unchecked:
  assumes "\<not> secure (wSec w)" "enterReferral E r disabled w resp f servers s = (y, s')"
  shows "case y of Inl e \<Rightarrow> e \<noteq> ErrBogus | Inr w' \<Rightarrow> \<not> secure (wSec w')"
  using assms
  by (auto simp: enterReferral_def crossDelegation_def rememberDelegation_def andThen_def
      split: if_splits option.splits sum.splits)

lemma glueServers_fails: "glueServers E r disabled nss g s = (Inl e, s') \<Longrightarrow> e = ErrFailed"
proof (induction nss arbitrary: s)
  case Nil
  then show ?case by (simp add: glueServers.simps split: if_splits)
next
  case (Cons ns nss)
  then show ?case
    by (subst (asm) glueServers.simps) (auto split: if_splits prod.splits sum.splits)
qed

lemma joinChain_unchecked: "\<not> secure sec \<Longrightarrow> notChecked (joinChain c sec resp chain res)"
  by (simp add: joinChain_def notChecked_def)

text \<open>One turn of the loop in these modes, and what is left to show of the rest of it.\<close>

lemma walkLoop_unchecked_step:
  assumes "unchecking r disabled" "\<not> secure (wSec w)"
    and loop: "walkLoop E r disabled qname qtype depth g n w s = (x, s')"
    and again: "\<And>w1 s1. \<not> ctxErr E (sNet s) \<Longrightarrow> \<not> n \<ge> maxReferrals \<Longrightarrow>
      walkTurn E r disabled qname qtype depth w s = (Inr (Again w1), s1) \<Longrightarrow> \<not> secure (wSec w1) \<Longrightarrow>
      walkLoop E r disabled qname qtype depth g (n + 1) w1 s1 = (x, s') \<Longrightarrow> notChecked x"
    and chase: "\<And>name chain sec resp s1 e s2. \<not> ctxErr E (sNet s) \<Longrightarrow> \<not> n \<ge> maxReferrals \<Longrightarrow>
      walkTurn E r disabled qname qtype depth w s = (Inr (Chase name chain sec resp), s1) \<Longrightarrow>
      resolve E r disabled name qtype (depth + length chain) g s1 = (Inl e, s2) \<Longrightarrow> e \<noteq> ErrBogus"
    and enter: "\<And>f glue w1 resp s1 s2 servers w2 s3. \<not> ctxErr E (sNet s) \<Longrightarrow> \<not> n \<ge> maxReferrals \<Longrightarrow>
      walkTurn E r disabled qname qtype depth w s = (Inr (Refer f glue w1 resp), s1) \<Longrightarrow>
      (if glue \<noteq> [] then (Inr glue, s1)
       else (case withNet (rangeNames E (nsNames f)) s1 of (nss, s) \<Rightarrow> glueServers E r disabled nss g s))
        = (Inr servers, s2) \<Longrightarrow> servers \<noteq> [] \<Longrightarrow>
      enterReferral E r disabled w1 resp f servers s2 = (Inr w2, s3) \<Longrightarrow> \<not> secure (wSec w2) \<Longrightarrow>
      walkLoop E r disabled qname qtype depth g (n + 1) w2 s3 = (x, s') \<Longrightarrow> notChecked x"
  shows "notChecked x"
proof (cases "ctxErr E (sNet s) \<or> n \<ge> maxReferrals")
  case True
  then show ?thesis using loop by (auto simp: walkLoop.simps [of E r disabled qname qtype depth g n w s] notChecked_def split: if_splits)
next
  case False
  obtain y s1 where y: "walkTurn E r disabled qname qtype depth w s = (y, s1)" by (meson surj_pair)
  note t = walkTurn_unchecked [OF assms(1,2) y]
  note rest = loop [unfolded walkLoop.simps [of E r disabled qname qtype depth g n w s]]
  consider e where "y = Inl e" | res where "y = Inr (Final res)" | w1 where "y = Inr (Again w1)"
    | name chain sec resp where "y = Inr (Chase name chain sec resp)"
    | f glue w1 resp where "y = Inr (Refer f glue w1 resp)"
    by (metis sum.exhaust turn.exhaust)
  then show ?thesis
  proof cases
    case 1
    then show ?thesis using rest False y t by (auto simp: notChecked_def uncheckedTurn_def)
  next
    case 2
    then show ?thesis using rest False y t by (auto simp: notChecked_def uncheckedTurn_def)
  next
    case 3
    then show ?thesis using rest False y t again by (auto simp: uncheckedTurn_def)
  next
    case 4
    obtain z s2 where z: "resolve E r disabled name qtype (depth + length chain) g s1 = (z, s2)" by (meson surj_pair)
    show ?thesis
    proof (cases z)
      case (Inl e)
      then have "x = Inl e" using rest False y 4 z by simp
      then show ?thesis using chase [of name chain sec resp s1 e s2] y 4 z Inl False by (simp add: notChecked_def)
    next
      case (Inr res)
      then have "x = joinChain (checksOf E r s2) sec resp chain res" using rest False y 4 z by auto
      then show ?thesis using joinChain_unchecked t 4 by (simp add: uncheckedTurn_def)
    qed
  next
    case 5
    let ?G = "if glue \<noteq> [] then (Inr glue, s1)
       else (case withNet (rangeNames E (nsNames f)) s1 of (nss, s) \<Rightarrow> glueServers E r disabled nss g s)"
    obtain z s2 where z: "?G = (z, s2)" by (meson surj_pair)
    have w1: "\<not> secure (wSec w1)" using t 5 by (simp add: uncheckedTurn_def)
    have "z \<noteq> Inl ErrBogus" using z glueServers_fails by (fastforce split: if_splits prod.splits)
    have go: "(case z of Inl e \<Rightarrow> (Inl e, s2) | Inr servers \<Rightarrow>
        if servers = [] then (Inl ErrFailed, s2)
        else (case enterReferral E r disabled w1 resp f servers s2 of
            (Inl e, s) \<Rightarrow> (Inl e, s)
          | (Inr w, s) \<Rightarrow> walkLoop E r disabled qname qtype depth g (n + 1) w s)) = (x, s')"
      using rest False y 5 z by (auto split: sum.splits)
    show ?thesis
    proof (cases z)
      case (Inl e)
      then show ?thesis using go \<open>z \<noteq> Inl ErrBogus\<close> by (auto simp: notChecked_def)
    next
      case (Inr servers)
      show ?thesis
      proof (cases "servers = []")
        case True
        then show ?thesis using go Inr by (auto simp: notChecked_def)
      next
        case ne: False
        obtain v s3 where v: "enterReferral E r disabled w1 resp f servers s2 = (v, s3)" by (meson surj_pair)
        note k = enterReferral_unchecked [OF w1 v]
        show ?thesis
        proof (cases v)
          case (Inl e)
          then show ?thesis using go Inr ne v k by (auto simp: notChecked_def)
        next
          case v': (Inr w2)
          then have "walkLoop E r disabled qname qtype depth g (n + 1) w2 s3 = (x, s')" using go Inr ne v by simp
          then show ?thesis using enter [of f glue w1 resp s1 servers s2 w2 s3] False y 5 z Inr ne v v' k by simp
        qed
      qed
    qed
  qed
qed

lemma resolve_unchecked:
  "unchecking r disabled \<Longrightarrow> resolve E r disabled qname qtype depth g s = (x, s') \<Longrightarrow> notChecked x"
  "unchecking r disabled \<Longrightarrow> \<not> secure (wSec w) \<Longrightarrow>
     walkLoop E r disabled qname qtype depth g n w s = (x, s') \<Longrightarrow> notChecked x"
  "glueServers E r disabled nss g s = (Inl e, s') \<Longrightarrow> e = ErrFailed"
proof (induction E r disabled qname qtype depth g s and E r disabled qname qtype depth g n w s
    and E r disabled nss g s arbitrary: x s' and x s' and e s' rule: resolve_walkLoop_glueServers.induct)
  case (1 E r disabled qname qtype depth g s)
  obtain y s1 where y: "beginWalk E r disabled qname s = (y, s1)" by (meson surj_pair)
  obtain w where w: "y = Inr w" "\<not> secure (wSec w)" using beginWalk_unchecked [OF "1.prems"(1) y] by blast
  then have "walkLoop E r disabled qname qtype depth g 0 w s1 = (x, s')"
    using "1.prems"(2) y by (simp add: resolve.simps)
  then show ?case using "1.IH" [of y s1 w] "1.prems"(1) y w by simp
next
  case (2 E r disabled qname qtype depth g n w s)
  show ?case
  proof (rule walkLoop_unchecked_step [OF "2.prems"], goal_cases)
    case (1 w1 s1)
    show ?case using "2.IH"(1) [OF 1(1,2) 1(3) [symmetric] refl refl] 1 "2.prems"(1) by blast
  next
    case (2 name chain sec resp s1 e s2)
    show ?case using "2.IH"(2) [OF 2(1,2) 2(3) [symmetric] refl refl] 2(4) "2.prems"(1) by (fastforce simp: notChecked_def)
  next
    case (3 f glue w1 resp s1 s2 servers w2 s3)
    show ?case using "2.IH"(4) [OF 3(1,2) 3(3) [symmetric] refl refl 3(4) [symmetric] refl 3(5) 3(6) [symmetric] refl]
        3 "2.prems"(1) by blast
  qed
qed (rule glueServers_fails)

section \<open>Properties\<close>

text \<open>
  (C4) Without validation.  If validation is switched off, or the client set CD, no answer is
  called secure and so none has the AD bit, whatever the caches hold and the servers send; and
  no query fails because data is bogus.
\<close>

theorem checking_disabled:
  assumes "CD (header req) \<or> \<not> rValidate r" "resolverServe E r addr req s = (msgs, s')"
  shows "list_all (\<lambda>m. \<not> AD (header m)) msgs \<and>
    fst (ResolveRR E r (CD (header req)) qname qtype s) \<noteq> Inl ErrBogus"
proof -
  have u: "notChecked (fst (ResolveRR E r (CD (header req)) qn qt s))" for qn qt
    using resolve_unchecked(1) [OF assms(1)] unfolding ResolveRR_def by (metis surjective_pairing)
  obtain x s1 where x: "ResolveRR E r (CD (header req)) (qName (hd (Questions req))) (qType (hd (Questions req))) s = (x, s1)"
    by (meson surj_pair)
  then have "notChecked x" using u by (metis fst_conv)
  then have "list_all (\<lambda>m. \<not> AD (header m)) (outcomeReply ((emptyResponse req)\<lparr>CD := CD (header req)\<rparr>) (Questions req) x)"
    by (auto simp: notChecked_def outcomeReply_def split: sum.splits resolveErr.splits)
  then have "list_all (\<lambda>m. \<not> AD (header m)) msgs"
    using assms(2) x by (auto simp: resolverServe_def Let_def split: if_splits)
  then show ?thesis using u [of qname qtype] by (auto simp: notChecked_def split: sum.splits)
qed

theorem checking_disabled_witness:
  "let req = reply (zeroHeader\<lparr>CD := True\<rparr>) [\<lparr>qName = lit ''a'', qType = TypeA, qClass = ClassIN\<rparr>] in
   list_all (\<lambda>m. \<not> AD (header m)) (fst (resolverServe scripted exampleResolver (UDPAddr [127, 0, 0, 1]) req (newState secureScript)))"
proof -
  let ?req = "reply (zeroHeader\<lparr>CD := True\<rparr>) [\<lparr>qName = lit ''a'', qType = TypeA, qClass = ClassIN\<rparr>]"
  obtain msgs s' where run: "resolverServe scripted exampleResolver (UDPAddr [127, 0, 0, 1]) ?req (newState secureScript) = (msgs, s')"
    by (meson surj_pair)
  have "CD (header ?req) \<or> \<not> rValidate exampleResolver" by simp
  from checking_disabled [OF this run] run show ?thesis by (simp add: Let_def)
qed

end
