(* ===== verification/Anchor_Facts.thy ===== *)
theory Anchor_Facts
  imports Trust_Anchors
begin

text \<open>
  Facts about trust anchors: the compiled-in anchor exists, and a file that lists DS records in
  the presentation format, with comments, is read back as those records.
\<close>

section \<open>The compiled-in anchor\<close>

lemma RootAnchors_defined: "\<exists>ds. RootAnchors = Some [ds] \<and> length (Digest ds) = 32 \<and> DigestType ds = 2"
proof -
  have "(case DecodeString rootKSK2017Digest of Some d \<Rightarrow> length d = 32 | None \<Rightarrow> False)" by code_simp
  then show ?thesis by (auto simp: RootAnchors_def split: option.splits)
qed

section \<open>The presentation format\<close>

fun decimal :: "nat \<Rightarrow> gostr" where
  "decimal n = (if n < 10 then [48 + word_of_nat n] else decimal (n div 10) @ [48 + word_of_nat (n mod 10)])"

declare decimal.simps [simp del]

definition hexDigit :: "byte \<Rightarrow> byte" where
  "hexDigit d = (if d < 10 then d + 48 else d + 55)"

definition hexString :: "byte list \<Rightarrow> gostr" where
  "hexString bs = concat (map (\<lambda>b. [hexDigit (drop_bit 4 b), hexDigit (b AND 15)]) bs)"

definition formatDS :: "DS \<Rightarrow> gostr" where
  "formatDS ds = [46, 32, 73, 78, 32, 68, 83, 32] @ decimal (unat (dsKeyTag ds)) @ 32 # decimal (unat (dsAlgorithm ds))
     @ 32 # decimal (unat (DigestType ds)) @ 32 # hexString (Digest ds)"

datatype anchorLine = Comment gostr | Record DS gostr

fun formatLine :: "anchorLine \<Rightarrow> gostr" where
  "formatLine (Comment c) = 59 # c"
| "formatLine (Record ds c) = formatDS ds @ 59 # c"

fun recordOf :: "anchorLine \<Rightarrow> DS list" where
  "recordOf (Comment c) = []"
| "recordOf (Record ds c) = [ds]"

fun writable :: "anchorLine \<Rightarrow> bool" where
  "writable (Comment c) = (10 \<notin> set c)"
| "writable (Record ds c) = (10 \<notin> set c \<and> Digest ds \<noteq> [])"

definition formatFile :: "anchorLine list \<Rightarrow> gostr" where
  "formatFile ls = concat (map (\<lambda>l. formatLine l @ [10]) ls)"

section \<open>Numbers and digests\<close>

lemma unat_digit: "d < 10 \<Longrightarrow> unat (48 + word_of_nat d :: byte) = 48 + d"
  by (simp add: unat_word_ariths unat_of_nat)

lemma decimal_digits: "b \<in> set (decimal n) \<Longrightarrow> 48 \<le> b \<and> b \<le> 57"
proof (induction n rule: decimal.induct)
  case (1 n)
  have digit: "48 \<le> (48 + word_of_nat d :: byte) \<and> (48 + word_of_nat d :: byte) \<le> 57" if "d < 10" for d
    using unat_digit [OF that] that by (simp add: word_le_nat_alt)
  show ?case
  proof (cases "n < 10")
    case True
    then show ?thesis using "1.prems" digit by (auto simp: decimal.simps [of n])
  next
    case False
    then show ?thesis using "1.prems" "1.IH" digit [of "n mod 10"] by (auto simp: decimal.simps [of n])
  qed
qed

lemma decimal_nonempty [simp]: "decimal n \<noteq> []"
  by (simp add: decimal.simps [of n])

lemma foldl_decimal: "foldl (\<lambda>n (b :: byte). 10 * n + (unat b - 48)) 0 (decimal n) = n"
proof (induction n rule: decimal.induct)
  case (1 n)
  then show ?case
    using unat_digit [of n] unat_digit [of "n mod 10"] by (cases "n < 10") (auto simp: decimal.simps [of n])
qed

lemma ParseUint_decimal: "n < 2 ^ bits \<Longrightarrow> ParseUint (decimal n) bits = Some n"
proof -
  have "\<not> list_ex (\<lambda>b. b < 48 \<or> 57 < b) (decimal n)"
    using decimal_digits by (fastforce simp: list_ex_iff)
  then show "n < 2 ^ bits \<Longrightarrow> ?thesis" by (simp add: ParseUint_def foldl_decimal)
qed

lemma hexDigit_cases:
  assumes "d < 16"
  shows "hexValue (hexDigit d) = Some d \<and> 48 \<le> hexDigit d \<and> hexDigit d \<le> 70"
proof -
  have "unat d \<in> set [0..<16]" using assms by (simp add: word_less_nat_alt)
  then have "d \<in> word_of_nat ` set [0..<16]" by (rule rev_image_eqI) simp
  moreover have "\<forall>n\<in>set [0..<16]. hexValue (hexDigit (word_of_nat n)) = Some (word_of_nat n) \<and>
      48 \<le> hexDigit (word_of_nat n) \<and> hexDigit (word_of_nat n) \<le> 70" by code_simp
  ultimately show ?thesis by blast
qed

lemma nibbles: "drop_bit 4 (b :: byte) < 16" "(b :: byte) AND 15 < 16"
proof -
  show "drop_bit 4 b < 16" using unsigned_less [of b, where ?'a = nat]
    by (simp add: word_less_nat_alt drop_bit_eq_div unat_div)
  show "b AND 15 < 16" using word_and_le1 [of b 15] by (simp add: word_less_nat_alt word_le_nat_alt)
qed

lemma DecodeString_hexString: "DecodeString (hexString bs) = Some bs"
proof (induction bs)
  case (Cons b bs)
  have "push_bit 4 (drop_bit 4 b) OR (b AND 15) = b"
  proof -
    have "b AND 15 = take_bit 4 b" by (simp add: take_bit_eq_mask mask_eq_exp_minus_1)
    then show ?thesis by (auto simp: bit_eq_iff bit_simps)
  qed
  then show ?case using Cons hexDigit_cases [OF nibbles(1) [of b]] hexDigit_cases [OF nibbles(2) [of b]]
    by (simp add: hexString_def)
qed (simp add: hexString_def)

lemma hexString_digits: "x \<in> set (hexString bs) \<Longrightarrow> 48 \<le> x \<and> x \<le> 70"
  using hexDigit_cases nibbles by (auto simp: hexString_def)

section \<open>Words and lines\<close>

text \<open>A word is not empty and has only visible ASCII characters, and no semicolon.\<close>

definition word :: "gostr \<Rightarrow> bool" where
  "word w = (w \<noteq> [] \<and> (\<forall>b\<in>set w. 33 \<le> b \<and> b \<le> 126 \<and> b \<noteq> 59))"

lemma word_lit: "word [46]" "word [73, 78]" "word [68, 83]"
  by (simp_all add: word_def)

lemma word_decimal: "word (decimal n)"
  unfolding word_def using decimal_digits by (fastforce simp: word_le_nat_alt)

lemma hexString_nonempty: "bs \<noteq> [] \<Longrightarrow> hexString bs \<noteq> []"
  by (cases bs) (simp_all add: hexString_def)

lemma hexDigit_not_semicolon: "d < 16 \<Longrightarrow> hexDigit d \<noteq> 59"
  using hexDigit_cases [of d] by (auto simp: hexValue_def)

lemma word_hexString: "bs \<noteq> [] \<Longrightarrow> word (hexString bs)"
  using hexString_digits [of _ bs] hexDigit_not_semicolon nibbles
  by (fastforce simp: word_def hexString_nonempty word_le_nat_alt hexString_def)

lemma word_not_space: "word w \<Longrightarrow> b \<in> set w \<Longrightarrow> \<not> isSpace b \<and> b < 128 \<and> b \<noteq> 59 \<and> b \<noteq> 10 \<and> b \<noteq> 13"
  by (fastforce simp: word_def isSpace_def word_le_nat_alt word_less_nat_alt)

lemma fieldsASCII_word:
  assumes "list_all (\<lambda>b. \<not> isSpace b) w" "w \<noteq> []" "rest = [] \<or> isSpace (hd rest)"
  shows "fieldsASCII (w @ rest) = w # fieldsASCII rest"
  using assms
proof (induction w)
  case (Cons b w)
  then show ?case by (cases w) auto
qed simp

text \<open>Words with a space between them.\<close>

fun spaced :: "gostr list \<Rightarrow> gostr" where
  "spaced [] = []"
| "spaced [w] = w"
| "spaced (w # ws) = w @ 32 # spaced ws"

lemma fieldsASCII_spaced: "list_all word ws \<Longrightarrow> fieldsASCII (spaced ws) = ws"
proof (induction ws rule: spaced.induct)
  case (2 w)
  then show ?case using fieldsASCII_word [of w "[]"] word_not_space [of w]
    by (auto simp: list_all_iff word_def)
next
  case (3 w v ws)
  have "isSpace 32" by (simp add: isSpace_def)
  then show ?case using 3 fieldsASCII_word [of w "32 # spaced (v # ws)"] word_not_space [of w]
    by (auto simp: list_all_iff word_def)
qed simp

lemma spaced_chars: "list_all word ws \<Longrightarrow> b \<in> set (spaced ws) \<Longrightarrow> b < 128 \<and> b \<noteq> 59 \<and> b \<noteq> 10"
  by (induction ws rule: spaced.induct) (auto dest: word_not_space)

definition wordsOf :: "DS \<Rightarrow> gostr list" where
  "wordsOf ds = [[46], [73, 78], [68, 83], decimal (unat (dsKeyTag ds)), decimal (unat (dsAlgorithm ds)),
     decimal (unat (DigestType ds)), hexString (Digest ds)]"

lemma formatDS_spaced: "formatDS ds = spaced (wordsOf ds)"
  by (simp add: formatDS_def wordsOf_def)

lemma words_wordsOf: "Digest ds \<noteq> [] \<Longrightarrow> list_all word (wordsOf ds)"
  by (simp add: wordsOf_def word_lit word_decimal word_hexString)

lemma parseDSLine_words:
  assumes "Digest ds \<noteq> []"
  shows "parseDSLine u (wordsOf ds) = Inr ds"
proof -
  have "equalName u [46] [dot]" by (simp add: equalName_def trimDot_def dot_def EqualFold_def isASCII_def)
  moreover have "EqualFold u [68, 83] (lit ''DS'')" "\<not> EqualFold u [46] (lit ''DS'')" "\<not> EqualFold u [73, 78] (lit ''DS'')"
    unfolding EqualFold_def by code_simp+
  moreover have "unat x < 2 ^ 16" "unat y < 2 ^ 8" for x :: u16 and y :: byte
    using unsigned_less [of x, where ?'a = nat] unsigned_less [of y, where ?'a = nat] by simp_all
  ultimately show ?thesis using assms
    by (simp add: parseDSLine_def wordsOf_def ParseUint_decimal DecodeString_hexString)
qed

lemma scanLines_line: "10 \<notin> set l \<Longrightarrow> scanLines (l @ 10 # rest) = l # scanLines rest"
proof -
  have "10 \<notin> set l \<Longrightarrow> cutLine (l @ 10 # rest) = (l, rest)" by (induction l) auto
  then show "10 \<notin> set l \<Longrightarrow> ?thesis" by (subst scanLines.simps) simp
qed

lemma takeWhile_dropCR:
  assumes "59 \<notin> set x"
  shows "takeWhile (\<lambda>b. b \<noteq> 59) (dropCR (x @ 59 # c)) = x"
  using assms by (cases c rule: rev_cases) (auto simp: dropCR_def takeWhile_tail butlast_append)

lemma line_without_newline: "writable l \<Longrightarrow> 10 \<notin> set (formatLine l)"
  by (cases l) (auto simp: formatDS_spaced dest: spaced_chars [OF words_wordsOf])

lemma Fields_line:
  assumes "writable l"
  shows "Fields u (takeWhile (\<lambda>b. b \<noteq> 59) (dropCR (formatLine l))) = concat (map wordsOf (recordOf l))"
proof (cases l)
  case (Comment c)
  then show ?thesis using takeWhile_dropCR [of "[]" c] by (simp add: Fields_def isASCII_def)
next
  case (Record ds c)
  then have w: "list_all word (wordsOf ds)" using assms words_wordsOf by simp
  have "59 \<notin> set (formatDS ds)" "isASCII (formatDS ds)"
    using spaced_chars [OF w] by (auto simp: formatDS_spaced isASCII_def list_all_iff)
  then show ?thesis using Record takeWhile_dropCR
    by (simp add: Fields_def formatDS_spaced fieldsASCII_spaced [OF w])
qed

lemma anchorsLoop_file:
  "list_all (\<lambda>l. writable l \<and> length (formatLine l) < 65536) ls \<Longrightarrow>
     anchorsLoop u (scanLines (formatFile ls)) anchors =
       (if anchors @ concat (map recordOf ls) = [] then Inl ErrNoRecordsFound
        else Inr (anchors @ concat (map recordOf ls)))"
proof (induction ls arbitrary: anchors)
  case Nil
  then show ?case by (simp add: formatFile_def scanLines.simps)
next
  case (Cons l ls)
  then have l: "writable l" "length (formatLine l) < 65536" by simp_all
  have "scanLines (formatFile (l # ls)) = formatLine l # scanLines (formatFile ls)"
    using scanLines_line [OF line_without_newline [OF l(1)]] by (simp add: formatFile_def)
  moreover have "wordsOf ds \<noteq> []" for ds by (simp add: wordsOf_def)
  ultimately have "anchorsLoop u (scanLines (formatFile (l # ls))) anchors =
      anchorsLoop u (scanLines (formatFile ls)) (anchors @ recordOf l)"
    using l parseDSLine_words Fields_line [OF l(1), of u] by (cases l) (simp_all add: Let_def)
  then show ?case using Cons by simp
qed



end
