(* ===== verification/Net_Prefix.thy ===== *)
theory Net_Prefix
  imports Trust_Anchors Access_Control
begin

text \<open>
  \<open>netip.ParsePrefix\<close> and \<open>strings.TrimSpace\<close>, which read the allow list of a configuration.
  An address with a zone cannot be in a prefix, so a percent sign is an error at once; which
  error it is does not matter to any caller.
\<close>

section \<open>Addresses\<close>

definition slash :: byte where "slash = 47"

definition colon :: byte where "colon = 58"

text \<open>
  Decimal numbers, as \<open>strconv.Atoi\<close> reads them if there is no sign; one that does not fit in an
  \<open>int\<close> is an error there, and larger than any number of bits in an address here.
\<close>

definition Atoi :: "gostr \<Rightarrow> nat option" where
  "Atoi s =
     (if s = [] \<or> list_ex (\<lambda>b. b < 48 \<or> 57 < b) s then None
      else Some (foldl (\<lambda>n b. 10 * n + (unat b - 48)) 0 s))"

text \<open>A field of an IPv4 address: decimal, without leading zeros, at most 255.\<close>

definition parseOctet :: "gostr \<Rightarrow> byte option" where
  "parseOctet s =
     (if length s > 1 \<and> hd s = 48 then None else map_option word_of_nat (ParseUint s 8))"

definition parseIPv4Fields :: "gostr \<Rightarrow> byte list option" where
  "parseIPv4Fields s =
     (let fs = map parseOctet (splitDot s) in
      if length fs = 4 \<and> None \<notin> set fs then Some (map the fs) else None)"

text \<open>The digits of a group of an IPv6 address: one to four of them.\<close>

definition hexPrefix :: "gostr \<Rightarrow> gostr" where
  "hexPrefix s = takeWhile (\<lambda>b. hexValue b \<noteq> None) s"

definition hexNumber :: "gostr \<Rightarrow> u16" where
  "hexNumber s = foldl (\<lambda>n b. push_bit 4 n + (case hexValue b of Some d \<Rightarrow> ucast d | None \<Rightarrow> 0)) 0 s"

text \<open>
  The loop of \<open>parseIPv6\<close>, with the bytes read so far and where the ellipsis stood; the result
  also says what of the string is left.
\<close>

function ipv6Loop :: "gostr \<Rightarrow> byte list \<Rightarrow> nat option \<Rightarrow> (byte list \<times> nat option \<times> gostr) option" where
  "ipv6Loop s ip ellipsis =
     (if length ip \<ge> 16 then Some (ip, ellipsis, s)
      else let digits = hexPrefix s; rest = drop (length digits) s in
        if digits = [] \<or> length digits > 4 then None
        else if rest \<noteq> [] \<and> hd rest = dot then
          (if ellipsis = None \<and> length ip \<noteq> 12 \<or> length ip + 4 > 16 then None
           else map_option (\<lambda>bs. (ip @ bs, ellipsis, [])) (parseIPv4Fields s))
        else let ip = ip @ put16 (hexNumber digits) in
          if rest = [] then Some (ip, ellipsis, [])
          else if hd rest \<noteq> colon \<or> length rest = 1 then None
          else let s = tl rest in
            if hd s = colon then
              (if ellipsis \<noteq> None then None
               else if tl s = [] then Some (ip, Some (length ip), [])
               else ipv6Loop (tl s) ip (Some (length ip)))
            else ipv6Loop s ip ellipsis)"
  by pat_completeness auto
termination
  by (relation "measure (\<lambda>(s, ip, ellipsis). length s)") (auto simp: hexPrefix_def neq_Nil_conv)

declare ipv6Loop.simps [simp del]

definition parseIPv6 :: "gostr \<Rightarrow> byte list option" where
  "parseIPv6 s =
     (let lead = (length s \<ge> 2 \<and> s ! 0 = colon \<and> s ! 1 = colon);
          s = (if lead then drop 2 s else s);
          ellipsis = (if lead then Some 0 else None)
      in if lead \<and> s = [] then Some (replicate 16 0)
         else case ipv6Loop s [] ellipsis of
             None \<Rightarrow> None
           | Some (ip, ellipsis, rest) \<Rightarrow>
               if rest \<noteq> [] then None
               else (case ellipsis of
                   None \<Rightarrow> if length ip < 16 then None else Some ip
                 | Some i \<Rightarrow> if length ip < 16
                     then Some (take i ip @ replicate (16 - length ip) 0 @ drop i ip) else None))"

text \<open>The first of the characters that decide tells the family.\<close>

definition ParseAddr :: "gostr \<Rightarrow> ipAddr option" where
  "ParseAddr s =
     (case find (\<lambda>b. b = dot \<or> b = colon \<or> b = 37) s of
        None \<Rightarrow> None
      | Some b \<Rightarrow>
          if b = dot then Option.bind (parseIPv4Fields s) AddrFromSlice
          else if b = colon \<and> 37 \<notin> set s then Option.bind (parseIPv6 s) AddrFromSlice
          else None)"

section \<open>Prefixes\<close>

definition ParsePrefix :: "gostr \<Rightarrow> prefix option" where
  "ParsePrefix s =
     (if slash \<notin> set s then None
      else let bitsStr = rev (takeWhile (\<lambda>b. b \<noteq> slash) (rev s));
               addr = take (length s - length bitsStr - 1) s
        in case ParseAddr addr of
            None \<Rightarrow> None
          | Some ip \<Rightarrow>
              if length bitsStr > 1 \<and> (hd bitsStr < 49 \<or> 57 < hd bitsStr) then None
              else case Atoi bitsStr of
                  None \<Rightarrow> None
                | Some bits \<Rightarrow>
                    if bits > (case ip of Addr4 _ \<Rightarrow> 32 | Addr6 _ \<Rightarrow> 128) then None
                    else Some \<lparr>pAddr = ip, pBits = bits\<rparr>)"

definition TrimSpace :: "unicode \<Rightarrow> gostr \<Rightarrow> gostr" where
  "TrimSpace u s =
     (if isASCII s then rev (dropWhile isSpace (rev (dropWhile isSpace s))) else trim_nonascii u s)"

section \<open>Facts\<close>

text \<open>A prefix is never longer than the address it starts from.\<close>

lemma ParsePrefix_bits:
  "ParsePrefix s = Some p \<Longrightarrow> pBits p \<le> (case pAddr p of Addr4 _ \<Rightarrow> 32 | Addr6 _ \<Rightarrow> 128)"
  by (auto simp: ParsePrefix_def Let_def split: if_splits option.splits)

lemma ParsePrefix_loopback:
  "ParsePrefix (lit ''127.0.0.0/8'') = Some \<lparr>pAddr = Addr4 0x7F000000, pBits = 8\<rparr>"
  "ParsePrefix (lit ''::1/128'') = Some \<lparr>pAddr = Addr6 1, pBits = 128\<rparr>"
  by code_simp+

lemma ParsePrefix_examples:
  "ParsePrefix (lit ''2001:db8::/32'') = Some \<lparr>pAddr = Addr6 0x20010DB8000000000000000000000000, pBits = 32\<rparr>"
  "ParsePrefix (lit ''::ffff:10.0.0.1/104'') = Some \<lparr>pAddr = Addr6 0xFFFF0A000001, pBits = 104\<rparr>"
  "ParsePrefix (lit ''10.0.0.0/33'') = None" "ParsePrefix (lit ''10.0.0/8'') = None"
  "ParsePrefix (lit ''010.0.0.0/8'') = None" "ParsePrefix (lit ''fe80::1%eth0/64'') = None"
  "ParsePrefix (lit ''1::2::3/64'') = None" "ParsePrefix (lit ''10.0.0.0'') = None"
  by code_simp+

end
