(* ===== verification/Server_Config.thy ===== *)
theory Server_Config
  imports Anchor_Facts Net_Prefix Response_Cache Rate_Limit Single_Flight Resolver_Handler
begin

text \<open>
  The configuration (\<open>config\<close>) and the assembly of the handler chain from it (\<open>buildHandler\<close> of
  \<open>cmd/server\<close>), up to where the server starts to listen.  Reading a file and decoding JSON onto
  a configuration are parameters; the logger, the TLS certificate and the listeners are in
  \<open>Server_Main\<close>.  The timeouts are kept in the configuration; what they do is in \<open>Socket_Io\<close>.
\<close>

section \<open>Configurations\<close>

record config =
  cfgListen :: gostr
  cfgAllow :: "gostr list"
  cfgRateLimit :: rat
  cfgBurst :: rat
  cfgMaxInFlight :: int
  cfgQueryTimeout :: int
  cfgUpstreamTimeout :: int
  cfgCacheEntries :: int
  cfgCacheMinTTL :: int
  cfgCacheMaxTTL :: int
  cfgTLSListen :: gostr
  cfgTLSCert :: gostr
  cfgTLSKey :: gostr
  cfgQNAMEMinimization :: bool
  cfgUse0x20 :: bool
  cfgDNSSEC :: bool
  cfgTrustAnchor :: gostr
  cfgMiddleware :: "gostr list"
  cfgLogLevel :: gostr
  cfgLogFormat :: gostr

definition Default :: config where
  "Default =
     \<lparr>cfgListen = lit ''127.0.0.1:5353'', cfgAllow = [lit ''127.0.0.0/8'', lit ''::1/128''],
      cfgRateLimit = 50, cfgBurst = 100, cfgMaxInFlight = 512,
      cfgQueryTimeout = 10 * second, cfgUpstreamTimeout = 3 * second,
      cfgCacheEntries = 10000, cfgCacheMinTTL = 5 * second, cfgCacheMaxTTL = 86400 * second,
      cfgTLSListen = [], cfgTLSCert = [], cfgTLSKey = [],
      cfgQNAMEMinimization = True, cfgUse0x20 = False, cfgDNSSEC = True, cfgTrustAnchor = [],
      cfgMiddleware = [lit ''acl'', lit ''ratelimit'', lit ''cache'', lit ''singleflight''],
      cfgLogLevel = lit ''info'', cfgLogFormat = lit ''text''\<rparr>"

datatype configErr =
    ErrListen | ErrTLS | ErrAllow gostr | ErrCacheTTL | ErrTimeouts | ErrMiddleware gostr
  | ErrLogFormat | ErrLogLevel | ErrReadConfig | ErrDecode | ErrReadAnchors | ErrAnchors anchorErr

fun AllowedPrefixes :: "unicode \<Rightarrow> gostr list \<Rightarrow> configErr + prefix list" where
  "AllowedPrefixes u [] = Inr []"
| "AllowedPrefixes u (s # ss) =
     (case ParsePrefix (TrimSpace u s) of
        None \<Rightarrow> Inl (ErrAllow s)
      | Some p \<Rightarrow> bindR (AllowedPrefixes u ss) (\<lambda>ps. Inr (p # ps)))"

definition middlewareNames :: "gostr list" where
  "middlewareNames = [lit ''acl'', lit ''ratelimit'', lit ''cache'', lit ''singleflight'']"

definition Validate :: "unicode \<Rightarrow> config \<Rightarrow> configErr + unit" where
  "Validate u c =
     (if cfgListen c = [] then Inl ErrListen
      else if cfgTLSListen c \<noteq> [] \<and> (cfgTLSCert c = [] \<or> cfgTLSKey c = []) then Inl ErrTLS
      else bindR (AllowedPrefixes u (cfgAllow c)) (\<lambda>_.
        if cfgCacheMinTTL c > cfgCacheMaxTTL c then Inl ErrCacheTTL
        else if cfgUpstreamTimeout c > cfgQueryTimeout c then Inl ErrTimeouts
        else case find (\<lambda>name. name \<notin> set middlewareNames) (cfgMiddleware c) of
            Some name \<Rightarrow> Inl (ErrMiddleware name)
          | None \<Rightarrow>
              if cfgLogFormat c \<notin> {lit ''text'', lit ''json''} then Inl ErrLogFormat
              else if cfgLogLevel c \<notin> {lit ''debug'', lit ''info'', lit ''warn'', lit ''error''}
              then Inl ErrLogLevel
              else Inr ()))"

text \<open>
  \<open>Load\<close>: the file is decoded onto the defaults.  The defaults themselves are not checked here.
\<close>

definition Load ::
  "unicode \<Rightarrow> (gostr \<Rightarrow> byte list option) \<Rightarrow> (byte list \<Rightarrow> config \<Rightarrow> config option) \<Rightarrow> gostr \<Rightarrow> configErr + config" where
  "Load u readFile unmarshal path =
     (if path = [] then Inr Default
      else case readFile path of
          None \<Rightarrow> Inl ErrReadConfig
        | Some bytes \<Rightarrow> (case unmarshal bytes Default of
            None \<Rightarrow> Inl ErrDecode
          | Some c \<Rightarrow> bindR (Validate u c) (\<lambda>_. Inr c)))"

section \<open>The world of a server\<close>

text \<open>
  Every wrapper keeps its own state; the wrapper at position \<open>i\<close> of the chain has the \<open>i\<close>th store
  or limiter or map of queries in flight.  Here one query is served at a time, from its arrival
  to its answer; what happens when queries overlap is the subject of \<open>Single_Flight\<close> and
  \<open>Concurrent_Chain\<close>.
\<close>

record 'n server =
  srvCaches :: "nat \<Rightarrow> store"
  srvLimiters :: "nat \<Rightarrow> limiter"
  srvFlights :: "nat \<Rightarrow> flightKey \<Rightarrow> bool"
  srvResolver :: "'n rstate"

definition resolverAt :: "'n env \<Rightarrow> resolver \<Rightarrow> 'n server handler" where
  "resolverAt E r addr req W =
     (case resolverServe E r addr req (srvResolver W) of
        (msgs, s) \<Rightarrow> (msgs, W\<lparr>srvResolver := s\<rparr>))"

definition clockOf :: "'n env \<Rightarrow> 'n server \<Rightarrow> int" where
  "clockOf E W = nowOf E (srvResolver W)"

definition cacheAt :: "'n env \<Rightarrow> nat \<Rightarrow> 'n server handler \<Rightarrow> 'n server handler" where
  "cacheAt E i next addr req W =
     (case cacheServe (unicodeOf E) (clockOf E) next addr req (srvCaches W i, W) of
        (msgs, (s, W')) \<Rightarrow> (msgs, W'\<lparr>srvCaches := (srvCaches W')(i := s)\<rparr>))"

definition ratelimitAt ::
  "'n env \<Rightarrow> ('n server \<Rightarrow> ipAddr list) \<Rightarrow> nat \<Rightarrow> 'n server handler \<Rightarrow> 'n server handler" where
  "ratelimitAt E clientOrder i next addr req W =
     (case ratelimitServe (clockOf E) clientOrder next addr req (srvLimiters W i, W) of
        (msgs, (h, W')) \<Rightarrow> (msgs, W'\<lparr>srvLimiters := (srvLimiters W')(i := h)\<rparr>))"

text \<open>
  The \<open>ServeDNS\<close> of \<open>singleflight\<close>, run to its end: a query whose question is in flight would wait
  for a call that cannot finish before it, until its context ends, and write nothing; any other
  is registered, passed on and unregistered.
\<close>

definition flightServe :: "unicode \<Rightarrow> 'w handler \<Rightarrow> ((flightKey \<Rightarrow> bool) \<times> 'w) handler" where
  "flightServe u next addr req bw =
     (case bw of (busy, w) \<Rightarrow>
        if \<not> collapsible req then (case next addr req w of (msgs, w') \<Rightarrow> (msgs, (busy, w')))
        else let k = flightKeyOf u (hd (Questions req)) in
          if busy k then ([], (busy, w))
          else (case next addr req w of (msgs, w') \<Rightarrow> (msgs, (busy(k := False), w'))))"

definition flightAt :: "'n env \<Rightarrow> nat \<Rightarrow> 'n server handler \<Rightarrow> 'n server handler" where
  "flightAt E i next addr req W =
     (case flightServe (unicodeOf E) next addr req (srvFlights W i, W) of
        (msgs, (b, W')) \<Rightarrow> (msgs, W'\<lparr>srvFlights := (srvFlights W')(i := b)\<rparr>))"

section \<open>Building the chain\<close>

definition wrapWith ::
  "'n env \<Rightarrow> ('n server \<Rightarrow> ipAddr list) \<Rightarrow> prefix list \<Rightarrow> nat \<Rightarrow> gostr \<Rightarrow> 'n server handler
    \<Rightarrow> configErr + 'n server handler" where
  "wrapWith E clientOrder allowed i name next =
     (if name = lit ''acl'' then Inr (aclServe allowed next)
      else if name = lit ''ratelimit'' then Inr (ratelimitAt E clientOrder i next)
      else if name = lit ''cache'' then Inr (cacheAt E i next)
      else if name = lit ''singleflight'' then Inr (flightAt E i next)
      else Inl (ErrMiddleware name))"

text \<open>The loop from the last name to the first, as a recursion that wraps on the way back.\<close>

fun wrapFrom ::
  "'n env \<Rightarrow> ('n server \<Rightarrow> ipAddr list) \<Rightarrow> prefix list \<Rightarrow> nat \<Rightarrow> gostr list \<Rightarrow> 'n server handler
    \<Rightarrow> configErr + 'n server handler" where
  "wrapFrom E clientOrder allowed i [] h = Inr h"
| "wrapFrom E clientOrder allowed i (name # ns) h =
     bindR (wrapFrom E clientOrder allowed (i + 1) ns h) (wrapWith E clientOrder allowed i name)"

definition loadAnchors ::
  "unicode \<Rightarrow> (gostr \<Rightarrow> byte list option) \<Rightarrow> gostr \<Rightarrow> configErr + DS list option" where
  "loadAnchors u readFile path =
     (if path = [] then Inr None
      else case readFile path of
          None \<Rightarrow> Inl ErrReadAnchors
        | Some bytes \<Rightarrow> (case ParseTrustAnchors u bytes of
            Inl e \<Rightarrow> Inl (ErrAnchors e)
          | Inr anchors \<Rightarrow> Inr (Some anchors)))"

definition resolverOf :: "config \<Rightarrow> DS list option \<Rightarrow> resolver" where
  "resolverOf c anchors =
     NewWithOptions \<lparr>DisableDNSSEC = (\<not> cfgDNSSEC c), DisableQNAMEMinimization = (\<not> cfgQNAMEMinimization c),
       Use0x20 = cfgUse0x20 c, TrustAnchors = anchors\<rparr>"

definition newServer :: "config \<Rightarrow> 'n \<Rightarrow> 'n server" where
  "newServer c n =
     \<lparr>srvCaches = (\<lambda>_. newStore \<lparr>MaxEntries = cfgCacheEntries c, MinTTL = cfgCacheMinTTL c,
                                  MaxTTL = cfgCacheMaxTTL c\<rparr>),
      srvLimiters = (\<lambda>_. newLimiter (cfgRateLimit c) (cfgBurst c)),
      srvFlights = (\<lambda>_ _. False),
      srvResolver = newState n\<rparr>"

definition buildHandler ::
  "'n env \<Rightarrow> ('n server \<Rightarrow> ipAddr list) \<Rightarrow> (gostr \<Rightarrow> byte list option)
    \<Rightarrow> config \<Rightarrow> configErr + resolver \<times> 'n server handler" where
  "buildHandler E clientOrder readFile c =
     bindR (AllowedPrefixes (unicodeOf E) (cfgAllow c)) (\<lambda>allowed.
     bindR (loadAnchors (unicodeOf E) readFile (cfgTrustAnchor c)) (\<lambda>anchors.
       let r = resolverOf c anchors in
       bindR (wrapFrom E clientOrder allowed 0 (cfgMiddleware c) (resolverAt E r)) (\<lambda>h. Inr (r, h))))"

text \<open>
  The \<open>main\<close> of \<open>cmd/server\<close> up to the server it starts: the path of the configuration and the
  address to listen on come from flags.
\<close>

definition startup ::
  "'n env \<Rightarrow> ('n server \<Rightarrow> ipAddr list) \<Rightarrow> (gostr \<Rightarrow> byte list option) \<Rightarrow> (byte list \<Rightarrow> config \<Rightarrow> config option)
    \<Rightarrow> gostr \<Rightarrow> gostr \<Rightarrow> configErr + config \<times> resolver \<times> 'n server handler" where
  "startup E clientOrder readFile unmarshal configPath listen =
     bindR (Load (unicodeOf E) readFile unmarshal configPath) (\<lambda>c.
       let c = (if listen \<noteq> [] then c\<lparr>cfgListen := listen\<rparr> else c) in
       bindR (Validate (unicodeOf E) c) (\<lambda>_.
       bindR (buildHandler E clientOrder readFile c) (\<lambda>(r, h). Inr (c, r, h))))"

end
