(* ===== verification/Server_Facts.thy ===== *)
theory Server_Facts
  imports Server_Config Cache_Facts
begin

text \<open>
  The chain of handlers as a whole.  The locale \<open>record_law\<close> is the interface between the
  wrappers: a property of records that does not depend on their TTL.  Inside it every wrapper
  is shown to pass on only what the handler inside it wrote, changed in nothing that matters
  to the law; it is interpreted with the property that a record is proven authentic.
\<close>

section \<open>What wrappers keep\<close>

lemma middleware_distinct [simp]:
  "lit ''ratelimit'' \<noteq> lit ''acl''" "lit ''cache'' \<noteq> lit ''acl''" "lit ''cache'' \<noteq> lit ''ratelimit''"
  "lit ''singleflight'' \<noteq> lit ''acl''" "lit ''singleflight'' \<noteq> lit ''ratelimit''" "lit ''singleflight'' \<noteq> lit ''cache''"
  by code_simp+

lemma flightAt_cases:
  assumes "h addr req W = (m, V)" "flightAt E i h addr req W = (msgs, W')"
  shows "(\<exists>k. srvFlights W i k) \<and> msgs = [] \<and> W' = W \<or>
    msgs = m \<and> (\<exists>b. W' = V\<lparr>srvFlights := (srvFlights V)(i := b)\<rparr> \<and> (\<forall>k. b k \<longrightarrow> srvFlights W i k))"
proof -
  let ?k = "flightKeyOf (unicodeOf E) (hd (Questions req))"
  consider "\<not> collapsible req" | "collapsible req" "srvFlights W i ?k" | "collapsible req" "\<not> srvFlights W i ?k"
    by blast
  then show ?thesis
  proof cases
    case 1
    then have "msgs = m \<and> W' = V\<lparr>srvFlights := (srvFlights V)(i := srvFlights W i)\<rparr>"
      using assms by (simp add: flightAt_def flightServe_def)
    then show ?thesis by blast
  next
    case 2
    then have "msgs = []" "W' = W" using assms(2) by (simp_all add: flightAt_def flightServe_def Let_def)
    then show ?thesis using 2 by blast
  next
    case 3
    then have "msgs = m \<and> W' = V\<lparr>srvFlights := (srvFlights V)(i := (srvFlights W i)(?k := False))\<rparr>"
      using assms by (simp add: flightAt_def flightServe_def Let_def)
    moreover have "\<forall>k. ((srvFlights W i)(?k := False)) k \<longrightarrow> srvFlights W i k" by (metis fun_upd_apply)
    ultimately show ?thesis by blast
  qed
qed


locale record_law =
  fixes law :: "RR \<Rightarrow> bool"
  assumes ttl_free: "law (rr\<lparr>TTL := t\<rparr>) = law rr"
begin

definition lawful :: "bool \<Rightarrow> RR list \<Rightarrow> bool" where
  "lawful auth answers = (auth \<longrightarrow> asciiOwners answers \<longrightarrow> list_all law answers)"

definition honest :: "Message \<Rightarrow> bool" where
  "honest msg = lawful (AD (header msg)) (Answers msg)"

definition honestStore :: "unicode \<Rightarrow> store \<Rightarrow> bool" where
  "honestStore u s =
     (\<exists>h. storeRun u h s \<and> (\<forall>i\<in>h. lawful (insAuthentic i) (insAnswers i)))"

lemma lawful_map_TTL:
  assumes "\<And>rr. \<exists>t. f rr = rr\<lparr>TTL := t\<rparr>"
  shows "lawful auth (map f rrs) = lawful auth rrs"
proof -
  have "law (f rr) = law rr" "rrName (f rr) = rrName rr" for rr
    using assms [of rr] by (auto simp: ttl_free)
  then show ?thesis by (simp add: lawful_def asciiOwners_def list_all_iff)
qed

lemma lawful_withTTL [simp]: "lawful auth (withTTL rrs ttl) = lawful auth rrs"
  unfolding withTTL_def by (rule lawful_map_TTL) blast

lemma lawful_capTTLs [simp]: "lawful auth (capTTLs m rrs) = lawful auth rrs"
proof -
  have "lawful auth (map (\<lambda>rr. rr\<lparr>TTL := min (TTL rr) m\<rparr>) rrs) = lawful auth rrs"
    by (rule lawful_map_TTL) blast
  then show ?thesis by (simp add: capTTLs_def)
qed

lemma honest_cappedMsg [simp]: "honest (cappedMsg m msg) = honest msg"
  by (simp add: honest_def cappedMsg_def)

lemma honest_shareAnswer: "honest msg \<Longrightarrow> honest (shareAnswer req msg)"
  by (simp add: honest_def shareAnswer_def)

lemma honest_no_AD: "\<not> AD (header msg) \<Longrightarrow> honest msg"
  by (simp add: honest_def lawful_def)

lemma honestStore_new: "honestStore u (newStore cfg)"
  unfolding honestStore_def using storeRun.start by blast

lemma honestStore_put:
  assumes "honestStore u s" "lawful auth ans"
  shows "honestStore u (put u s name qtype rcode ans auths auth now)"
proof -
  from assms(1) obtain h where h: "storeRun u h s" "\<forall>i\<in>h. lawful (insAuthentic i) (insAnswers i)"
    unfolding honestStore_def by blast
  show ?thesis unfolding honestStore_def
    by (rule exI [of _ "insert (Insertion name qtype rcode ans auths auth now) h"])
       (use storeRun.put [OF h(1)] h(2) assms(2) in auto)
qed

lemma honestStore_lookup:
  assumes "honestStore u s" "lookup u s name qtype now = (s', hit)"
  shows "honestStore u s' \<and> (\<forall>rcode ans auths auth. hit = Some (rcode, ans, auths, auth) \<longrightarrow> lawful auth ans)"
proof -
  from assms(1) obtain h where h: "storeRun u h s" "\<forall>i\<in>h. lawful (insAuthentic i) (insAnswers i)"
    unfolding honestStore_def by blast
  have "storeRun u h s'" using storeRun.lookup [OF h(1), of name qtype now] assms(2) by simp
  moreover have "lawful auth ans" if hit: "hit = Some (rcode, ans, auths, auth)" for rcode ans auths auth
  proof -
    obtain e where e: "found u s name qtype = Some e" "ans = withTTL (eAnswers e) (hitTTL e now)"
        "auth = authentic e"
      using assms(2) hit by (auto simp: lookup_cases split: option.splits if_splits)
    obtain k where "storeGet s k = Some e" using found_Some [OF e(1)] by blast
    then obtain i where "i \<in> h" "eAnswers e = insAnswers i" "authentic e = insAuthentic i"
      using storeRun_inv [OF h(1)] unfolding insertedBy_def by (fastforce simp: newEntry_def)
    then show ?thesis using h(2) e by simp
  qed
  ultimately show ?thesis using h(2) unfolding honestStore_def by blast
qed

text \<open>A handler serves honestly if it keeps the stores honest and so writes honest messages.\<close>

definition serverOk :: "unicode \<Rightarrow> ('n rstate \<Rightarrow> bool) \<Rightarrow> 'n server \<Rightarrow> bool" where
  "serverOk u I W = (I (srvResolver W) \<and> (\<forall>i. honestStore u (srvCaches W i)))"

definition servesHonestly :: "unicode \<Rightarrow> ('n rstate \<Rightarrow> bool) \<Rightarrow> 'n server handler \<Rightarrow> bool" where
  "servesHonestly u I h =
     (\<forall>addr req W msgs W'. serverOk u I W \<longrightarrow> h addr req W = (msgs, W') \<longrightarrow>
        serverOk u I W' \<and> list_all honest msgs)"

lemma servesHonestlyD:
  "servesHonestly u I h \<Longrightarrow> serverOk u I W \<Longrightarrow> h addr req W = (msgs, W') \<Longrightarrow>
     serverOk u I W' \<and> list_all honest msgs"
  by (simp add: servesHonestly_def)

lemma acl_honest: "servesHonestly u I h \<Longrightarrow> servesHonestly u I (aclServe allowed h)"
  unfolding servesHonestly_def aclServe_def
  by (auto split: if_splits intro: honest_no_AD simp: zeroHeader_def)

lemma ratelimit_honest:
  assumes "servesHonestly u I h"
  shows "servesHonestly u I (ratelimitAt E clientOrder i h)"
  unfolding servesHonestly_def
proof (intro allI impI)
  fix addr req W msgs W'
  assume W: "serverOk u I W" and run: "ratelimitAt E clientOrder i h addr req W = (msgs, W')"
  obtain m V where V: "h addr req W = (m, V)" by (meson surj_pair)
  note k = servesHonestlyD [OF assms W V]
  from run V obtain l where "(msgs = [] \<and> W' = W\<lparr>srvLimiters := l\<rparr>) \<or> (msgs = m \<and> W' = V\<lparr>srvLimiters := l\<rparr>)"
    by (auto simp: ratelimitAt_def ratelimitServe_def split: option.splits prod.splits bool.splits)
  then show "serverOk u I W' \<and> list_all honest msgs" using k W by (auto simp: serverOk_def)
qed

lemma flight_honest:
  assumes "servesHonestly u I h"
  shows "servesHonestly u I (flightAt E i h)"
  unfolding servesHonestly_def
proof (intro allI impI)
  fix addr req W msgs W'
  assume W: "serverOk u I W" and run: "flightAt E i h addr req W = (msgs, W')"
  obtain m V where V: "h addr req W = (m, V)" by (meson surj_pair)
  note k = servesHonestlyD [OF assms W V]
  from flightAt_cases [OF V run] show "serverOk u I W' \<and> list_all honest msgs"
  proof (elim disjE conjE exE)
    fix b
    assume "msgs = m" "W' = V\<lparr>srvFlights := (srvFlights V)(i := b)\<rparr>"
    then show ?thesis using k by (simp add: serverOk_def)
  qed (use W in simp)
qed

lemma cache_honest:
  assumes "servesHonestly (unicodeOf E) I h"
  shows "servesHonestly (unicodeOf E) I (cacheAt E i h)"
  unfolding servesHonestly_def
proof (intro allI impI)
  fix addr req W msgs W'
  let ?u = "unicodeOf E"
  assume W: "serverOk ?u I W" and run: "cacheAt E i h addr req W = (msgs, W')"
  obtain m V where V: "h addr req W = (m, V)" by (meson surj_pair)
  note k = servesHonestlyD [OF assms W V]
  have store: "honestStore ?u (srvCaches W i)" using W by (simp add: serverOk_def)
  show "serverOk ?u I W' \<and> list_all honest msgs"
  proof (cases "length (Questions req) \<noteq> 1 \<or> CD (header req)")
    case True
    then show ?thesis using run V k store by (auto simp: cacheAt_def cacheServe_def serverOk_def)
  next
    case False
    let ?q = "hd (Questions req)"
    obtain s hit where l: "lookup ?u (srvCaches W i) (qName ?q) (qType ?q) (clockOf E W) = (s, hit)"
      by (meson surj_pair)
    note hl = honestStore_lookup [OF store l]
    show ?thesis
    proof (cases hit)
      case (Some ht)
      obtain rcode ans auths auth where ht: "ht = (rcode, ans, auths, auth)" by (metis prod.exhaust)
      have "lawful auth ans" using hl Some ht by blast
      then have "honest (cachedReply req ht)"
        by (simp add: ht honest_def cachedReply_def)
      then show ?thesis using run False l Some W hl
        by (auto simp: cacheAt_def cacheServe_def Let_def serverOk_def)
    next
      case None
      have "lawful (AD (header (last m))) (Answers (last m))" if "m \<noteq> []"
        using k that by (auto simp: list_all_iff honest_def)
      then have "honestStore ?u (if m = [] then s else put ?u s (qName ?q) (qType ?q) (RCode (header (last m)))
          (Answers (last m)) (Authorities (last m)) (AD (header (last m))) (clockOf E V))"
        using hl honestStore_put by auto
      then show ?thesis using run False l None V k hl
        by (auto simp: cacheAt_def cacheServe_def Let_def serverOk_def list_all_iff)
    qed
  qed
qed

lemma wrapWith_honest:
  "servesHonestly (unicodeOf E) I h \<Longrightarrow> wrapWith E clientOrder allowed i name h = Inr h' \<Longrightarrow>
     servesHonestly (unicodeOf E) I h'"
  by (auto simp: wrapWith_def acl_honest ratelimit_honest cache_honest flight_honest split: if_splits)

lemma wrapFrom_honest:
  "servesHonestly (unicodeOf E) I h \<Longrightarrow> wrapFrom E clientOrder allowed i ns h = Inr h' \<Longrightarrow>
     servesHonestly (unicodeOf E) I h'"
  by (induction E clientOrder allowed i ns h arbitrary: h' rule: wrapFrom.induct)
     (auto simp: bindR_eq_Inr wrapWith_honest)

end

section \<open>The server\<close>

text \<open>A record is proven if it is, with some TTL, a record the chain of trust covers.\<close>

definition provenData :: "unicode \<Rightarrow> crypto \<Rightarrow> DS list \<Rightarrow> RR \<Rightarrow> bool" where
  "provenData u cr anchors rr = (\<exists>t. provenRecord u cr anchors (rr\<lparr>TTL := t\<rparr>))"

interpretation proven: record_law "provenData u cr anchors" for u cr anchors
  by unfold_locales (simp add: provenData_def)

lemma provenRecord_data: "provenRecord u cr anchors rr \<Longrightarrow> provenData u cr anchors rr"
  unfolding provenData_def by (rule exI [of _ "TTL rr"]) simp

lemma outcomeReply_honest:
  assumes "\<And>res. x = Inr res \<Longrightarrow> soundResolution u cr anchors 0 qname qtype res" "\<not> AD h"
  shows "list_all (proven.honest u cr anchors) (outcomeReply h qs x)"
proof (cases x)
  case (Inr res)
  then obtain chain rest target where "resAnswers res = chain @ rest"
    "resSecure res \<longrightarrow> asciiOwners (chain @ rest) \<longrightarrow> list_all (provenRecord u cr anchors) (chain @ rest)"
    using assms(1) unfolding soundResolution_def by blast
  then show ?thesis using Inr provenRecord_data
    by (auto simp: outcomeReply_def proven.honest_def proven.lawful_def list_all_iff)
next
  case (Inl e)
  then show ?thesis using assms(2)
    by (cases e) (auto simp: outcomeReply_def intro: proven.honest_no_AD)
qed

lemma resolverServe_honest:
  assumes "stateOk E r (\<lambda>_. True) s" "resolverServe E r addr req s = (msgs, s')"
  shows "stateOk E r (\<lambda>_. True) s' \<and>
    list_all (proven.honest (unicodeOf E) (cryptoOf E) (trustAnchors r)) msgs"
proof (cases "Opcode (header req) \<noteq> 0 \<or> length (Questions req) \<noteq> 1")
  case True
  then show ?thesis using assms
    by (auto simp: resolverServe_def Let_def proven.honest_def proven.lawful_def split: if_splits)
next
  case False
  let ?q = "hd (Questions req)"
  obtain x s1 where x: "ResolveRR E r (CD (header req)) (qName ?q) (qType ?q) s = (x, s1)" by (meson surj_pair)
  note k = anyWorld.resolution_keeps(1) [OF refl refl assms(1) x [unfolded ResolveRR_def]]
  have "list_all (proven.honest (unicodeOf E) (cryptoOf E) (trustAnchors r))
      (outcomeReply ((emptyResponse req)\<lparr>CD := CD (header req)\<rparr>) (Questions req) x)"
    by (rule outcomeReply_honest) (use k in auto)
  then show ?thesis using assms(2) False x k by (auto simp: resolverServe_def Let_def)
qed

lemma resolverAt_honest:
  "proven.servesHonestly (unicodeOf E) (cryptoOf E) (trustAnchors r) u (stateOk E r (\<lambda>_. True)) (resolverAt E r)"
  unfolding proven.servesHonestly_def resolverAt_def
  by (auto simp: proven.serverOk_def split: prod.splits dest: resolverServe_honest)

text \<open>The states of a server: it serves queries in turn, and the world changes in between.\<close>

inductive serverRun :: "config \<Rightarrow> 'n server handler \<Rightarrow> 'n server \<Rightarrow> bool" for c h where
  start: "serverRun c h (newServer c n)"
| serve: "serverRun c h W \<Longrightarrow> h addr req W = (msgs, W') \<Longrightarrow> serverRun c h W'"
| world: "serverRun c h W \<Longrightarrow> serverRun c h (W\<lparr>srvResolver := (srvResolver W)\<lparr>sNet := n\<rparr>\<rparr>)"

lemma serverRun_ok:
  assumes "wrapFrom E clientOrder allowed 0 ns (resolverAt E r) = Inr h" "serverRun c h W"
  shows "proven.serverOk (unicodeOf E) (cryptoOf E) (trustAnchors r) (unicodeOf E) (stateOk E r (\<lambda>_. True)) W"
  using assms(2)
proof (induction rule: serverRun.induct)
  case (start n)
  then show ?case
    by (simp add: proven.serverOk_def newServer_def newState_ok proven.honestStore_new)
next
  case (serve W addr req msgs W')
  then show ?case
    using proven.servesHonestlyD [OF proven.wrapFrom_honest [OF resolverAt_honest assms(1)]] by blast
next
  case (world W n)
  then show ?case by (simp add: proven.serverOk_def stateOk_def)
qed


definition exampleRequest :: Message where
  "exampleRequest = reply (zeroHeader\<lparr>ID := 7, RD := True\<rparr>) [\<lparr>qName = lit ''a'', qType = TypeA, qClass = ClassIN\<rparr>]"

abbreviation exampleServer :: "byte list list server" where
  "exampleServer \<equiv> newServer Default secureScript"

abbreviation exampleChain :: "gostr list" where
  "exampleChain \<equiv> [lit ''acl'', lit ''cache'', lit ''singleflight'']"

lemma lookup_newStore [simp]: "lookup u (newStore cfg) name qtype now = (newStore cfg, None)"
proof -
  have "enclosingLoop (Mapping.empty :: (cacheKey, cacheEntry) mapping) rest = None" for rest
    by (induction rest rule: measure_induct_rule [where f = length], subst enclosingLoop.simps)
       (auto dest!: cutDot_shorter split: prod.splits)
  then show ?thesis by (simp add: lookup_def newStore_def enclosingNXDOMAIN_def)
qed

lemma example_served:
  "\<exists>h m W'. wrapFrom scripted (\<lambda>_. []) LoopbackOnly 0 exampleChain (resolverAt scripted exampleResolver) = Inr h \<and>
     h (UDPAddr [127, 0, 0, 1]) exampleRequest exampleServer = ([m], W') \<and>
     ID (header m) = 7 \<and> AD (header m) \<and> map rrName (Answers m) = [lit ''a'']"
proof -
  let ?h = "resolverAt scripted exampleResolver"
  let ?addr = "UDPAddr [127, 0, 0, 1]"
  obtain res :: resolution and s' where r:
    "ResolveRR scripted exampleResolver False (lit ''a'') TypeA (newState secureScript) = (Inr res, s')"
    "resSecure res" "map rrName (resAnswers res) = [lit ''a'']" using example_secure by (elim exE conjE)
  have req: "header exampleRequest = zeroHeader\<lparr>ID := 7, RD := True\<rparr>"
    "Questions exampleRequest = [\<lparr>qName = lit ''a'', qType = TypeA, qClass = ClassIN\<rparr>]"
    by (simp_all add: exampleRequest_def)
  define h2 where "h2 = flightAt scripted 2 ?h"
  have init: "srvResolver exampleServer = newState secureScript" "\<not> srvFlights exampleServer i k"
    "srvCaches exampleServer i = newStore \<lparr>MaxEntries = cfgCacheEntries Default, MinTTL = cfgCacheMinTTL Default,
       MaxTTL = cfgCacheMaxTTL Default\<rparr>" for i k
    by (simp_all add: newServer_def)
  obtain m1 W1 where m1: "?h ?addr exampleRequest exampleServer = ([m1], W1)"
    "ID (header m1) = 7" "AD (header m1)" "Answers m1 = resAnswers res"
    using r by (auto simp: resolverAt_def resolverServe_def req Let_def zeroHeader_def init outcomeReply_def)
  obtain W2 where m2: "h2 ?addr exampleRequest exampleServer = ([m1], W2)"
    unfolding h2_def using flightAt_cases [of ?h ?addr exampleRequest exampleServer, OF m1(1)] init(2) by (metis surj_pair)
  obtain m W3 where m3: "cacheAt scripted 1 h2 ?addr exampleRequest exampleServer = ([m], W3)"
    "\<exists>t. m = cappedMsg t m1"
    using m2 by (auto simp: cacheAt_def cacheServe_def init req zeroHeader_def Let_def)
  have "map rrName (capTTLs t rrs) = map rrName rrs" for t rrs by (simp add: capTTLs_def)
  then have "ID (header m) = 7 \<and> AD (header m) \<and> map rrName (Answers m) = [lit ''a'']"
    using m1 m3(2) r(3) by (auto simp: cappedMsg_def)
  moreover have "permits LoopbackOnly ?addr" by code_simp
  ultimately show ?thesis using m3(1)
    by (auto simp: wrapWith_def aclServe_def h2_def numeral_2_eq_2)
qed


section \<open>Every query is answered\<close>

text \<open>A handler that keeps to this contract writes at most one message, and it is for the client that asked.\<close>

definition echoes :: "Message \<Rightarrow> Message \<Rightarrow> bool" where
  "echoes req m = (ID (header m) = ID (header req) \<and> QR (header m) \<and> RD (header m) = RD (header req) \<and>
     Questions m = Questions req \<and> Additionals m = [])"

definition idle :: "('n rstate \<Rightarrow> bool) \<Rightarrow> 'n server \<Rightarrow> bool" where
  "idle I W = (I (srvResolver W) \<and> (\<forall>i k. \<not> srvFlights W i k))"

definition answersWith :: "bool \<Rightarrow> ('n rstate \<Rightarrow> bool) \<Rightarrow> 'n server handler \<Rightarrow> bool" where
  "answersWith must I h =
     (\<forall>addr req W msgs W'. idle I W \<longrightarrow> h addr req W = (msgs, W') \<longrightarrow>
        idle I W' \<and> length msgs \<le> 1 \<and> (must \<longrightarrow> msgs \<noteq> []) \<and> list_all (echoes req) msgs)"

lemma answersWithD:
  "answersWith must I h \<Longrightarrow> idle I W \<Longrightarrow> h addr req W = (msgs, W') \<Longrightarrow>
     idle I W' \<and> length msgs \<le> 1 \<and> (must \<longrightarrow> msgs \<noteq> []) \<and> list_all (echoes req) msgs"
  by (simp add: answersWith_def)

lemma idle_update [simp]:
  "idle I (W\<lparr>srvCaches := x\<rparr>) = idle I W" "idle I (W\<lparr>srvLimiters := l\<rparr>) = idle I W"
  by (simp_all add: idle_def)

lemma acl_answers: "answersWith must I h \<Longrightarrow> answersWith must I (aclServe allowed h)"
  unfolding answersWith_def aclServe_def
  by (auto split: if_splits simp: echoes_def)

lemma ratelimit_answers:
  assumes "answersWith must I h"
  shows "answersWith False I (ratelimitAt E clientOrder i h)"
  unfolding answersWith_def
proof (intro allI impI)
  fix addr req W msgs W'
  assume W: "idle I W" and run: "ratelimitAt E clientOrder i h addr req W = (msgs, W')"
  obtain m V where V: "h addr req W = (m, V)" by (meson surj_pair)
  from run V obtain l where "(msgs = [] \<and> W' = W\<lparr>srvLimiters := l\<rparr>) \<or> (msgs = m \<and> W' = V\<lparr>srvLimiters := l\<rparr>)"
    by (auto simp: ratelimitAt_def ratelimitServe_def split: option.splits prod.splits bool.splits)
  then show "idle I W' \<and> length msgs \<le> 1 \<and> (False \<longrightarrow> msgs \<noteq> []) \<and> list_all (echoes req) msgs"
    using answersWithD [OF assms W V] W by auto
qed

lemma flight_answers:
  assumes "answersWith must I h"
  shows "answersWith must I (flightAt E i h)"
  unfolding answersWith_def
proof (intro allI impI)
  fix addr req W msgs W'
  assume W: "idle I W" and run: "flightAt E i h addr req W = (msgs, W')"
  obtain m V where V: "h addr req W = (m, V)" by (meson surj_pair)
  note k = answersWithD [OF assms W V]
  have free: "\<not> srvFlights W i q" for q using W unfolding idle_def by blast
  from flightAt_cases [OF V run] free obtain b where "msgs = m" "W' = V\<lparr>srvFlights := (srvFlights V)(i := b)\<rparr>"
    "\<forall>q. \<not> b q" by metis
  then have "msgs = m \<and> idle I W'" using k by (simp add: idle_def)
  then show "idle I W' \<and> length msgs \<le> 1 \<and> (must \<longrightarrow> msgs \<noteq> []) \<and> list_all (echoes req) msgs"
    using k by simp
qed

lemma cache_answers:
  assumes "answersWith must I h"
  shows "answersWith must I (cacheAt E i h)"
  unfolding answersWith_def
proof (intro allI impI)
  fix addr req W msgs W'
  assume W: "idle I W" and run: "cacheAt E i h addr req W = (msgs, W')"
  obtain m V where V: "h addr req W = (m, V)" by (meson surj_pair)
  note k = answersWithD [OF assms W V]
  have hit: "echoes req (cachedReply req ht)" for ht
    by (cases ht) (simp add: cachedReply_def echoes_def)
  have cap: "echoes req (cappedMsg t x) = echoes req x" for t x
    by (simp add: cappedMsg_def echoes_def)
  from run V have "idle I W' \<and> (msgs = m \<or> (\<exists>ht. msgs = [cachedReply req ht]) \<or> (\<exists>t. msgs = map (cappedMsg t) m))"
    using W k by (auto simp: cacheAt_def cacheServe_def Let_def split: if_splits prod.splits option.splits)
  then show "idle I W' \<and> length msgs \<le> 1 \<and> (must \<longrightarrow> msgs \<noteq> []) \<and> list_all (echoes req) msgs"
    using k hit by (auto simp: list_all_iff cap)
qed

lemma answersWith_weaken: "answersWith must I h \<Longrightarrow> (must' \<Longrightarrow> must) \<Longrightarrow> answersWith must' I h"
  unfolding answersWith_def by blast

lemma wrapFrom_answers:
  "answersWith True I h \<Longrightarrow> wrapFrom E clientOrder allowed i ns h = Inr h' \<Longrightarrow>
     answersWith (lit ''ratelimit'' \<notin> set ns) I h'"
proof (induction E clientOrder allowed i ns h arbitrary: h' rule: wrapFrom.induct)
  case (2 E clientOrder allowed i name ns h)
  from "2.prems"(2) obtain h1 where h1: "wrapFrom E clientOrder allowed (i + 1) ns h = Inr h1"
    and h': "wrapWith E clientOrder allowed i name h1 = Inr h'" by (auto simp: bindR_eq_Inr)
  note a = "2.IH" [OF "2.prems"(1) h1]
  have "answersWith (name \<noteq> lit ''ratelimit'' \<and> lit ''ratelimit'' \<notin> set ns) I h'"
  proof (cases "name = lit ''ratelimit''")
    case True
    then have "h' = ratelimitAt E clientOrder i h1" using h' by (simp add: wrapWith_def)
    then show ?thesis using ratelimit_answers [OF a] True by simp
  next
    case False
    then show ?thesis using h' a acl_answers flight_answers cache_answers
      by (auto simp: wrapWith_def split: if_splits)
  qed
  then show ?case by (rule answersWith_weaken) auto
qed simp

lemma resolverAt_answers: "answersWith True (stateOk E r (\<lambda>_. True)) (resolverAt E r)"
  unfolding answersWith_def
proof (intro allI impI)
  fix addr req W msgs W'
  assume W: "idle (stateOk E r (\<lambda>_. True)) W" and run: "resolverAt E r addr req W = (msgs, W')"
  then have s: "stateOk E r (\<lambda>_. True) (srvResolver W)" by (simp add: idle_def)
  obtain s' where s': "resolverServe E r addr req (srvResolver W) = (msgs, s')" "W' = W\<lparr>srvResolver := s'\<rparr>"
    using run by (auto simp: resolverAt_def split: prod.splits)
  obtain m where "msgs = [m]" "echoes req m"
    using handler_replies [OF s, of addr req] s'(1) by (auto simp: echoes_def)
  then show "idle (stateOk E r (\<lambda>_. True)) W' \<and> length msgs \<le> 1 \<and> (True \<longrightarrow> msgs \<noteq> []) \<and> list_all (echoes req) msgs"
    using W resolverServe_honest [OF s s'(1)] by (simp add: s'(2) idle_def)
qed

lemma serverRun_idle:
  assumes "wrapFrom E clientOrder allowed 0 ns (resolverAt E r) = Inr h" "serverRun c h W"
  shows "idle (stateOk E r (\<lambda>_. True)) W"
  using assms(2)
proof (induction rule: serverRun.induct)
  case (start n)
  then show ?case by (simp add: idle_def newServer_def newState_ok)
next
  case (serve W addr req msgs W')
  then show ?case using answersWithD [OF wrapFrom_answers [OF resolverAt_answers assms(1)]] by blast
next
  case (world W n)
  then show ?case by (simp add: idle_def stateOk_def)
qed

text \<open>
  (C8) Every query is answered once.  Whatever wrappers are put around the resolver, in whatever
  order, and after whatever queries were served before, the chain writes at most one message
  for a request, a response with its ID, RD and questions; and unless the rate limiter is in
  the chain, which may drop the query, it writes exactly one.
\<close>

theorem server_answers_once:
  assumes "wrapFrom E clientOrder allowed 0 ns (resolverAt E r) = Inr h" "serverRun c h W"
  shows "length (fst (h addr req W)) \<le> 1 \<and> list_all (echoes req) (fst (h addr req W)) \<and>
    (lit ''ratelimit'' \<notin> set ns \<longrightarrow> length (fst (h addr req W)) = 1)"
proof -
  obtain msgs W' where "h addr req W = (msgs, W')" by (meson surj_pair)
  from this answersWithD [OF wrapFrom_answers [OF resolverAt_answers assms(1)] serverRun_idle [OF assms] this]
  show ?thesis by (cases msgs) auto
qed

theorem server_answers_once_witness:
  "\<exists>h. wrapFrom scripted (\<lambda>_. []) LoopbackOnly 0 exampleChain (resolverAt scripted exampleResolver) = Inr h \<and>
     length (fst (h (TCPAddr [10, 0, 0, 1]) exampleRequest exampleServer)) = 1"
proof -
  obtain h where h: "wrapFrom scripted (\<lambda>_. []) LoopbackOnly 0 exampleChain (resolverAt scripted exampleResolver) = Inr h"
    using example_served by blast
  have "lit ''ratelimit'' \<notin> set exampleChain" by code_simp
  with server_answers_once [OF h serverRun.start] h show ?thesis by blast
qed

section \<open>Configurations\<close>

lemma find_None_set: "find P xs = None \<longleftrightarrow> (\<forall>x\<in>set xs. \<not> P x)"
  by (induction xs) auto

lemma wrapWith_known: "name \<in> set middlewareNames \<Longrightarrow> \<exists>h'. wrapWith E clientOrder allowed i name h = Inr h'"
  by (auto simp: middlewareNames_def wrapWith_def)

lemma wrapFrom_known:
  "set ns \<subseteq> set middlewareNames \<Longrightarrow> \<exists>h'. wrapFrom E clientOrder allowed i ns h = Inr h'"
proof (induction ns arbitrary: i)
  case (Cons name ns)
  then obtain h1 where "wrapFrom E clientOrder allowed (i + 1) ns h = Inr h1" by auto
  then show ?case using Cons.prems wrapWith_known [of name E clientOrder allowed i h1] by simp
qed simp

lemma buildHandler_valid:
  assumes "Validate (unicodeOf E) c = Inr ()"
    and "loadAnchors (unicodeOf E) readFile (cfgTrustAnchor c) = Inr anchors"
  obtains allowed h where "AllowedPrefixes (unicodeOf E) (cfgAllow c) = Inr allowed"
    "wrapFrom E clientOrder allowed 0 (cfgMiddleware c) (resolverAt E (resolverOf c anchors)) = Inr h"
    "buildHandler E clientOrder readFile c = Inr (resolverOf c anchors, h)"
proof -
  from assms(1) obtain allowed where allowed: "AllowedPrefixes (unicodeOf E) (cfgAllow c) = Inr allowed"
    and "find (\<lambda>name. name \<notin> set middlewareNames) (cfgMiddleware c) = None"
    by (auto simp: Validate_def bindR_eq_Inr split: if_splits option.splits)
  then have "set (cfgMiddleware c) \<subseteq> set middlewareNames" by (auto simp: find_None_set)
  then obtain h where "wrapFrom E clientOrder allowed 0 (cfgMiddleware c) (resolverAt E (resolverOf c anchors)) = Inr h"
    using wrapFrom_known by blast
  then show ?thesis using allowed assms(2) by (intro that) (simp_all add: buildHandler_def Let_def)
qed

text \<open>
  A configuration that passes \<open>Validate\<close> starts.  If it is valid and the trust anchors it
  names, if any, can be loaded, then \<open>buildHandler\<close> succeeds, with a resolver that has those
  anchors and the settings asked for and that never asks a private address.
\<close>

theorem valid_config_builds:
  assumes "Validate (unicodeOf E) c = Inr ()"
    and "loadAnchors (unicodeOf E) readFile (cfgTrustAnchor c) = Inr anchors"
  shows "\<exists>h. buildHandler E clientOrder readFile c = Inr (resolverOf c anchors, h) \<and>
    rValidate (resolverOf c anchors) = cfgDNSSEC c \<and> \<not> rAllowPrivate (resolverOf c anchors) \<and>
    (cfgTrustAnchor c \<noteq> [] \<longrightarrow> (\<exists>ds. anchors = Some ds \<and> trustAnchors (resolverOf c anchors) = ds))"
proof -
  have "cfgTrustAnchor c \<noteq> [] \<Longrightarrow> \<exists>ds. anchors = Some ds"
    using assms(2) by (auto simp: loadAnchors_def split: option.splits sum.splits)
  moreover obtain h where "buildHandler E clientOrder readFile c = Inr (resolverOf c anchors, h)"
    using buildHandler_valid [OF assms] .
  ultimately show ?thesis by (auto simp: resolverOf_def NewWithOptions_def trustAnchors_def)
qed

lemma Default_allows: "AllowedPrefixes u (cfgAllow Default) = Inr LoopbackOnly"
proof -
  have "isASCII (lit ''127.0.0.0/8'')" "isASCII (lit ''::1/128'')" by code_simp+
  moreover have "rev (dropWhile isSpace (rev (dropWhile isSpace (lit ''127.0.0.0/8'')))) = lit ''127.0.0.0/8''"
    "rev (dropWhile isSpace (rev (dropWhile isSpace (lit ''::1/128'')))) = lit ''::1/128''" by code_simp+
  ultimately show ?thesis by (simp add: Default_def TrimSpace_def ParsePrefix_loopback LoopbackOnly_def)
qed

lemma Default_valid: "Validate u Default = Inr ()"
proof -
  have "find (\<lambda>name. name \<notin> set middlewareNames) (cfgMiddleware Default) = None"
    by (simp add: Default_def middlewareNames_def)
  moreover have "cfgLogFormat Default = lit ''text''" "cfgLogLevel Default = lit ''info''"
    "cfgTLSListen Default = []" "cfgListen Default \<noteq> []" "\<not> cfgCacheMinTTL Default > cfgCacheMaxTTL Default"
    "\<not> cfgUpstreamTimeout Default > cfgQueryTimeout Default"
    by (simp_all add: Default_def lit_def second_def)
  ultimately show ?thesis by (simp add: Validate_def Default_allows)
qed

theorem valid_config_builds_witness:
  "\<exists>h. buildHandler scripted (\<lambda>_. []) (\<lambda>_. None) Default = Inr (resolverOf Default None, h)"
proof -
  have "loadAnchors (unicodeOf scripted) (\<lambda>_. None) (cfgTrustAnchor Default) = Inr None"
    by (simp add: loadAnchors_def Default_def)
  from valid_config_builds [OF Default_valid this] show ?thesis by blast
qed

end
