(* ===== verification/Server_Exchange.thy ===== *)
theory Server_Exchange
  imports Server_Facts Dns_Server
begin

text \<open>
  The server from bytes to bytes: the handler chain of \<open>Server_Config\<close> behind the sockets of
  \<open>Dns_Server\<close>, and the server that the default configuration starts.
\<close>

section \<open>What a packet starts with\<close>

lemma writeRR_grows: "writeRR u rr e = Inr e' \<Longrightarrow> \<exists>ext. ebuf e' = ebuf e @ ext"
proof -
  assume "writeRR u rr e = Inr e'"
  then obtain e1 e2 where e1: "writeName u (rrName rr) e = Inr e1"
    and e2: "writeRdata u rr (emit (put16 0) (writeUint32 (TTL rr) (writeUint16 (rrClass rr) (writeUint16 (rrType rr) e1)))) = Inr e2"
    and e': "ebuf e' = patch16 (length (ebuf e1) + 8) (word_of_nat (length (ebuf e2) - (10 + length (ebuf e1)))) (ebuf e2)"
    by (auto simp: writeRR_def Let_def bindR_eq_Inr writeUint16_def writeUint32_def emit_def)
  obtain x where x: "ebuf e1 = ebuf e @ x" using name_writer.grows [OF e1] by blast
  obtain y where "ebuf e2 = ebuf e1 @ y"
    using rdata_writer.grows [OF e2] by (auto simp: emit_def writeUint16_def writeUint32_def)
  then have "\<exists>z. ebuf e' = ebuf e1 @ z" using e' by (auto simp: patch16_def list_update_append)
  then show ?thesis using x by auto
qed

lemma writeRRs_grows: "writeRRs u rrs e = Inr e' \<Longrightarrow> \<exists>ext. ebuf e' = ebuf e @ ext"
proof (induction rrs arbitrary: e)
  case (Cons rr rrs)
  then obtain e1 where e1: "writeRR u rr e = Inr e1" "writeRRs u rrs e1 = Inr e'" by (auto simp: bindR_eq_Inr)
  then show ?case using Cons.IH [OF e1(2)] writeRR_grows [OF e1(1)] by force
qed simp

lemma writeQuestions_grows: "writeQuestions u qs e = Inr e' \<Longrightarrow> \<exists>ext. ebuf e' = ebuf e @ ext"
proof (induction qs arbitrary: e)
  case (Cons q qs)
  then obtain e0 e1 where e1: "writeName u (qName q) e = Inr e0" "e1 = writeUint16 (qClass q) (writeUint16 (qType q) e0)"
    "writeQuestions u qs e1 = Inr e'" by (auto simp: bindR_eq_Inr writeQuestion_def)
  then show ?case using Cons.IH [OF e1(3)] name_writer.grows [OF e1(1)]
    by (auto simp: writeUint16_def emit_def)
qed simp

lemma Pack_header: "Pack u m = Inr p \<Longrightarrow> \<exists>ext. p = headerBytes m @ ext"
  unfolding Pack_def bindR_eq_Inr
  by (elim exE conjE) (drule writeQuestions_grows, (drule writeRRs_grows)+, auto)

lemma udpWriteMsg_ID:
  assumes "udpWriteMsg u w msg = Inr p"
  shows "take 2 p = put16 (ID (header msg))"
proof -
  have "ID (header (outMsg b n msg)) = ID (header msg)" for b n by (simp add: outMsg_def)
  moreover have "ID (header (truncatedMsg m)) = ID (header m)" for m by (simp add: truncatedMsg_def)
  ultimately show ?thesis using udpWriteMsg_cases [OF assms]
    by (auto dest!: Pack_header simp: headerBytes_def put16_def)
qed

lemma length_sent: "length (sent wr msgs) \<le> length msgs"
  by (induction msgs) (auto simp: sent_def split: sum.split)


text \<open>A packet of a query for the name of the example: ID 7, RD, one question.\<close>

definition examplePacket :: "byte list" where
  "examplePacket = [0, 7, 1, 0, 0, 1, 0, 0, 0, 0, 0, 0, 1, 97, 0, 0, 1, 0, 1]"


section \<open>The default server\<close>

text \<open>
  (C38) The default server is private.  Without a configuration file and flags the server starts,
  validating against the compiled-in trust anchor, and it is closed: every query from another
  machine is told REFUSED, over UDP and TCP, without touching any state, so that neither the
  limiter, the cache nor the resolver can be reached from outside.
\<close>

theorem default_server_is_private:
  "\<exists>r h inner. startup E clientOrder readFile unmarshal [] [] = Inr (Default, r, h) \<and>
     rValidate r \<and> Some (trustAnchors r) = RootAnchors \<and>
     wrapFrom E clientOrder LoopbackOnly 1 (tl (cfgMiddleware Default)) (resolverAt E r) = Inr inner \<and>
     (\<forall>ip req W. \<forall>addr\<in>{UDPAddr ip, TCPAddr ip}. h addr req W =
        (if isLoopback ip then inner addr req W
         else ([reply (zeroHeader\<lparr>ID := ID (header req), QR := True, Opcode := Opcode (header req),
                  RD := RD (header req), RCode := RCodeRefused\<rparr>) (Questions req)], W)))"
proof -
  let ?r = "resolverOf Default None"
  have "loadAnchors (unicodeOf E) readFile (cfgTrustAnchor Default) = Inr None"
    by (simp add: loadAnchors_def Default_def)
  from buildHandler_valid [OF Default_valid this] obtain allowed h
    where allowed: "AllowedPrefixes (unicodeOf E) (cfgAllow Default) = Inr allowed"
      and h: "wrapFrom E clientOrder allowed 0 (cfgMiddleware Default) (resolverAt E ?r) = Inr h"
      and built: "buildHandler E clientOrder readFile Default = Inr (?r, h)" .
  have allowed: "allowed = LoopbackOnly" using allowed Default_allows [of "unicodeOf E"] by simp
  obtain ns where mw: "cfgMiddleware Default = lit ''acl'' # ns" by (simp add: Default_def)
  then obtain inner where inner: "wrapFrom E clientOrder LoopbackOnly 1 (tl (cfgMiddleware Default)) (resolverAt E ?r) = Inr inner"
    "h = aclServe LoopbackOnly inner"
    using h unfolding allowed mw by (auto simp: bindR_eq_Inr wrapWith_def)
  have "startup E clientOrder readFile unmarshal [] [] = Inr (Default, ?r, h)"
    by (simp add: startup_def Load_def Default_valid built)
  moreover have "rValidate ?r" by (simp add: resolverOf_def NewWithOptions_def Default_def)
  moreover have "Some (trustAnchors ?r) = RootAnchors"
  proof -
    obtain ds where ds: "RootAnchors = Some [ds]" using RootAnchors_defined by blast
    show ?thesis by (simp add: resolverOf_def NewWithOptions_def trustAnchors_def ds)
  qed
  moreover have "\<forall>ip req W. \<forall>addr\<in>{UDPAddr ip, TCPAddr ip}. h addr req W =
        (if isLoopback ip then inner addr req W
         else ([reply (zeroHeader\<lparr>ID := ID (header req), QR := True, Opcode := Opcode (header req),
                  RD := RD (header req), RCode := RCodeRefused\<rparr>) (Questions req)], W))"
    unfolding inner(2) aclServe_def using permits_loopback by auto
  ultimately show ?thesis using inner(1) by blast
qed

theorem default_server_is_private_witness:
  "\<exists>h :: byte list list server handler. \<forall>W.
     map (RCode \<circ> header) (fst (h (UDPAddr [192, 0, 2, 1]) exampleRequest W)) = [RCodeRefused]"
proof -
  have stranger: "\<not> isLoopback [192, 0, 2, 1]" by code_simp
  obtain h :: "byte list list server handler" and inner where
    h: "\<forall>ip req W. \<forall>addr\<in>{UDPAddr ip, TCPAddr ip}. h addr req W =
        (if isLoopback ip then inner addr req W
         else ([reply (zeroHeader\<lparr>ID := ID (header req), QR := True, Opcode := Opcode (header req),
                  RD := RD (header req), RCode := RCodeRefused\<rparr>) (Questions req)], W))"
    using default_server_is_private [of scripted "\<lambda>_. []" "\<lambda>_. None" "\<lambda>_ _. None"] by blast
  then have "\<forall>W. map (RCode \<circ> header) (fst (h (UDPAddr [192, 0, 2, 1]) exampleRequest W)) = [RCodeRefused]"
    using stranger by simp
  then show ?thesis by blast
qed

text \<open>
  An empty allow list does not mean the local machine only: it refuses every client.
\<close>

lemma empty_allow_refuses_everyone:
  "AllowedPrefixes u [] = Inr [] \<and>
   aclServe [] next addr req w =
     ([reply (zeroHeader\<lparr>ID := ID (header req), QR := True, Opcode := Opcode (header req),
         RD := RD (header req), RCode := RCodeRefused\<rparr>) (Questions req)], w)"
  by (simp add: aclServe_def permits_def split: option.split)

end
