(* ===== verification/Server_Lifecycle.thy ===== *)
theory Server_Lifecycle
  imports Go_Prelude
begin

text \<open>
  The life of a server (\<open>Serve\<close>, \<open>start\<close>, \<open>serveUDP\<close> and \<open>serveTCP\<close> of \<open>dnsserver/server.go\<close>).
  Every listener has an accept loop in a goroutine of its own, queries run in goroutines that
  \<open>start\<close> creates, one goroutine closes the listeners when the context is done, and \<open>Serve\<close>
  itself waits for the first error.  The model is a step relation; steps interleave freely.
  A step is an operation on a channel, on the semaphore or wait group, or on a listener.
\<close>

section \<open>State\<close>

text \<open>
  An accept loop is blocked in \<open>ReadFromUDP\<close> or \<open>Accept\<close>, or has a datagram or connection that
  it has not passed to \<open>start\<close> yet, or has ended with an error.
\<close>

datatype loop = Blocked | Got | Ended

datatype ioErr = ErrClosed | ErrIO

datatype mainState =
    AwaitErr
  | AwaitClosed ioErr
  | AwaitGroup ioErr
  | Returned "ioErr option"

text \<open>
  The loops are in the order in which the listeners are closed: UDP, then the others;
  \<open>shut\<close> counts those that are closed.  \<open>asked\<close> says that the caller's context is done, and
  \<open>ctxDone\<close> that the context derived from it is.
\<close>

record serving =
  semCap :: nat
  sem :: nat
  wg :: nat
  running :: "nat set"
  loops :: "loop list"
  shut :: nat
  errCh :: "ioErr list"
  asked :: bool
  ctxDone :: bool
  closedCh :: bool
  mainAt :: mainState

abbreviation (input) defaultMaxInFlight :: nat where "defaultMaxInFlight \<equiv> 512"

definition maxInFlight :: "int \<Rightarrow> nat" where
  "maxInFlight n = (if n > 0 then nat n else defaultMaxInFlight)"

section \<open>Steps\<close>

definition startServe :: "int \<Rightarrow> nat \<Rightarrow> serving" where
  "startServe n tcpLns =
     \<lparr>semCap = maxInFlight n, sem = 0, wg = 0, running = {}, loops = replicate (1 + tcpLns) Blocked,
      shut = 0, errCh = [], asked = False, ctxDone = False, closedCh = False, mainAt = AwaitErr\<rparr>"

text \<open>\<open>start\<close>: whether the query was taken on, as goroutine \<open>g\<close>; it is dropped if not.\<close>

definition start :: "nat \<Rightarrow> serving \<Rightarrow> bool \<times> serving" where
  "start g s =
     (if sem s < semCap s then (True, s\<lparr>sem := sem s + 1, wg := wg s + 1, running := insert g (running s)\<rparr>)
      else (False, s))"

text \<open>The deferred function of the goroutine.\<close>

definition finish :: "nat \<Rightarrow> serving \<Rightarrow> serving" where
  "finish g s = s\<lparr>sem := sem s - 1, wg := wg s - 1, running := running s - {g}\<rparr>"

text \<open>A turn of an accept loop: something arrives, and then it is passed to \<open>start\<close>.\<close>

abbreviation (input) received :: "nat \<Rightarrow> serving \<Rightarrow> serving" where
  "received i s \<equiv> s\<lparr>loops := (loops s)[i := Got]\<rparr>"

abbreviation (input) passedOn :: "nat \<Rightarrow> nat \<Rightarrow> serving \<Rightarrow> serving" where
  "passedOn i g s \<equiv> snd (start g (s\<lparr>loops := (loops s)[i := Blocked]\<rparr>))"

text \<open>An accept loop returns, and its goroutine sends the error.\<close>

definition endLoop :: "nat \<Rightarrow> ioErr \<Rightarrow> serving \<Rightarrow> serving" where
  "endLoop i e s = s\<lparr>loops := (loops s)[i := Ended], errCh := errCh s @ [e]\<rparr>"

text \<open>What \<open>Serve\<close> returns at its end; \<open>cancel\<close> has been called by then.\<close>

definition serveResult :: "bool \<Rightarrow> ioErr \<Rightarrow> ioErr option" where
  "serveResult done err = (if done \<and> err = ErrClosed then None else Some err)"

inductive serveStep :: "serving \<Rightarrow> serving \<Rightarrow> bool" where
  receive: "i < length (loops s) \<Longrightarrow> loops s ! i = Blocked \<Longrightarrow> shut s \<le> i \<Longrightarrow>
    serveStep s (received i s)"
| launch: "i < length (loops s) \<Longrightarrow> loops s ! i = Got \<Longrightarrow> g \<notin> running s \<Longrightarrow>
    serveStep s (passedOn i g s)"
| failed: "i < length (loops s) \<Longrightarrow> loops s ! i = Blocked \<Longrightarrow> (i < shut s \<longrightarrow> e = ErrClosed) \<Longrightarrow>
    serveStep s (endLoop i e s)"
| finished: "g \<in> running s \<Longrightarrow> serveStep s (finish g s)"
| ask: "\<not> asked s \<Longrightarrow> serveStep s (s\<lparr>asked := True, ctxDone := True\<rparr>)"
| close_next: "ctxDone s \<Longrightarrow> shut s < length (loops s) \<Longrightarrow> serveStep s (s\<lparr>shut := shut s + 1\<rparr>)"
| close_chan: "ctxDone s \<Longrightarrow> shut s = length (loops s) \<Longrightarrow> \<not> closedCh s \<Longrightarrow>
    serveStep s (s\<lparr>closedCh := True\<rparr>)"
| main_err: "mainAt s = AwaitErr \<Longrightarrow> errCh s = e # es \<Longrightarrow>
    serveStep s (s\<lparr>errCh := es, ctxDone := True, mainAt := AwaitClosed e\<rparr>)"
| main_closed: "mainAt s = AwaitClosed e \<Longrightarrow> closedCh s \<Longrightarrow> serveStep s (s\<lparr>mainAt := AwaitGroup e\<rparr>)"
| main_return: "mainAt s = AwaitGroup e \<Longrightarrow> wg s = 0 \<Longrightarrow>
    serveStep s (s\<lparr>mainAt := Returned (serveResult (ctxDone s) e)\<rparr>)"

definition returned :: "serving \<Rightarrow> bool" where
  "returned s = (case mainAt s of Returned _ \<Rightarrow> True | _ \<Rightarrow> False)"

section \<open>The invariant\<close>

definition loopsIn :: "loop \<Rightarrow> serving \<Rightarrow> nat" where
  "loopsIn l s = count_list (loops s) l"

definition serveInv :: "serving \<Rightarrow> bool" where
  "serveInv s =
     (finite (running s) \<and> sem s = card (running s) \<and> wg s = card (running s) \<and> card (running s) \<le> semCap s \<and>
      loops s \<noteq> [] \<and> shut s \<le> length (loops s) \<and>
      (closedCh s \<longrightarrow> ctxDone s \<and> shut s = length (loops s)) \<and> (mainAt s \<noteq> AwaitErr \<longrightarrow> ctxDone s) \<and>
      loopsIn Ended s = length (errCh s) + (if mainAt s = AwaitErr then 0 else 1) \<and>
      ((\<exists>e. mainAt s = AwaitGroup e) \<or> returned s \<longrightarrow> closedCh s) \<and>
      (returned s \<longrightarrow> card (running s) + loopsIn Got s \<le> length (loops s)))"

lemma count_list_update:
  "i < length xs \<Longrightarrow> count_list (xs[i := y]) x + (if xs ! i = x then 1 else 0) = count_list xs x + (if y = x then 1 else 0)"
proof (induction xs arbitrary: i)
  case (Cons a xs)
  show ?case
  proof (cases i)
    case (Suc j)
    then show ?thesis using Cons.IH [of j] Cons.prems by (auto split: if_splits)
  qed auto
qed simp

lemma start_same [simp]:
  "loops (snd (start g s)) = loops s" "mainAt (snd (start g s)) = mainAt s" "asked (snd (start g s)) = asked s"
  "closedCh (snd (start g s)) = closedCh s"
  by (simp_all add: start_def)

lemma loopsIn_update:
  assumes "i < length (loops s)" "loops s ! i = old" "loops s' = (loops s)[i := new]"
  shows "loopsIn l s' + (if old = l then 1 else 0) = loopsIn l s + (if new = l then 1 else 0)"
  using count_list_update [OF assms(1), of new l] assms(2,3) by (simp add: loopsIn_def)

lemma loopsIn_le: "loopsIn l s \<le> length (loops s)"
  by (simp add: loopsIn_def count_le_length)

lemma serveStep_inv: "serveStep s s' \<Longrightarrow> serveInv s \<Longrightarrow> serveInv s'"
proof (induction rule: serveStep.induct)
  case (receive i s)
  let ?s = "s\<lparr>loops := (loops s)[i := Got]\<rparr>"
  have "loopsIn Ended ?s = loopsIn Ended s" using loopsIn_update [OF receive(1,2), of ?s Got Ended] by simp
  moreover have "\<not> closedCh s" using receive by (auto simp: serveInv_def)
  ultimately show ?case using receive(4) by (auto simp: serveInv_def returned_def)
next
  case (launch i s g)
  let ?s = "snd (start g (s\<lparr>loops := (loops s)[i := Blocked]\<rparr>))"
  have "loopsIn Ended ?s = loopsIn Ended s" "loopsIn Got ?s + 1 = loopsIn Got s"
    using loopsIn_update [OF launch(1,2), of ?s Blocked Got]
      loopsIn_update [OF launch(1,2), of ?s Blocked Ended] loopsIn_update [OF launch(1,2), of ?s Blocked Blocked]
    by simp_all
  then show ?case using launch(3,4) by (auto simp: serveInv_def returned_def start_def)
next
  case (failed i s e)
  let ?s = "endLoop i e s"
  have "loopsIn Ended ?s = loopsIn Ended s + 1" "loopsIn Got ?s = loopsIn Got s"
    using loopsIn_update [OF failed(1,2), of ?s Ended Ended]
      loopsIn_update [OF failed(1,2), of ?s Ended Got] loopsIn_update [OF failed(1,2), of ?s Ended Blocked]
    by (simp_all add: endLoop_def)
  then show ?case using failed(4) by (auto simp: serveInv_def returned_def endLoop_def)
next
  case (finished g s)
  then have "card (running s - {g}) = card (running s) - 1" "card (running s) > 0"
    by (auto simp: serveInv_def card_gt_0_iff)
  then show ?case using finished by (auto simp: serveInv_def finish_def returned_def loopsIn_def)
next
  case (main_return s e)
  then show ?case using loopsIn_le [of Got s] by (auto simp: serveInv_def returned_def loopsIn_def)
qed (auto simp: serveInv_def returned_def loopsIn_def)

lemma serveStep_const: "serveStep s s' \<Longrightarrow> semCap s' = semCap s \<and> length (loops s') = length (loops s)"
  by (induction rule: serveStep.induct) (simp_all add: start_def finish_def endLoop_def)

lemma count_list_replicate: "count_list (replicate n x) y = (if x = y then n else 0)"
  by (induction n) auto

lemma serveRun_inv:
  "serveStep\<^sup>*\<^sup>* (startServe n tcpLns) s \<Longrightarrow>
     serveInv s \<and> semCap s = maxInFlight n \<and> length (loops s) = 1 + tcpLns"
proof (induction rule: rtranclp_induct)
  case base
  then show ?case by (simp add: startServe_def serveInv_def returned_def loopsIn_def count_list_replicate)
next
  case (step s s')
  then show ?case using serveStep_inv serveStep_const by simp
qed

section \<open>Shutdown\<close>

text \<open>Every way to go on leads to \<open>P\<close>.\<close>

inductive inevitably :: "(serving \<Rightarrow> bool) \<Rightarrow> serving \<Rightarrow> bool" for P where
  now: "P s \<Longrightarrow> inevitably P s"
| later: "serveStep s s0 \<Longrightarrow> (\<And>s'. serveStep s s' \<Longrightarrow> inevitably P s') \<Longrightarrow> inevitably P s"

text \<open>Work that is left once the listeners are closed.\<close>

definition workLeft :: "serving \<Rightarrow> nat" where
  "workLeft s = 3 * loopsIn Got s + loopsIn Blocked s + card (running s) +
     (case mainAt s of AwaitErr \<Rightarrow> 3 | AwaitClosed _ \<Rightarrow> 2 | AwaitGroup _ \<Rightarrow> 1 | Returned _ \<Rightarrow> 0) +
     (if asked s then 0 else 1)"

lemma closed_works_off: "serveStep s s' \<Longrightarrow> serveInv s \<Longrightarrow> closedCh s \<Longrightarrow> workLeft s' < workLeft s \<and> closedCh s'"
proof (induction rule: serveStep.induct)
  case (launch i s g)
  let ?s = "snd (start g (s\<lparr>loops := (loops s)[i := Blocked]\<rparr>))"
  have "loopsIn Got ?s + 1 = loopsIn Got s" "loopsIn Blocked ?s = loopsIn Blocked s + 1"
    using loopsIn_update [OF launch(1,2), of ?s Blocked Got]
      loopsIn_update [OF launch(1,2), of ?s Blocked Ended] loopsIn_update [OF launch(1,2), of ?s Blocked Blocked]
    by simp_all
  moreover have "card (running ?s) \<le> card (running s) + 1"
    using launch by (auto simp: start_def serveInv_def)
  ultimately show ?case using launch(5) by (simp add: workLeft_def)
next
  case (failed i s e)
  let ?s = "endLoop i e s"
  have "loopsIn Blocked ?s + 1 = loopsIn Blocked s" "loopsIn Got ?s = loopsIn Got s"
    using loopsIn_update [OF failed(1,2), of ?s Ended Ended]
      loopsIn_update [OF failed(1,2), of ?s Ended Got] loopsIn_update [OF failed(1,2), of ?s Ended Blocked]
    by (simp_all add: endLoop_def)
  then show ?case using failed(5) by (simp add: workLeft_def endLoop_def)
next
  case (finished g s)
  then have "card (running s - {g}) < card (running s)" unfolding serveInv_def by (meson card_Diff1_less)
  then show ?case using finished by (simp add: workLeft_def finish_def loopsIn_def)
qed (auto simp: workLeft_def loopsIn_def serveInv_def)

lemma closed_goes_on:
  assumes "serveInv s" "closedCh s" "\<not> returned s"
  shows "\<exists>s'. serveStep s s'"
proof (cases "mainAt s")
  case AwaitErr
  show ?thesis
  proof (cases "errCh s")
    case Nil
    then have "loopsIn Ended s = 0" "0 < length (loops s)" "shut s = length (loops s)"
      using assms AwaitErr by (auto simp: serveInv_def)
    then have first: "loops s ! 0 \<noteq> Ended" "0 < shut s"
      by (auto simp: loopsIn_def count_list_0_iff in_set_conv_nth)
    obtain g where g: "g \<notin> running s"
      using assms(1) ex_new_if_finite infinite_UNIV_nat unfolding serveInv_def by blast
    show ?thesis
    proof (cases "loops s ! 0")
      case Got
      then show ?thesis using serveStep.launch [of 0 s g] g \<open>0 < length (loops s)\<close> by blast
    next
      case Blocked
      then show ?thesis using serveStep.failed [of 0 s ErrClosed] \<open>0 < length (loops s)\<close> by blast
    qed (use first in simp)
  qed (use AwaitErr serveStep.main_err in blast)
next
  case (AwaitGroup e)
  show ?thesis
  proof (cases "wg s = 0")
    case False
    then have "running s \<noteq> {}" using assms(1) by (auto simp: serveInv_def)
    then show ?thesis using serveStep.finished by blast
  qed (use AwaitGroup serveStep.main_return in blast)
qed (use assms serveStep.main_closed returned_def in auto)

lemma closed_returns: "serveInv s \<Longrightarrow> closedCh s \<Longrightarrow> inevitably returned s"
proof (induction "workLeft s" arbitrary: s rule: less_induct)
  case less
  show ?case
  proof (cases "returned s")
    case False
    then obtain s0 where "serveStep s s0" using closed_goes_on less.prems by blast
    then show ?thesis
      by (rule inevitably.later) (use less closed_works_off serveStep_inv in blast)
  qed (rule inevitably.now)
qed

lemma done_closes:
  "ctxDone s \<Longrightarrow> shut s \<le> length (loops s) \<Longrightarrow> \<exists>s'. serveStep\<^sup>*\<^sup>* s s' \<and> closedCh s'"
proof (induction "length (loops s) - shut s" arbitrary: s)
  case 0
  then show ?case
    using serveStep.close_chan [of s] by (cases "closedCh s") (force intro: exI [of _ "s\<lparr>closedCh := True\<rparr>"])+
next
  case (Suc n)
  let ?s = "s\<lparr>shut := shut s + 1\<rparr>"
  have st: "serveStep s ?s" using Suc by (intro serveStep.close_next) auto
  moreover obtain s' where "serveStep\<^sup>*\<^sup>* ?s s'" "closedCh s'" using Suc(1) [of ?s] Suc(2-) by force
  ultimately show ?case by (meson converse_rtranclp_into_rtranclp)
qed

text \<open>
  (C37) Bounded work and shutdown.  However datagrams and connections arrive, listeners fail and
  queries finish, no more than the configured number of queries are in progress.  Once the
  context is done the listeners can all be closed, and from then on, however the goroutines
  are scheduled, \<open>Serve\<close> returns.  When it has, at most one query for each listener can be in
  progress or still start.
\<close>

theorem serve_bounded_and_returns:
  assumes "serveStep\<^sup>*\<^sup>* (startServe n tcpLns) s"
  shows "card (running s) \<le> maxInFlight n \<and>
    (ctxDone s \<longrightarrow> (\<exists>s'. serveStep\<^sup>*\<^sup>* s s' \<and> closedCh s')) \<and>
    (closedCh s \<longrightarrow> inevitably returned s) \<and>
    (returned s \<longrightarrow> card (running s) + loopsIn Got s \<le> 1 + tcpLns)"
  using serveRun_inv [OF assms] done_closes [of s] closed_returns [of s] by (auto simp: serveInv_def)

theorem serve_bounded_and_returns_witness:
  "\<exists>s. serveStep\<^sup>*\<^sup>* (startServe 1 1) s \<and> ctxDone s \<and> (\<exists>s'. serveStep\<^sup>*\<^sup>* s s' \<and> closedCh s')"
proof -
  have "serveStep (startServe 1 1) ((startServe 1 1)\<lparr>asked := True, ctxDone := True\<rparr>)"
    by (rule serveStep.ask) (simp add: startServe_def)
  then have r: "serveStep\<^sup>*\<^sup>* (startServe 1 1) ((startServe 1 1)\<lparr>asked := True, ctxDone := True\<rparr>)" by blast
  moreover have "ctxDone ((startServe 1 1)\<lparr>asked := True, ctxDone := True\<rparr>)" by simp
  ultimately show ?thesis using serve_bounded_and_returns [OF r] by blast
qed

section \<open>Two defects\<close>

text \<open>
  \<open>Serve\<close> waits for one accept loop only.  Another one that has a datagram in hand can pass it to
  \<open>start\<close> after the wait group was found empty: \<open>Serve\<close> has returned and a query is in progress.
\<close>

theorem serve_returns_early:
  "\<exists>s. serveStep\<^sup>*\<^sup>* (startServe 512 1) s \<and> asked s \<and> mainAt s = Returned None \<and> running s = {0}"
proof -
  define t where "t l sh er a c m = \<lparr>semCap = 512, sem = 0, wg = 0, running = {}, loops = l, shut = sh, errCh = er,
    asked = a, ctxDone = a, closedCh = c, mainAt = m\<rparr>" for l sh er a c m
  note [trans] = rtranclp.rtrancl_into_rtrancl
  have "serveStep\<^sup>*\<^sup>* (t [Blocked, Blocked] 0 [] False False AwaitErr) (t [Blocked, Blocked] 0 [] False False AwaitErr)"
    by simp
  also have "serveStep (t [Blocked, Blocked] 0 [] False False AwaitErr) (t [Got, Blocked] 0 [] False False AwaitErr)"
    using serveStep.receive [of 0 "t [Blocked, Blocked] 0 [] False False AwaitErr"] by (simp add: t_def)
  also have "serveStep (t [Got, Blocked] 0 [] False False AwaitErr) (t [Got, Blocked] 0 [] True False AwaitErr)"
    using serveStep.ask [of "t [Got, Blocked] 0 [] False False AwaitErr"] by (simp add: t_def)
  also have "serveStep (t [Got, Blocked] 0 [] True False AwaitErr) (t [Got, Blocked] 1 [] True False AwaitErr)"
    using serveStep.close_next [of "t [Got, Blocked] 0 [] True False AwaitErr"] by (simp add: t_def)
  also have "serveStep (t [Got, Blocked] 1 [] True False AwaitErr) (t [Got, Blocked] 2 [] True False AwaitErr)"
    using serveStep.close_next [of "t [Got, Blocked] 1 [] True False AwaitErr"] by (simp add: t_def numeral_2_eq_2)
  also have "serveStep (t [Got, Blocked] 2 [] True False AwaitErr) (t [Got, Blocked] 2 [] True True AwaitErr)"
    using serveStep.close_chan [of "t [Got, Blocked] 2 [] True False AwaitErr"] by (simp add: t_def)
  also have "serveStep (t [Got, Blocked] 2 [] True True AwaitErr) (t [Got, Ended] 2 [ErrClosed] True True AwaitErr)"
    using serveStep.failed [of 1 "t [Got, Blocked] 2 [] True True AwaitErr" ErrClosed] by (simp add: t_def endLoop_def)
  also have "serveStep (t [Got, Ended] 2 [ErrClosed] True True AwaitErr) (t [Got, Ended] 2 [] True True (AwaitClosed ErrClosed))"
    using serveStep.main_err [of "t [Got, Ended] 2 [ErrClosed] True True AwaitErr"] by (simp add: t_def)
  also have "serveStep (t [Got, Ended] 2 [] True True (AwaitClosed ErrClosed)) (t [Got, Ended] 2 [] True True (AwaitGroup ErrClosed))"
    using serveStep.main_closed [of "t [Got, Ended] 2 [] True True (AwaitClosed ErrClosed)"] by (simp add: t_def)
  also have "serveStep (t [Got, Ended] 2 [] True True (AwaitGroup ErrClosed)) (t [Got, Ended] 2 [] True True (Returned None))"
    using serveStep.main_return [of "t [Got, Ended] 2 [] True True (AwaitGroup ErrClosed)"] by (simp add: t_def serveResult_def)
  also have "serveStep (t [Got, Ended] 2 [] True True (Returned None))
      (snd (start 0 (t [Blocked, Ended] 2 [] True True (Returned None))))"
    using serveStep.launch [of 0 "t [Got, Ended] 2 [] True True (Returned None)" 0] by (simp add: t_def)
  finally have "serveStep\<^sup>*\<^sup>* (t [Blocked, Blocked] 0 [] False False AwaitErr)
      (snd (start 0 (t [Blocked, Ended] 2 [] True True (Returned None))))" .
  moreover have "startServe 512 1 = t [Blocked, Blocked] 0 [] False False AwaitErr"
    by (simp add: startServe_def t_def maxInFlight_def numeral_2_eq_2)
  ultimately show ?thesis
    by (intro exI [of _ "snd (start 0 (t [Blocked, Ended] 2 [] True True (Returned None)))"])
       (simp add: start_def t_def)
qed

text \<open>
  The test at the end of \<open>Serve\<close> comes after \<open>cancel\<close>, so the context is done whoever ended it:
  a listener that somebody else closed makes \<open>Serve\<close> return without an error.
\<close>

lemma returned_after_cancel:
  "serveStep\<^sup>*\<^sup>* (startServe n tcpLns) s \<Longrightarrow> mainAt s = AwaitGroup e \<Longrightarrow>
     serveResult (ctxDone s) e = (if e = ErrClosed then None else Some e)"
  using serveRun_inv [of n tcpLns s] by (auto simp: serveInv_def serveResult_def)

end
