(* ===== verification/Concurrent_Chain.thy ===== *)
theory Concurrent_Chain
  imports Server_Facts
begin

text \<open>
  The handler chain of the default configuration with queries that overlap.  Every query runs
  in a goroutine of its own; a step is what one of them does under a mutex (the limiter, the
  store of the cache, the map of queries in flight), one operation on the channel of a call, or
  one resolution.  The tables of the resolver are not interleaved: a resolution is one step.
\<close>

section \<open>State\<close>

text \<open>Where in the chain a query is, from the outside in and back out.\<close>

datatype place =
    AtAcl
  | AtLimiter
  | AtCache
  | AtFlight
  | AtResolver
  | Unregistering "Message option"
  | ClosingCall "Message option"
  | WaitingFor nat
  | AtPut "Message option"
  | Finished

record job =
  jAddr :: netAddr
  jReq :: Message
  jAt :: place
  jOut :: "Message list"

record 'n chain =
  chStore :: store
  chLimiter :: limiter
  chFlying :: "flightKey \<Rightarrow> nat option"
  chCalls :: "nat \<Rightarrow> Message option option"
  chResolver :: "'n rstate"
  chJobs :: "nat \<Rightarrow> job option"

definition newChain :: "config \<Rightarrow> 'n \<Rightarrow> 'n chain" where
  "newChain c n =
     \<lparr>chStore = newStore \<lparr>MaxEntries = cfgCacheEntries c, MinTTL = cfgCacheMinTTL c, MaxTTL = cfgCacheMaxTTL c\<rparr>,
      chLimiter = newLimiter (cfgRateLimit c) (cfgBurst c), chFlying = (\<lambda>_. None), chCalls = (\<lambda>_. None),
      chResolver = newState n, chJobs = (\<lambda>_. None)\<rparr>"

definition setJob :: "nat \<Rightarrow> job \<Rightarrow> 'n chain \<Rightarrow> 'n chain" where
  "setJob g j s = s\<lparr>chJobs := (chJobs s)(g := Some j)\<rparr>"

lemma setJob_simps [simp]:
  "chStore (setJob g j s) = chStore s" "chLimiter (setJob g j s) = chLimiter s"
  "chFlying (setJob g j s) = chFlying s" "chCalls (setJob g j s) = chCalls s"
  "chResolver (setJob g j s) = chResolver s" "chJobs (setJob g j s) = (chJobs s)(g := Some j)"
  by (simp_all add: setJob_def)

definition timeOf :: "'n env \<Rightarrow> 'n chain \<Rightarrow> int" where
  "timeOf E s = nowOf E (chResolver s)"

definition questionOf :: "job \<Rightarrow> Question" where
  "questionOf j = hd (Questions (jReq j))"

definition flightOf :: "'n env \<Rightarrow> job \<Rightarrow> flightKey" where
  "flightOf E j = flightKeyOf (unicodeOf E) (questionOf j)"

section \<open>Steps\<close>

definition refusal :: "Message \<Rightarrow> Message" where
  "refusal req = reply (zeroHeader\<lparr>ID := ID (header req), QR := True, Opcode := Opcode (header req),
     RD := RD (header req), RCode := RCodeRefused\<rparr>) (Questions req)"

definition aclPass :: "prefix list \<Rightarrow> nat \<Rightarrow> job \<Rightarrow> 'n chain \<Rightarrow> 'n chain" where
  "aclPass allowed g j s =
     setJob g (if permits allowed (jAddr j) then j\<lparr>jAt := AtLimiter\<rparr>
               else j\<lparr>jAt := Finished, jOut := jOut j @ [refusal (jReq j)]\<rparr>) s"

definition limiterPass :: "'n env \<Rightarrow> ipAddr list \<Rightarrow> nat \<Rightarrow> job \<Rightarrow> 'n chain \<Rightarrow> 'n chain" where
  "limiterPass E clientOrder g j s =
     (case addrIP (jAddr j) of
        None \<Rightarrow> setJob g (j\<lparr>jAt := AtCache\<rparr>) s
      | Some ip \<Rightarrow>
          (case allow clientOrder ip (timeOf E s) (chLimiter s) of
             (ok, l) \<Rightarrow> setJob g (j\<lparr>jAt := (if ok then AtCache else Finished)\<rparr>) (s\<lparr>chLimiter := l\<rparr>)))"

text \<open>The cache and the collapsing of queries let the same requests through untouched.\<close>

definition cachePass :: "'n env \<Rightarrow> nat \<Rightarrow> job \<Rightarrow> 'n chain \<Rightarrow> 'n chain" where
  "cachePass E g j s =
     (if \<not> collapsible (jReq j) then setJob g (j\<lparr>jAt := AtFlight\<rparr>) s
      else (case lookup (unicodeOf E) (chStore s) (qName (questionOf j)) (qType (questionOf j)) (timeOf E s) of
          (st, Some hit) \<Rightarrow>
            setJob g (j\<lparr>jAt := Finished, jOut := jOut j @ [cachedReply (jReq j) hit]\<rparr>) (s\<lparr>chStore := st\<rparr>)
        | (st, None) \<Rightarrow> setJob g (j\<lparr>jAt := AtFlight\<rparr>) (s\<lparr>chStore := st\<rparr>)))"

definition flightPass :: "'n env \<Rightarrow> nat \<Rightarrow> job \<Rightarrow> 'n chain \<Rightarrow> 'n chain" where
  "flightPass E g j s =
     (if \<not> collapsible (jReq j) then setJob g (j\<lparr>jAt := AtResolver\<rparr>) s
      else (case chFlying s (flightOf E j) of
          Some c \<Rightarrow> setJob g (j\<lparr>jAt := WaitingFor c\<rparr>) s
        | None \<Rightarrow> setJob g (j\<lparr>jAt := AtResolver\<rparr>) (s\<lparr>chFlying := (chFlying s)(flightOf E j := Some g)\<rparr>)))"

text \<open>What the writer of the cache makes of a message on its way to the client.\<close>

definition toClient :: "'n chain \<Rightarrow> job \<Rightarrow> Message \<Rightarrow> Message" where
  "toClient s j msg = (if collapsible (jReq j) then cappedMsg (maxTTLBound (chStore s)) msg else msg)"

definition resolverPass :: "'n env \<Rightarrow> resolver \<Rightarrow> nat \<Rightarrow> job \<Rightarrow> 'n chain \<Rightarrow> 'n chain" where
  "resolverPass E r g j s =
     (case resolverServe E r (jAddr j) (jReq j) (chResolver s) of
        (msgs, st) \<Rightarrow>
          setJob g (j\<lparr>jAt := (if collapsible (jReq j) then Unregistering (lastOf msgs) else Finished),
                      jOut := jOut j @ map (toClient s j) msgs\<rparr>) (s\<lparr>chResolver := st\<rparr>))"

definition unregisterPass :: "'n env \<Rightarrow> nat \<Rightarrow> job \<Rightarrow> Message option \<Rightarrow> 'n chain \<Rightarrow> 'n chain" where
  "unregisterPass E g j m s =
     setJob g (j\<lparr>jAt := ClosingCall m\<rparr>) (s\<lparr>chFlying := (chFlying s)(flightOf E j := None)\<rparr>)"

definition closePass :: "nat \<Rightarrow> job \<Rightarrow> Message option \<Rightarrow> 'n chain \<Rightarrow> 'n chain" where
  "closePass g j m s = setJob g (j\<lparr>jAt := AtPut m\<rparr>) (s\<lparr>chCalls := (chCalls s)(g := Some m)\<rparr>)"

definition wakePass :: "nat \<Rightarrow> job \<Rightarrow> Message option \<Rightarrow> 'n chain \<Rightarrow> 'n chain" where
  "wakePass g j m s =
     setJob g (case m of
         None \<Rightarrow> j\<lparr>jAt := AtPut None\<rparr>
       | Some msg \<Rightarrow>
           let a = shareAnswer (jReq j) msg in
           j\<lparr>jAt := AtPut (Some a), jOut := jOut j @ [toClient s j a]\<rparr>) s"

definition putPass :: "'n env \<Rightarrow> nat \<Rightarrow> job \<Rightarrow> Message option \<Rightarrow> 'n chain \<Rightarrow> 'n chain" where
  "putPass E g j m s =
     setJob g (j\<lparr>jAt := Finished\<rparr>) (case m of
         None \<Rightarrow> s
       | Some a \<Rightarrow> s\<lparr>chStore := put (unicodeOf E) (chStore s) (qName (questionOf j)) (qType (questionOf j))
           (RCode (header a)) (Answers a) (Authorities a) (AD (header a)) (timeOf E s)\<rparr>)"

inductive chainStep :: "'n env \<Rightarrow> resolver \<Rightarrow> prefix list \<Rightarrow> 'n chain \<Rightarrow> 'n chain \<Rightarrow> bool" for E r allowed where
  arrive: "chJobs s g = None \<Longrightarrow>
    chainStep E r allowed s (setJob g \<lparr>jAddr = addr, jReq = req, jAt = AtAcl, jOut = []\<rparr> s)"
| acl: "chJobs s g = Some j \<Longrightarrow> jAt j = AtAcl \<Longrightarrow> chainStep E r allowed s (aclPass allowed g j s)"
| limiter: "chJobs s g = Some j \<Longrightarrow> jAt j = AtLimiter \<Longrightarrow>
    chainStep E r allowed s (limiterPass E clientOrder g j s)"
| cache: "chJobs s g = Some j \<Longrightarrow> jAt j = AtCache \<Longrightarrow> chainStep E r allowed s (cachePass E g j s)"
| flight: "chJobs s g = Some j \<Longrightarrow> jAt j = AtFlight \<Longrightarrow> chainStep E r allowed s (flightPass E g j s)"
| resolver: "chJobs s g = Some j \<Longrightarrow> jAt j = AtResolver \<Longrightarrow> chainStep E r allowed s (resolverPass E r g j s)"
| unregister: "chJobs s g = Some j \<Longrightarrow> jAt j = Unregistering m \<Longrightarrow>
    chainStep E r allowed s (unregisterPass E g j m s)"
| close: "chJobs s g = Some j \<Longrightarrow> jAt j = ClosingCall m \<Longrightarrow> chainStep E r allowed s (closePass g j m s)"
| wake: "chJobs s g = Some j \<Longrightarrow> jAt j = WaitingFor c \<Longrightarrow> chCalls s c = Some m \<Longrightarrow>
    chainStep E r allowed s (wakePass g j m s)"
| give_up: "chJobs s g = Some j \<Longrightarrow> jAt j = WaitingFor c \<Longrightarrow>
    chainStep E r allowed s (setJob g (j\<lparr>jAt := AtPut None\<rparr>) s)"
| put: "chJobs s g = Some j \<Longrightarrow> jAt j = AtPut m \<Longrightarrow> chainStep E r allowed s (putPass E g j m s)"
| world: "chainStep E r allowed s (s\<lparr>chResolver := (chResolver s)\<lparr>sNet := n\<rparr>\<rparr>)"

abbreviation chainRun :: "'n env \<Rightarrow> resolver \<Rightarrow> prefix list \<Rightarrow> config \<Rightarrow> 'n chain \<Rightarrow> bool" where
  "chainRun E r allowed c s \<equiv> \<exists>n. (chainStep E r allowed)\<^sup>*\<^sup>* (newChain c n) s"

section \<open>The invariant\<close>

text \<open>A query that leads a call which is not closed yet.\<close>

definition leading :: "job \<Rightarrow> bool" where
  "leading j = (collapsible (jReq j) \<and>
     (case jAt j of AtResolver \<Rightarrow> True | Unregistering _ \<Rightarrow> True | ClosingCall _ \<Rightarrow> True | _ \<Rightarrow> False))"

text \<open>A query that the map of queries in flight may point to.\<close>

definition registered :: "'n env \<Rightarrow> flightKey \<Rightarrow> job \<Rightarrow> bool" where
  "registered E k j = (collapsible (jReq j) \<and> flightOf E j = k \<and>
     (case jAt j of AtResolver \<Rightarrow> True | Unregistering _ \<Rightarrow> True | _ \<Rightarrow> False))"

lemma registered_leading: "registered E k j \<Longrightarrow> leading j"
  by (auto simp: registered_def leading_def split: place.splits)

text \<open>An answer that may be shared: an honest response.\<close>

definition sharable :: "'n env \<Rightarrow> resolver \<Rightarrow> Message option \<Rightarrow> bool" where
  "sharable E r m = (case m of None \<Rightarrow> False
     | Some a \<Rightarrow> proven.honest (unicodeOf E) (cryptoOf E) (trustAnchors r) a \<and> QR (header a) \<and> Additionals a = [])"

definition goodOut :: "'n env \<Rightarrow> resolver \<Rightarrow> job \<Rightarrow> bool" where
  "goodOut E r j = list_all (\<lambda>m. proven.honest (unicodeOf E) (cryptoOf E) (trustAnchors r) m \<and> echoes (jReq j) m) (jOut j)"

definition jobInv :: "'n env \<Rightarrow> resolver \<Rightarrow> 'n chain \<Rightarrow> nat \<Rightarrow> job \<Rightarrow> bool" where
  "jobInv E r s g j =
     (goodOut E r j \<and>
      (case jAt j of
         Unregistering m \<Rightarrow> sharable E r m \<and> length (jOut j) = 1 \<and> chCalls s g = None
       | ClosingCall m \<Rightarrow> sharable E r m \<and> length (jOut j) = 1 \<and> chCalls s g = None
       | WaitingFor c \<Rightarrow> jOut j = [] \<and> chCalls s g = None \<and> collapsible (jReq j) \<and>
           (chCalls s c = None \<longrightarrow> (\<exists>j'. chJobs s c = Some j' \<and> leading j'))
       | AtPut m \<Rightarrow> length (jOut j) \<le> 1 \<and> (m = None \<or> sharable E r m)
       | Finished \<Rightarrow> length (jOut j) \<le> 1
       | _ \<Rightarrow> jOut j = [] \<and> chCalls s g = None))"

definition chainInv :: "'n env \<Rightarrow> resolver \<Rightarrow> 'n chain \<Rightarrow> bool" where
  "chainInv E r s =
     (stateOk E r (\<lambda>_. True) (chResolver s) \<and>
      proven.honestStore (unicodeOf E) (cryptoOf E) (trustAnchors r) (unicodeOf E) (chStore s) \<and>
      (\<forall>c m. chCalls s c = Some m \<longrightarrow> sharable E r m \<and> chJobs s c \<noteq> None) \<and>
      (\<forall>k c. chFlying s k = Some c \<longrightarrow> (\<exists>j. chJobs s c = Some j \<and> registered E k j)) \<and>
      (\<forall>g j. chJobs s g = Some j \<longrightarrow> jobInv E r s g j))"

lemma chainInvD:
  assumes "chainInv E r s"
  shows "stateOk E r (\<lambda>_. True) (chResolver s)"
    and "proven.honestStore (unicodeOf E) (cryptoOf E) (trustAnchors r) (unicodeOf E) (chStore s)"
    and "chCalls s c = Some m \<Longrightarrow> sharable E r m \<and> chJobs s c \<noteq> None"
    and "chFlying s k = Some c \<Longrightarrow> \<exists>j. chJobs s c = Some j \<and> registered E k j"
    and "chJobs s g = Some j \<Longrightarrow> jobInv E r s g j"
  using assms unfolding chainInv_def by blast+

text \<open>A step changes the job of one goroutine; what the others rely on stays.\<close>

lemma jobInv_other:
  assumes "jobInv E r s i ji" "i \<noteq> g" "chJobs s' = (chJobs s)(g := Some j')"
    and calls: "chCalls s' = chCalls s \<or> (\<exists>m. chCalls s' = (chCalls s)(g := Some m))"
    and lead: "\<And>j. chJobs s g = Some j \<Longrightarrow> leading j \<Longrightarrow> leading j' \<or> chCalls s' g \<noteq> None"
  shows "jobInv E r s' i ji"
proof -
  have i: "chCalls s' i = chCalls s i" using calls assms(2) by auto
  have w: "\<exists>j. chJobs s' c = Some j \<and> leading j"
    if relied: "chCalls s c = None \<longrightarrow> (\<exists>j. chJobs s c = Some j \<and> leading j)" and still: "chCalls s' c = None" for c
  proof -
    have "chCalls s c = None" using calls still by (auto split: if_splits)
    then obtain j where j: "chJobs s c = Some j" "leading j" using relied by blast
    then show ?thesis using lead [of j] still assms(3) by (cases "c = g") auto
  qed
  show ?thesis using assms(1) w unfolding jobInv_def i by (cases "jAt ji") auto
qed

lemma chainInv_update:
  assumes inv: "chainInv E r s" and jobs: "chJobs s' = (chJobs s)(g := Some j')"
    and calls: "chCalls s' = chCalls s \<or> (\<exists>m. chCalls s' = (chCalls s)(g := Some m) \<and> sharable E r m)"
    and res: "stateOk E r (\<lambda>_. True) (chResolver s')"
    and sto: "proven.honestStore (unicodeOf E) (cryptoOf E) (trustAnchors r) (unicodeOf E) (chStore s')"
    and fly: "\<And>k c. chFlying s' k = Some c \<Longrightarrow> (if c = g then registered E k j' else chFlying s k = Some c)"
    and own: "jobInv E r s' g j'"
    and lead: "\<And>j. chJobs s g = Some j \<Longrightarrow> leading j \<Longrightarrow> leading j' \<or> chCalls s' g \<noteq> None"
  shows "chainInv E r s'"
  unfolding chainInv_def
proof (intro conjI allI impI)
  have calls': "chCalls s' = chCalls s \<or> (\<exists>m. chCalls s' = (chCalls s)(g := Some m))" using calls by blast
  show "jobInv E r s' i ji" if "chJobs s' i = Some ji" for i ji
  proof (cases "i = g")
    case False
    then have "jobInv E r s i ji" using chainInvD(5) [OF inv] that jobs by simp
    then show ?thesis by (rule jobInv_other [OF _ False jobs calls']) (use lead in auto)
  qed (use own that jobs in simp)
  show "\<exists>j. chJobs s' c = Some j \<and> registered E k j" if "chFlying s' k = Some c" for k c
    using fly [OF that] chainInvD(4) [OF inv] jobs by (cases "c = g") auto
  show "sharable E r m" "chJobs s' c \<noteq> None" if "chCalls s' c = Some m" for c m
    using that calls chainInvD(3) [OF inv, of c m] jobs by (auto split: if_splits)
qed (use res sto in auto)

text \<open>A job that moves on before it leads a call, with the same tables but for the limiter and the store.\<close>

lemma chainInv_move:
  assumes "chainInv E r s" "\<And>j. chJobs s g = Some j \<Longrightarrow> \<not> leading j"
    and "chJobs s' = (chJobs s)(g := Some j')" "chCalls s' = chCalls s" "chFlying s' = chFlying s"
    and "chResolver s' = chResolver s"
    and "proven.honestStore (unicodeOf E) (cryptoOf E) (trustAnchors r) (unicodeOf E) (chStore s')"
    and "jobInv E r s' g j'"
  shows "chainInv E r s'"
proof (rule chainInv_update [OF assms(1,3)])
  fix k c
  assume "chFlying s' k = Some c"
  then have "chFlying s k = Some c" by (simp add: assms(5))
  moreover from this obtain j where "chJobs s c = Some j" "registered E k j" using chainInvD(4) [OF assms(1)] by blast
  ultimately show "if c = g then registered E k j' else chFlying s k = Some c"
    using assms(2) registered_leading by metis
qed (use assms chainInvD(1) [OF assms(1)] in auto)

lemmas job_simps = jobInv_def goodOut_def leading_def

lemma honest_refusal: "proven.honest u cr anchors (refusal req) \<and> echoes req (refusal req)"
  by (simp add: proven.honest_def proven.lawful_def refusal_def zeroHeader_def echoes_def)

lemma cachedReply_echoes: "echoes req (cachedReply req hit)"
  by (cases hit) (simp add: cachedReply_def echoes_def)

lemma toClient_honest:
  "proven.honest u cr anchors (toClient s j m) = proven.honest u cr anchors m" "echoes req (toClient s j m) = echoes req m"
  by (simp_all add: toClient_def cappedMsg_def echoes_def proven.honest_cappedMsg [unfolded cappedMsg_def])

lemma echoesD: "echoes req m \<Longrightarrow> QR (header m) \<and> Additionals m = []"
  by (simp add: echoes_def)

lemma arrive_inv:
  assumes "chainInv E r s" "chJobs s g = None"
  shows "chainInv E r (setJob g \<lparr>jAddr = addr, jReq = req, jAt = AtAcl, jOut = []\<rparr> s)"
proof (rule chainInv_move [OF assms(1)])
  have "chCalls s g = None" using chainInvD(3) [OF assms(1), of g] assms(2) by (cases "chCalls s g") auto
  then show "jobInv E r (setJob g \<lparr>jAddr = addr, jReq = req, jAt = AtAcl, jOut = []\<rparr> s) g
      \<lparr>jAddr = addr, jReq = req, jAt = AtAcl, jOut = []\<rparr>" by (simp add: job_simps)
qed (use assms chainInvD(2) [OF assms(1)] in auto)

lemma acl_inv:
  assumes "chainInv E r s" "chJobs s g = Some j" "jAt j = AtAcl"
  shows "chainInv E r (aclPass allowed g j s)"
proof -
  have "jobInv E r s g j" using chainInvD(5) [OF assms(1,2)] .
  then show ?thesis unfolding aclPass_def
    by (intro chainInv_move [OF assms(1), where g = g])
       (use assms chainInvD(2) [OF assms(1)] honest_refusal in \<open>auto simp: job_simps\<close>)
qed

lemma limiter_inv:
  assumes "chainInv E r s" "chJobs s g = Some j" "jAt j = AtLimiter"
  shows "chainInv E r (limiterPass E clientOrder g j s)"
proof -
  have i: "jobInv E r s g j" using chainInvD(5) [OF assms(1,2)] .
  have "chainInv E r (setJob g (j\<lparr>jAt := p\<rparr>) (s\<lparr>chLimiter := l\<rparr>))" if "p \<in> {AtCache, Finished}" for p l
    by (rule chainInv_move [OF assms(1), where g = g])
       (use assms i chainInvD(2) [OF assms(1)] that in \<open>auto simp: job_simps\<close>)
  from this [of _ "chLimiter s"] this show ?thesis
    by (auto simp: limiterPass_def split: option.split prod.split)
qed

lemma cache_inv:
  assumes "chainInv E r s" "chJobs s g = Some j" "jAt j = AtCache"
  shows "chainInv E r (cachePass E g j s)"
proof -
  have i: "jobInv E r s g j" using chainInvD(5) [OF assms(1,2)] .
  note ok = chainInvD(2) [OF assms(1)]
  obtain st hit where l: "lookup (unicodeOf E) (chStore s) (qName (questionOf j)) (qType (questionOf j)) (timeOf E s) = (st, hit)"
    by (meson surj_pair)
  note h = proven.honestStore_lookup [OF ok l]
  have pass: "chainInv E r (setJob g (j\<lparr>jAt := AtFlight\<rparr>) (s\<lparr>chStore := st'\<rparr>))"
    if "proven.honestStore (unicodeOf E) (cryptoOf E) (trustAnchors r) (unicodeOf E) st'" for st'
    by (rule chainInv_move [OF assms(1), where g = g]) (use assms i that in \<open>auto simp: job_simps\<close>)
  show ?thesis
  proof (cases "collapsible (jReq j) \<and> hit \<noteq> None")
    case True
    then obtain rcode ans auths auth where hit: "hit = Some (rcode, ans, auths, auth)" by (metis not_None_eq prod.exhaust)
    then have "proven.lawful (unicodeOf E) (cryptoOf E) (trustAnchors r) auth ans" using h by blast
    then have "proven.honest (unicodeOf E) (cryptoOf E) (trustAnchors r) (cachedReply (jReq j) (rcode, ans, auths, auth))"
      by (simp add: proven.honest_def cachedReply_def)
    then show ?thesis unfolding cachePass_def
      by (intro chainInv_move [OF assms(1), where g = g and j' = "j\<lparr>jAt := Finished,
            jOut := jOut j @ [cachedReply (jReq j) (rcode, ans, auths, auth)]\<rparr>"])
         (use assms i l h hit True cachedReply_echoes in \<open>auto simp: job_simps\<close>)
  next
    case False
    then show ?thesis using pass [of st] pass [of "chStore s"] l h ok by (cases hit) (auto simp: cachePass_def)
  qed
qed

lemma flight_inv:
  assumes "chainInv E r s" "chJobs s g = Some j" "jAt j = AtFlight"
  shows "chainInv E r (flightPass E g j s)"
proof -
  have i: "jobInv E r s g j" using chainInvD(5) [OF assms(1,2)] .
  note ok = chainInvD(1,2) [OF assms(1)]
  have mine: "chFlying s k \<noteq> Some g" for k
    using chainInvD(4) [OF assms(1), of k g] assms(2,3) by (auto simp: registered_def)
  consider "\<not> collapsible (jReq j)" | c where "collapsible (jReq j)" "chFlying s (flightOf E j) = Some c"
    | "collapsible (jReq j)" "chFlying s (flightOf E j) = None" by (cases "chFlying s (flightOf E j)") auto
  then show ?thesis
  proof cases
    case 1
    have "chainInv E r (setJob g (j\<lparr>jAt := AtResolver\<rparr>) s)"
      by (rule chainInv_move [OF assms(1), where g = g]) (use assms i ok in \<open>auto simp: job_simps\<close>)
    then show ?thesis using 1 by (simp add: flightPass_def)
  next
    case 2
    then have "\<exists>jc. chJobs s c = Some jc \<and> leading jc" "c \<noteq> g"
      using chainInvD(4) [OF assms(1) 2(2)] registered_leading 2(2) mine by metis+
    then have "chainInv E r (setJob g (j\<lparr>jAt := WaitingFor c\<rparr>) s)"
      by (intro chainInv_move [OF assms(1), where g = g]) (use assms i ok 2 in \<open>auto simp: job_simps\<close>)
    then show ?thesis using 2 by (simp add: flightPass_def)
  next
    case 3
    have "chainInv E r (setJob g (j\<lparr>jAt := AtResolver\<rparr>) (s\<lparr>chFlying := (chFlying s)(flightOf E j := Some g)\<rparr>))"
    proof (rule chainInv_update [OF assms(1), where g = g])
      fix k c
      assume "chFlying (setJob g (j\<lparr>jAt := AtResolver\<rparr>) (s\<lparr>chFlying := (chFlying s)(flightOf E j := Some g)\<rparr>)) k = Some c"
      then show "if c = g then registered E k (j\<lparr>jAt := AtResolver\<rparr>) else chFlying s k = Some c"
        using mine [of k] 3(1) by (auto simp: registered_def flightOf_def questionOf_def split: if_splits)
    qed (use assms i ok in \<open>auto simp: job_simps\<close>)
    then show ?thesis using 3 by (simp add: flightPass_def)
  qed
qed

lemma resolver_inv:
  assumes "chainInv E r s" "chJobs s g = Some j" "jAt j = AtResolver"
  shows "chainInv E r (resolverPass E r g j s)"
proof -
  have i: "jobInv E r s g j" using chainInvD(5) [OF assms(1,2)] .
  note ok = chainInvD(1,2) [OF assms(1)]
  obtain msgs st where run: "resolverServe E r (jAddr j) (jReq j) (chResolver s) = (msgs, st)" by (meson surj_pair)
  note h = resolverServe_honest [OF ok(1) run]
  obtain m where m: "msgs = [m]" "echoes (jReq j) m"
    using handler_replies [OF ok(1), of "jAddr j" "jReq j"] run by (auto simp: echoes_def)
  let ?j = "j\<lparr>jAt := (if collapsible (jReq j) then Unregistering (lastOf msgs) else Finished),
    jOut := jOut j @ map (toClient s j) msgs\<rparr>"
  have "chainInv E r (setJob g ?j (s\<lparr>chResolver := st\<rparr>))"
  proof (rule chainInv_update [OF assms(1), where g = g])
    show "jobInv E r (setJob g ?j (s\<lparr>chResolver := st\<rparr>)) g ?j"
      using i assms(3) h m echoesD [OF m(2)] by (auto simp: job_simps sharable_def toClient_honest lastOf_def)
    show "if c = g then registered E k ?j else chFlying s k = Some c"
      if "chFlying (setJob g ?j (s\<lparr>chResolver := st\<rparr>)) k = Some c" for k c
      using that chainInvD(4) [OF assms(1), of k c] assms(2,3) by (auto simp: registered_def flightOf_def questionOf_def)
  qed (use assms ok h in \<open>auto simp: leading_def\<close>)
  then show ?thesis by (simp add: resolverPass_def run)
qed

lemma unregister_inv:
  assumes "chainInv E r s" "chJobs s g = Some j" "jAt j = Unregistering m"
  shows "chainInv E r (unregisterPass E g j m s)"
proof -
  have i: "jobInv E r s g j" using chainInvD(5) [OF assms(1,2)] .
  let ?s = "setJob g (j\<lparr>jAt := ClosingCall m\<rparr>) (s\<lparr>chFlying := (chFlying s)(flightOf E j := None)\<rparr>)"
  have "chainInv E r ?s"
  proof (rule chainInv_update [OF assms(1), where g = g])
    fix k c
    assume "chFlying ?s k = Some c"
    then have "k \<noteq> flightOf E j" "chFlying s k = Some c" by (auto split: if_splits)
    then show "if c = g then registered E k (j\<lparr>jAt := ClosingCall m\<rparr>) else chFlying s k = Some c"
      using chainInvD(4) [OF assms(1), of k c] assms(2) by (auto simp: registered_def)
  qed (use assms i chainInvD(1,2) [OF assms(1)] in \<open>auto simp: job_simps\<close>)
  then show ?thesis by (simp add: unregisterPass_def)
qed

lemma close_inv:
  assumes "chainInv E r s" "chJobs s g = Some j" "jAt j = ClosingCall m"
  shows "chainInv E r (closePass g j m s)"
proof -
  have i: "jobInv E r s g j" using chainInvD(5) [OF assms(1,2)] .
  have "chFlying s k \<noteq> Some g" for k
    using chainInvD(4) [OF assms(1), of k g] assms(2,3) by (auto simp: registered_def)
  then have "chainInv E r (setJob g (j\<lparr>jAt := AtPut m\<rparr>) (s\<lparr>chCalls := (chCalls s)(g := Some m)\<rparr>))"
    by (intro chainInv_update [OF assms(1), where g = g])
       (use assms i chainInvD(1,2) [OF assms(1)] in \<open>auto simp: job_simps\<close>)
  then show ?thesis by (simp add: closePass_def)
qed

lemma shareAnswer_echoes: "QR (header m) \<Longrightarrow> Additionals m = [] \<Longrightarrow> echoes req (shareAnswer req m)"
  by (simp add: shareAnswer_def echoes_def)

lemma wake_inv:
  assumes "chainInv E r s" "chJobs s g = Some j" "jAt j = WaitingFor c" "chCalls s c = Some m"
  shows "chainInv E r (wakePass g j m s)"
proof -
  have i: "jobInv E r s g j" using chainInvD(5) [OF assms(1,2)] .
  obtain a where a: "m = Some a" "proven.honest (unicodeOf E) (cryptoOf E) (trustAnchors r) a"
      "QR (header a)" "Additionals a = []"
    using chainInvD(3) [OF assms(1,4)] by (auto simp: sharable_def split: option.splits)
  have "proven.honest (unicodeOf E) (cryptoOf E) (trustAnchors r) (shareAnswer (jReq j) a)"
    using proven.honest_shareAnswer a(2) by blast
  moreover have "QR (header (shareAnswer (jReq j) a))" "Additionals (shareAnswer (jReq j) a) = []"
    using a by (simp_all add: shareAnswer_def)
  ultimately have "chainInv E r (setJob g (j\<lparr>jAt := AtPut (Some (shareAnswer (jReq j) a)),
      jOut := jOut j @ [toClient s j (shareAnswer (jReq j) a)]\<rparr>) s)"
    by (intro chainInv_move [OF assms(1), where g = g])
       (use assms i chainInvD(2) [OF assms(1)] shareAnswer_echoes [OF a(3,4)] in
         \<open>auto simp: job_simps sharable_def toClient_honest\<close>)
  then show ?thesis by (simp add: wakePass_def a(1) Let_def)
qed

lemma give_up_inv:
  assumes "chainInv E r s" "chJobs s g = Some j" "jAt j = WaitingFor c"
  shows "chainInv E r (setJob g (j\<lparr>jAt := AtPut None\<rparr>) s)"
  by (rule chainInv_move [OF assms(1), where g = g])
     (use assms chainInvD(5) [OF assms(1,2)] chainInvD(2) [OF assms(1)] in \<open>auto simp: job_simps\<close>)

lemma put_inv:
  assumes "chainInv E r s" "chJobs s g = Some j" "jAt j = AtPut m"
  shows "chainInv E r (putPass E g j m s)"
proof -
  have i: "jobInv E r s g j" using chainInvD(5) [OF assms(1,2)] .
  note ok = chainInvD(2) [OF assms(1)]
  have "chainInv E r (setJob g (j\<lparr>jAt := Finished\<rparr>) (s\<lparr>chStore := st\<rparr>))"
    if "proven.honestStore (unicodeOf E) (cryptoOf E) (trustAnchors r) (unicodeOf E) st" for st
    by (rule chainInv_move [OF assms(1), where g = g]) (use assms i that in \<open>auto simp: job_simps\<close>)
  note fin = this
  show ?thesis
  proof (cases m)
    case None
    then show ?thesis using fin [of "chStore s"] ok by (simp add: putPass_def)
  next
    case (Some a)
    then have "proven.lawful (unicodeOf E) (cryptoOf E) (trustAnchors r) (AD (header a)) (Answers a)"
      using i assms(3) by (simp add: jobInv_def sharable_def proven.honest_def)
    then show ?thesis using fin [OF proven.honestStore_put [OF ok]] Some by (simp add: putPass_def)
  qed
qed

lemma world_inv: "chainInv E r s \<Longrightarrow> chainInv E r (s\<lparr>chResolver := (chResolver s)\<lparr>sNet := n\<rparr>\<rparr>)"
proof -
  let ?s = "s\<lparr>chResolver := (chResolver s)\<lparr>sNet := n\<rparr>\<rparr>"
  have "jobInv E r ?s g j = jobInv E r s g j" for g j by (cases "jAt j") (simp_all add: jobInv_def)
  then show "chainInv E r s \<Longrightarrow> chainInv E r ?s" by (simp add: chainInv_def stateOk_def)
qed

lemmas step_invs = arrive_inv acl_inv limiter_inv cache_inv flight_inv resolver_inv unregister_inv close_inv
  wake_inv give_up_inv put_inv world_inv

lemma chainStep_inv: "chainStep E r allowed s s' \<Longrightarrow> chainInv E r s \<Longrightarrow> chainInv E r s'"
  by (cases rule: chainStep.cases) (auto intro: step_invs)

lemma newChain_inv: "chainInv E r (newChain c n)"
  by (simp add: chainInv_def newChain_def newState_ok proven.honestStore_new)

lemma chainRun_inv: "chainRun E r allowed c s \<Longrightarrow> chainInv E r s"
proof (elim exE)
  fix n
  show "(chainStep E r allowed)\<^sup>*\<^sup>* (newChain c n) s \<Longrightarrow> chainInv E r s"
    by (induction rule: rtranclp_induct) (auto intro: newChain_inv chainStep_inv)
qed

section \<open>Progress\<close>

text \<open>A leader can close its call without any other query moving.\<close>

definition canClose :: "'n env \<Rightarrow> resolver \<Rightarrow> prefix list \<Rightarrow> 'n chain \<Rightarrow> nat \<Rightarrow> bool" where
  "canClose E r allowed s c =
     (\<exists>s' m. (chainStep E r allowed)\<^sup>*\<^sup>* s s' \<and> chCalls s' c = Some m \<and> (\<forall>i. i \<noteq> c \<longrightarrow> chJobs s' i = chJobs s i))"

lemma canClose_step:
  "chainStep E r allowed s s1 \<Longrightarrow> (\<And>i. i \<noteq> c \<Longrightarrow> chJobs s1 i = chJobs s i) \<Longrightarrow> canClose E r allowed s1 c \<Longrightarrow>
     canClose E r allowed s c"
  unfolding canClose_def by (metis converse_rtranclp_into_rtranclp)

lemma closing_closes:
  "chJobs s c = Some j \<Longrightarrow> jAt j = ClosingCall m \<Longrightarrow> canClose E r allowed s c"
  using chainStep.close [of s c j m E r allowed] unfolding canClose_def
  by (intro exI [of _ "closePass c j m s"] exI [of _ m]) (auto simp: closePass_def)

lemma unregistering_closes:
  assumes "chJobs s c = Some j" "jAt j = Unregistering m"
  shows "canClose E r allowed s c"
proof (rule canClose_step [OF chainStep.unregister [OF assms]])
  show "canClose E r allowed (unregisterPass E c j m s) c"
    by (rule closing_closes [where j = "j\<lparr>jAt := ClosingCall m\<rparr>" and m = m]) (simp_all add: unregisterPass_def)
qed (simp add: unregisterPass_def)

lemma leader_closes:
  assumes "chJobs s c = Some j" "leading j"
  shows "canClose E r allowed s c"
proof -
  consider "jAt j = AtResolver" | m where "jAt j = Unregistering m" | m where "jAt j = ClosingCall m"
    using assms(2) by (auto simp: leading_def split: place.splits)
  then show ?thesis
  proof cases
    case 1
    obtain msgs st where run: "resolverServe E r (jAddr j) (jReq j) (chResolver s) = (msgs, st)" by (meson surj_pair)
    have "collapsible (jReq j)" using assms(2) by (simp add: leading_def)
    then have "canClose E r allowed (resolverPass E r c j s) c"
      by (intro unregistering_closes [where m = "lastOf msgs"]) (auto simp: resolverPass_def run)
    then show ?thesis
      by (rule canClose_step [OF chainStep.resolver [OF assms(1) 1], rotated]) (simp add: resolverPass_def run)
  qed (use assms(1) unregistering_closes closing_closes in blast)+
qed

text \<open>A query can come to its end with an answer.\<close>

definition canFinish :: "'n env \<Rightarrow> resolver \<Rightarrow> prefix list \<Rightarrow> 'n chain \<Rightarrow> nat \<Rightarrow> Message \<Rightarrow> bool" where
  "canFinish E r allowed s g req =
     (\<exists>s' j'. (chainStep E r allowed)\<^sup>*\<^sup>* s s' \<and> chJobs s' g = Some j' \<and> jAt j' = Finished \<and> jReq j' = req \<and>
        length (jOut j') = 1)"

lemma canFinish_steps:
  "(chainStep E r allowed)\<^sup>*\<^sup>* s s1 \<Longrightarrow> canFinish E r allowed s1 g req \<Longrightarrow> canFinish E r allowed s g req"
  unfolding canFinish_def by (elim exE conjE) (blast intro: rtranclp_trans)

lemma canFinish_step:
  "chainStep E r allowed s s1 \<Longrightarrow> canFinish E r allowed s1 g req \<Longrightarrow> canFinish E r allowed s g req"
  using canFinish_steps by blast

lemma finished_finishes:
  "chJobs s g = Some j \<Longrightarrow> jAt j = Finished \<Longrightarrow> length (jOut j) = 1 \<Longrightarrow> canFinish E r allowed s g (jReq j)"
  unfolding canFinish_def by blast

lemma put_finishes:
  assumes "chJobs s g = Some j" "jAt j = AtPut m" "length (jOut j) = 1"
  shows "canFinish E r allowed s g (jReq j)"
  using canFinish_step [OF chainStep.put [OF assms(1,2)] finished_finishes [where j = "j\<lparr>jAt := Finished\<rparr>"]] assms(3)
  by (simp add: putPass_def split: option.splits)

lemma closing_finishes:
  assumes "chJobs s g = Some j" "jAt j = ClosingCall m" "length (jOut j) = 1"
  shows "canFinish E r allowed s g (jReq j)"
  using canFinish_step [OF chainStep.close [OF assms(1,2)] put_finishes [where j = "j\<lparr>jAt := AtPut m\<rparr>"]] assms(3)
  by (simp add: closePass_def)

lemma unregistering_finishes:
  assumes "chJobs s g = Some j" "jAt j = Unregistering m" "length (jOut j) = 1"
  shows "canFinish E r allowed s g (jReq j)"
  using canFinish_step [OF chainStep.unregister [OF assms(1,2)] closing_finishes [where j = "j\<lparr>jAt := ClosingCall m\<rparr>"]] assms(3)
  by (simp add: unregisterPass_def)

lemma resolver_finishes:
  assumes "chainInv E r s" "chJobs s g = Some j" "jAt j = AtResolver"
  shows "canFinish E r allowed s g (jReq j)"
proof -
  obtain msgs st where run: "resolverServe E r (jAddr j) (jReq j) (chResolver s) = (msgs, st)" by (meson surj_pair)
  have one: "length msgs = 1" "jOut j = []"
    using handler_replies [OF chainInvD(1) [OF assms(1)], of "jAddr j" "jReq j"] run
      chainInvD(5) [OF assms(1,2)] assms(3) by (auto simp: jobInv_def)
  let ?j = "j\<lparr>jAt := (if collapsible (jReq j) then Unregistering (lastOf msgs) else Finished),
    jOut := jOut j @ map (toClient s j) msgs\<rparr>"
  have j: "chJobs (resolverPass E r g j s) g = Some ?j" by (simp add: resolverPass_def run)
  have "canFinish E r allowed (resolverPass E r g j s) g (jReq ?j)"
    using unregistering_finishes [OF j] finished_finishes [OF j] one by (cases "collapsible (jReq j)") simp_all
  then show ?thesis using canFinish_step [OF chainStep.resolver [OF assms(2,3)]] by simp
qed

lemma waiting_finishes:
  assumes "chainInv E r s" "chJobs s g = Some j" "jAt j = WaitingFor c"
  shows "canFinish E r allowed s g (jReq j)"
proof -
  have i: "jobInv E r s g j" using chainInvD(5) [OF assms(1,2)] .
  have "\<exists>s1 m. (chainStep E r allowed)\<^sup>*\<^sup>* s s1 \<and> chCalls s1 c = Some m \<and> chJobs s1 g = Some j"
  proof (cases "chCalls s c")
    case None
    then obtain jc where jc: "chJobs s c = Some jc" "leading jc" using i assms(3) by (auto simp: jobInv_def)
    have "c \<noteq> g" using jc assms(2,3) by (auto simp: leading_def)
    then show ?thesis using leader_closes [OF jc, of E r allowed] assms(2) unfolding canClose_def by metis
  qed (use assms(2) in blast)
  then obtain s1 m where s1: "(chainStep E r allowed)\<^sup>*\<^sup>* s s1" "chCalls s1 c = Some m" "chJobs s1 g = Some j"
    by blast
  have inv: "chainInv E r s1" using s1(1) assms(1) by (induction rule: rtranclp_induct) (auto intro: chainStep_inv)
  obtain a where a: "m = Some a" using chainInvD(3) [OF inv s1(2)] by (auto simp: sharable_def split: option.splits)
  have "canFinish E r allowed (wakePass g j m s1) g (jReq j)"
    using put_finishes [of "wakePass g j m s1" g "j\<lparr>jAt := AtPut (Some (shareAnswer (jReq j) a)),
        jOut := jOut j @ [toClient s1 j (shareAnswer (jReq j) a)]\<rparr>"] i assms(3)
    by (simp add: wakePass_def a Let_def jobInv_def)
  then show ?thesis using canFinish_steps [OF s1(1)] canFinish_step [OF chainStep.wake [OF s1(3) assms(3) s1(2)]] by blast
qed

lemma flight_finishes:
  assumes "chainInv E r s" "chJobs s g = Some j" "jAt j = AtFlight"
  shows "canFinish E r allowed s g (jReq j)"
proof -
  have "\<exists>j'. chJobs (flightPass E g j s) g = Some j' \<and> jReq j' = jReq j \<and>
    (jAt j' = AtResolver \<or> (\<exists>c. jAt j' = WaitingFor c))"
    by (cases "collapsible (jReq j)"; cases "chFlying s (flightOf E j)") (simp_all add: flightPass_def)
  then obtain j' where j': "chJobs (flightPass E g j s) g = Some j'" "jReq j' = jReq j"
    "jAt j' = AtResolver \<or> (\<exists>c. jAt j' = WaitingFor c)" by blast
  have "canFinish E r allowed (flightPass E g j s) g (jReq j')"
    using j' resolver_finishes waiting_finishes flight_inv [OF assms] by blast
  then show ?thesis using canFinish_step [OF chainStep.flight [OF assms(2,3)]] j'(2) by simp
qed

lemma cache_finishes:
  assumes "chainInv E r s" "chJobs s g = Some j" "jAt j = AtCache"
  shows "canFinish E r allowed s g (jReq j)"
proof -
  have i: "jobInv E r s g j" using chainInvD(5) [OF assms(1,2)] .
  obtain st hit where l: "lookup (unicodeOf E) (chStore s) (qName (questionOf j)) (qType (questionOf j)) (timeOf E s) = (st, hit)"
    by (meson surj_pair)
  have "jOut j = []" using i assms(3) by (simp add: jobInv_def)
  then have "\<exists>j'. chJobs (cachePass E g j s) g = Some j' \<and> jReq j' = jReq j \<and>
    (jAt j' = AtFlight \<or> jAt j' = Finished \<and> length (jOut j') = 1)"
    by (cases "collapsible (jReq j)"; cases hit) (simp_all add: cachePass_def l)
  then obtain j' where j': "chJobs (cachePass E g j s) g = Some j'" "jReq j' = jReq j"
    "jAt j' = AtFlight \<or> jAt j' = Finished \<and> length (jOut j') = 1" by blast
  have "canFinish E r allowed (cachePass E g j s) g (jReq j')"
    using j' flight_finishes finished_finishes cache_inv [OF assms] by blast
  then show ?thesis using canFinish_step [OF chainStep.cache [OF assms(2,3)]] j'(2) by simp
qed

section \<open>An example\<close>

definition exampleJob :: "byte list \<Rightarrow> job" where
  "exampleJob ip = \<lparr>jAddr = UDPAddr ip, jReq = exampleRequest, jAt = AtAcl, jOut = []\<rparr>"

abbreviation exampleStep :: "byte list list chain \<Rightarrow> byte list list chain \<Rightarrow> bool" where
  "exampleStep \<equiv> chainStep scripted exampleResolver LoopbackOnly"

lemma example_arrives: "exampleStep\<^sup>*\<^sup>* (newChain Default n) (setJob 0 (exampleJob ip) (newChain Default n))"
  using chainStep.arrive [where s = "newChain Default n" and g = 0] by (auto simp: newChain_def exampleJob_def)

lemma example_acl:
  "exampleStep\<^sup>*\<^sup>* (newChain Default n) (aclPass LoopbackOnly 0 (exampleJob ip) (setJob 0 (exampleJob ip) (newChain Default n)))"
proof (rule rtranclp.rtrancl_into_rtrancl [OF example_arrives chainStep.acl])
  show "chJobs (setJob 0 (exampleJob ip) (newChain Default n)) 0 = Some (exampleJob ip)" by simp
qed (simp add: exampleJob_def)

lemma example_verdicts:
  "permits LoopbackOnly (UDPAddr [127, 0, 0, 1])" "\<not> permits LoopbackOnly (UDPAddr [192, 0, 2, 1])"
  by code_simp+

text \<open>A client of the machine itself is admitted, and finds its bucket full.\<close>

lemma example_admitted:
  "\<exists>s j. exampleStep\<^sup>*\<^sup>* (newChain Default n) s \<and> chJobs s 0 = Some j \<and> jAt j = AtCache \<and> jReq j = exampleRequest"
proof -
  let ?j = "exampleJob [127, 0, 0, 1]"
  let ?s = "aclPass LoopbackOnly 0 ?j (setJob 0 ?j (newChain Default n))"
  let ?l = "?j\<lparr>jAt := AtLimiter\<rparr>"
  have j: "chJobs ?s 0 = Some ?l" using example_verdicts by (simp add: aclPass_def exampleJob_def)
  have "exampleStep\<^sup>*\<^sup>* (newChain Default n) (limiterPass scripted [] 0 ?l ?s)"
    by (rule rtranclp.rtrancl_into_rtrancl [OF example_acl chainStep.limiter [OF j]]) simp
  moreover have "fst (allow [] ip t (chLimiter ?s))" for ip t
    by (simp add: aclPass_def newChain_def allow_def newLimiter_def Let_def)
  then have "chJobs (limiterPass scripted [] 0 ?l ?s) 0 = Some (?j\<lparr>jAt := AtCache\<rparr>)"
    by (simp add: limiterPass_def split: option.split prod.split) (metis fst_conv)
  ultimately show ?thesis by (intro exI conjI) (auto simp: exampleJob_def)
qed

section \<open>Properties\<close>



text \<open>
  (C9) No query is stuck.  In every state the chain can reach, a query that has passed the
  limiter can be brought to its end with one answer, though it waits for another one: the query
  it waits for can always finish.
\<close>

theorem no_query_is_stuck:
  assumes "chainRun E r allowed c s" "chJobs s g = Some j"
    and "jAt j \<in> {AtCache, AtFlight, AtResolver} \<or> (\<exists>c. jAt j = WaitingFor c)"
  shows "\<exists>s' j' m. (chainStep E r allowed)\<^sup>*\<^sup>* s s' \<and> chJobs s' g = Some j' \<and> jAt j' = Finished \<and>
    jReq j' = jReq j \<and> jOut j' = [m] \<and> echoes (jReq j) m"
proof -
  note inv = chainRun_inv [OF assms(1)]
  have "canFinish E r allowed s g (jReq j)"
    using assms(3) cache_finishes [OF inv assms(2)] flight_finishes [OF inv assms(2)] resolver_finishes [OF inv assms(2)]
      waiting_finishes [OF inv assms(2)] by blast
  then obtain s' j' where s': "(chainStep E r allowed)\<^sup>*\<^sup>* s s'" "chJobs s' g = Some j'" "jAt j' = Finished"
    "jReq j' = jReq j" "length (jOut j') = 1" unfolding canFinish_def by blast
  have "chainInv E r s'" using s'(1) inv by (induction rule: rtranclp_induct) (auto intro: chainStep_inv)
  from chainInvD(5) [OF this s'(2)] have "goodOut E r j'" by (simp add: jobInv_def)
  moreover obtain m where "jOut j' = [m]" using s'(5) by (metis length_0_conv length_Suc_conv One_nat_def)
  ultimately show ?thesis using s' by (intro exI [of _ s'] exI [of _ j'] exI [of _ m]) (simp add: goodOut_def)
qed

theorem no_query_is_stuck_witness:
  "\<exists>s s' j' m. chainRun scripted exampleResolver LoopbackOnly Default s \<and> exampleStep\<^sup>*\<^sup>* s s' \<and> chJobs s' 0 = Some j' \<and>
     jAt j' = Finished \<and> jOut j' = [m] \<and> echoes exampleRequest m"
proof -
  obtain s j where s: "exampleStep\<^sup>*\<^sup>* (newChain Default secureScript) s" "chJobs s 0 = Some j" "jAt j = AtCache"
    "jReq j = exampleRequest" using example_admitted by blast
  have run: "chainRun scripted exampleResolver LoopbackOnly Default s" using s(1) by blast
  show ?thesis using no_query_is_stuck [OF run s(2)] run s(3,4) by auto
qed

end
