(* ===== verification/Record_Memory.thy ===== *)
theory Record_Memory
  imports Wire_Types
begin

text \<open>
  Resource records in memory.  Elsewhere records are values; here a slice of records is what it
  is in Go, a reference to an array of structs, which refer in turn to the bytes of addresses
  and of raw data and to the fields of an SOA record.  \<open>CloneRRs\<close> (\<open>dnsmsg/message.go\<close>) is
  translated on this memory, and shown to share nothing with what it copies.

  An address is the position of an object in a list that only grows; there is no garbage
  collection to model, since an object nobody refers to cannot be told from one that is gone.
\<close>

section \<open>Memory\<close>

record slice =
  slArr :: nat
  slOff :: nat
  slLen :: nat

text \<open>The struct \<open>RR\<close>; strings are immutable and stay values, \<open>None\<close> is a nil slice or pointer.\<close>

record rrStruct =
  stName :: gostr
  stType :: u16
  stClass :: u16
  stTTL :: u32
  stRDLength :: u16
  stA :: "slice option"
  stAAAA :: "slice option"
  stNS :: gostr
  stCNAME :: gostr
  stSOA :: "nat option"
  stRaw :: "slice option"

datatype obj = Bytes "byte list" | SoaCell SOA | RRArray "rrStruct list"

type_synonym mem = "obj list"

definition objAt :: "mem \<Rightarrow> nat \<Rightarrow> obj option" where
  "objAt m a = (if a < length m then Some (m ! a) else None)"

definition memBytes :: "mem \<Rightarrow> slice \<Rightarrow> byte list" where
  "memBytes m s = (case objAt m (slArr s) of Some (Bytes bs) \<Rightarrow> take (slLen s) (drop (slOff s) bs) | _ \<Rightarrow> [])"

definition memSOA :: "mem \<Rightarrow> nat \<Rightarrow> SOA option" where
  "memSOA m a = (case objAt m a of Some (SoaCell soa) \<Rightarrow> Some soa | _ \<Rightarrow> None)"

definition structsOf :: "mem \<Rightarrow> slice option \<Rightarrow> rrStruct list" where
  "structsOf m s =
     (case s of None \<Rightarrow> []
      | Some s \<Rightarrow> (case objAt m (slArr s) of Some (RRArray rs) \<Rightarrow> take (slLen s) (drop (slOff s) rs) | _ \<Rightarrow> []))"

text \<open>The value a struct stands for, and the values of a slice of them.\<close>

definition valueRR :: "mem \<Rightarrow> rrStruct \<Rightarrow> RR" where
  "valueRR m st =
     \<lparr>rrName = stName st, rrType = stType st, rrClass = stClass st, TTL = stTTL st, RDLength = stRDLength st,
      rrA = map_option (memBytes m) (stA st), rrAAAA = map_option (memBytes m) (stAAAA st), rrNS = stNS st,
      rrCNAME = stCNAME st, rrSOA = Option.bind (stSOA st) (memSOA m),
      Raw = (case stRaw st of None \<Rightarrow> [] | Some s \<Rightarrow> memBytes m s)\<rparr>"

definition valueRRs :: "mem \<Rightarrow> slice option \<Rightarrow> RR list" where
  "valueRRs m s = map (valueRR m) (structsOf m s)"

section \<open>Copying\<close>

text \<open>\<open>bytes.Clone\<close>, which keeps nil.\<close>

definition cloneBytes :: "mem \<Rightarrow> slice option \<Rightarrow> slice option \<times> mem" where
  "cloneBytes m s =
     (case s of None \<Rightarrow> (None, m)
      | Some s \<Rightarrow>
          let bs = memBytes m s in
          (Some \<lparr>slArr = length m, slOff = 0, slLen = length bs\<rparr>, m @ [Bytes bs]))"

definition cloneSOA :: "mem \<Rightarrow> nat option \<Rightarrow> nat option \<times> mem" where
  "cloneSOA m a =
     (case Option.bind a (memSOA m) of None \<Rightarrow> (None, m) | Some soa \<Rightarrow> (Some (length m), m @ [SoaCell soa]))"

definition cloneRR :: "mem \<Rightarrow> rrStruct \<Rightarrow> rrStruct \<times> mem" where
  "cloneRR m rr =
     (case cloneBytes m (stA rr) of (a, m) \<Rightarrow>
      case cloneBytes m (stAAAA rr) of (aaaa, m) \<Rightarrow>
      case cloneBytes m (stRaw rr) of (raw, m) \<Rightarrow>
      case cloneSOA m (stSOA rr) of (soa, m) \<Rightarrow>
        (rr\<lparr>stA := a, stAAAA := aaaa, stRaw := raw, stSOA := soa\<rparr>, m))"

fun cloneLoop :: "mem \<Rightarrow> rrStruct list \<Rightarrow> rrStruct list \<times> mem" where
  "cloneLoop m [] = ([], m)"
| "cloneLoop m (rr # rrs) =
     (case cloneRR m rr of (out, m) \<Rightarrow> case cloneLoop m rrs of (outs, m) \<Rightarrow> (out # outs, m))"

text \<open>The new array is entered into memory when the loop has filled it; nobody sees it before.\<close>

definition CloneRRs :: "mem \<Rightarrow> slice option \<Rightarrow> slice option \<times> mem" where
  "CloneRRs m s =
     (if structsOf m s = [] then (None, m)
      else (case cloneLoop m (structsOf m s) of
          (out, m) \<Rightarrow> (Some \<lparr>slArr = length m, slOff = 0, slLen = length out\<rparr>, m @ [RRArray out])))"

section \<open>What can be reached\<close>

definition sliceRefs :: "slice option \<Rightarrow> nat set" where
  "sliceRefs s = slArr ` set_option s"

definition structRefs :: "rrStruct \<Rightarrow> nat set" where
  "structRefs st = sliceRefs (stA st) \<union> sliceRefs (stAAAA st) \<union> sliceRefs (stRaw st) \<union> set_option (stSOA st)"

fun refs :: "obj \<Rightarrow> nat set" where
  "refs (RRArray rs) = (\<Union>st\<in>set rs. structRefs st)"
| "refs (Bytes bs) = {}"
| "refs (SoaCell soa) = {}"

definition reach :: "mem \<Rightarrow> slice option \<Rightarrow> nat set" where
  "reach m s = sliceRefs s \<union> (\<Union>st\<in>set (structsOf m s). structRefs st)"

lemma sliceRefs_simps [simp]: "sliceRefs None = {}" "sliceRefs (Some s) = {slArr s}"
  by (simp_all add: sliceRefs_def)

text \<open>A read depends on nothing but what can be reached.\<close>

definition agreeOn :: "nat set \<Rightarrow> mem \<Rightarrow> mem \<Rightarrow> bool" where
  "agreeOn A m m' = (\<forall>a\<in>A. objAt m' a = objAt m a)"

lemma agreeOn_mono: "agreeOn B m m' \<Longrightarrow> A \<subseteq> B \<Longrightarrow> agreeOn A m m'"
  by (auto simp: agreeOn_def)

lemma memBytes_agree: "agreeOn {slArr s} m m' \<Longrightarrow> memBytes m' s = memBytes m s"
  by (simp add: memBytes_def agreeOn_def)

lemma memSOA_agree: "agreeOn {a} m m' \<Longrightarrow> memSOA m' a = memSOA m a"
  by (simp add: memSOA_def agreeOn_def)

lemma structsOf_agree: "agreeOn (sliceRefs s) m m' \<Longrightarrow> structsOf m' s = structsOf m s"
  by (cases s) (simp_all add: structsOf_def agreeOn_def)

lemma mapBytes_agree: "agreeOn (sliceRefs s) m m' \<Longrightarrow> map_option (memBytes m') s = map_option (memBytes m) s"
  by (cases s) (simp_all add: memBytes_agree)

lemma bindSOA_agree: "agreeOn (set_option a) m m' \<Longrightarrow> Option.bind a (memSOA m') = Option.bind a (memSOA m)"
  by (cases a) (simp_all add: memSOA_agree)

lemma valueRR_agree:
  assumes "agreeOn (structRefs st) m m'"
  shows "valueRR m' st = valueRR m st"
proof -
  have in_refs: "agreeOn A m m'" if "A \<subseteq> structRefs st" for A using agreeOn_mono [OF assms that] .
  have "map_option (memBytes m') (stA st) = map_option (memBytes m) (stA st)"
    "map_option (memBytes m') (stAAAA st) = map_option (memBytes m) (stAAAA st)"
    "map_option (memBytes m') (stRaw st) = map_option (memBytes m) (stRaw st)"
    "Option.bind (stSOA st) (memSOA m') = Option.bind (stSOA st) (memSOA m)"
    by (intro mapBytes_agree bindSOA_agree in_refs; auto simp: structRefs_def)+
  then show ?thesis by (cases "stRaw st") (simp_all add: valueRR_def)
qed

lemma reach_agree:
  assumes "agreeOn (reach m s) m m'"
  shows "valueRRs m' s = valueRRs m s" "reach m' s = reach m s" "structsOf m' s = structsOf m s"
proof -
  show st: "structsOf m' s = structsOf m s"
    using structsOf_agree agreeOn_mono [OF assms] by (simp add: reach_def)
  then show "reach m' s = reach m s" by (simp add: reach_def)
  have "valueRR m' x = valueRR m x" if "x \<in> set (structsOf m s)" for x
    using valueRR_agree agreeOn_mono [OF assms] that by (simp add: reach_def UN_upper le_supI2)
  then show "valueRRs m' s = valueRRs m s" by (simp add: valueRRs_def st)
qed

section \<open>A copy shares nothing\<close>

text \<open>The memory only grew.\<close>

definition grown :: "mem \<Rightarrow> mem \<Rightarrow> bool" where
  "grown m m' = (\<exists>ext. m' = m @ ext)"

lemma grown_refl [simp]: "grown m m" and grown_append [simp]: "grown m (m @ ext)"
  by (auto simp: grown_def)

lemma grown_trans [trans]: "grown m1 m2 \<Longrightarrow> grown m2 m3 \<Longrightarrow> grown m1 m3"
  by (auto simp: grown_def)

lemma grown_length: "grown m m' \<Longrightarrow> length m \<le> length m'"
  by (auto simp: grown_def)

lemma grown_agree: "grown m m' \<Longrightarrow> A \<subseteq> {..<length m} \<Longrightarrow> agreeOn A m m'"
  by (auto simp: grown_def agreeOn_def objAt_def nth_append)

text \<open>The addresses between two memories, and a memory in which they are closed under references.\<close>

abbreviation newSince :: "mem \<Rightarrow> mem \<Rightarrow> nat set" where
  "newSince m m' \<equiv> {length m..<length m'}"

definition closedFrom :: "nat \<Rightarrow> mem \<Rightarrow> bool" where
  "closedFrom n m = (\<forall>a. n \<le> a \<longrightarrow> a < length m \<longrightarrow> refs (m ! a) \<subseteq> {n..<length m})"

lemma closedFrom_length [simp]: "closedFrom (length m) m"
  by (simp add: closedFrom_def)

lemma closedFrom_snoc: "closedFrom n m \<Longrightarrow> n \<le> length m \<Longrightarrow> refs obj \<subseteq> {n..<length m} \<Longrightarrow> closedFrom n (m @ [obj])"
  unfolding closedFrom_def by (fastforce simp: nth_append less_Suc_eq)

text \<open>What one copying operation promises.\<close>

definition copied :: "nat \<Rightarrow> mem \<Rightarrow> mem \<Rightarrow> nat set \<Rightarrow> bool" where
  "copied n m m' A = (grown m m' \<and> A \<subseteq> newSince m m' \<and> (n \<le> length m \<longrightarrow> closedFrom n m \<longrightarrow> closedFrom n m'))"

lemma cloneBytes_copied:
  "cloneBytes m s = (s', m') \<Longrightarrow>
     copied n m m' (sliceRefs s') \<and> map_option (memBytes m') s' = map_option (memBytes m) s"
  by (cases s) (auto simp: copied_def cloneBytes_def Let_def memBytes_def objAt_def intro: closedFrom_snoc)

lemma cloneSOA_copied:
  "cloneSOA m a = (a', m') \<Longrightarrow>
     copied n m m' (set_option a') \<and> Option.bind a' (memSOA m') = Option.bind a (memSOA m)"
  by (cases "Option.bind a (memSOA m)")
     (auto simp: copied_def cloneSOA_def memSOA_def objAt_def intro: closedFrom_snoc)

lemma copied_trans:
  assumes "copied n m1 m2 A" "copied n m2 m3 B"
  shows "copied n m1 m3 (A \<union> B)"
  using assms grown_trans [of m1 m2 m3] grown_length [of m1 m2] grown_length [of m2 m3]
  by (auto simp: copied_def)

lemma copied_fresh_agree: "copied n m1 m2 A \<Longrightarrow> grown m2 m3 \<Longrightarrow> agreeOn A m2 m3"
  by (rule grown_agree) (auto simp: copied_def)

lemma old_agree: "grown m1 m2 \<Longrightarrow> A \<subseteq> {..<length m1} \<Longrightarrow> grown m2 m3 \<Longrightarrow> agreeOn A m2 m3"
  using grown_length [of m1 m2] by (intro grown_agree) auto

lemma cloneRR_copied:
  assumes run: "cloneRR m rr = (out, m')" and here: "structRefs rr \<subseteq> {..<length m}"
  shows "copied n m m' (structRefs out)" "valueRR m' out = valueRR m rr"
proof -
  obtain a m1 where a: "cloneBytes m (stA rr) = (a, m1)" by (meson surj_pair)
  obtain aaaa m2 where aaaa: "cloneBytes m1 (stAAAA rr) = (aaaa, m2)" by (meson surj_pair)
  obtain raw m3 where raw: "cloneBytes m2 (stRaw rr) = (raw, m3)" by (meson surj_pair)
  obtain soa where soa: "cloneSOA m3 (stSOA rr) = (soa, m')" and out: "out = rr\<lparr>stA := a, stAAAA := aaaa, stRaw := raw, stSOA := soa\<rparr>"
    using run a aaaa raw by (auto simp: cloneRR_def split: prod.splits)
  note c = cloneBytes_copied [OF a, of n] cloneBytes_copied [OF aaaa, of n] cloneBytes_copied [OF raw, of n]
    cloneSOA_copied [OF soa, of n]
  have g: "grown m m1" "grown m1 m2" "grown m2 m3" "grown m3 m'" using c by (auto simp: copied_def)
  note g' = grown_trans [OF g(1,2)] grown_trans [OF grown_trans [OF g(1,2)] g(3)] grown_trans [OF g(3,4)]
  show "copied n m m' (structRefs out)"
    using copied_trans [OF copied_trans [OF copied_trans [of n m m1 "sliceRefs a" m2 "sliceRefs aaaa"]], of m3 "sliceRefs raw" m' "set_option soa"] c
    by (simp add: out structRefs_def)
  have r: "sliceRefs (stAAAA rr) \<subseteq> {..<length m}" "sliceRefs (stRaw rr) \<subseteq> {..<length m}" "set_option (stSOA rr) \<subseteq> {..<length m}"
    using here by (auto simp: structRefs_def)
  have "map_option (memBytes m') a = map_option (memBytes m) (stA rr)"
    using c(1) mapBytes_agree [OF copied_fresh_agree, OF _ grown_trans [OF g(2) g'(3)]] by metis
  moreover have "map_option (memBytes m') aaaa = map_option (memBytes m) (stAAAA rr)"
    using c(2) mapBytes_agree [OF copied_fresh_agree, OF _ g'(3)] mapBytes_agree [OF grown_agree, OF g(1) r(1)] by metis
  moreover have "map_option (memBytes m') raw = map_option (memBytes m) (stRaw rr)"
    using c(3) mapBytes_agree [OF copied_fresh_agree, OF _ g(4)] mapBytes_agree [OF grown_agree, OF g'(1) r(2)] by metis
  moreover have "Option.bind soa (memSOA m') = Option.bind (stSOA rr) (memSOA m)"
    using c(4) bindSOA_agree [OF grown_agree, OF g'(2) r(3)] by metis
  ultimately show "valueRR m' out = valueRR m rr"
    by (cases raw; cases "stRaw rr") (simp_all add: valueRR_def out)
qed

lemma cloneLoop_copied:
  assumes "cloneLoop m rrs = (outs, m')" "\<And>rr. rr \<in> set rrs \<Longrightarrow> structRefs rr \<subseteq> {..<length m}"
  shows "copied n m m' (\<Union>st\<in>set outs. structRefs st) \<and> map (valueRR m') outs = map (valueRR m) rrs"
  using assms
proof (induction m rrs arbitrary: outs m' rule: cloneLoop.induct)
  case (1 m)
  then show ?case by (simp add: copied_def)
next
  case (2 m rr rrs)
  obtain out m1 where one: "cloneRR m rr = (out, m1)" by (meson surj_pair)
  obtain outs' where rest: "cloneLoop m1 rrs = (outs', m')" and outs: "outs = out # outs'"
    using "2.prems"(1) one by (auto split: prod.splits)
  have here: "structRefs rr \<subseteq> {..<length m}" using "2.prems"(2) [of rr] by simp
  note c = cloneRR_copied(1) [OF one here, of n] cloneRR_copied(2) [OF one here]
  have g: "grown m m1" using c(1) by (simp add: copied_def)
  have old: "structRefs x \<subseteq> {..<length m1}" if "x \<in> set rrs" for x
    using order_trans [OF "2.prems"(2) [of x], of "{..<length m1}"] that grown_length [OF g] by simp
  have ih: "copied n m1 m' (\<Union>st\<in>set outs'. structRefs st)" "map (valueRR m') outs' = map (valueRR m1) rrs"
    using "2.IH" [OF one [symmetric] rest old] by blast+
  have "valueRR m1 x = valueRR m x" if "x \<in> set rrs" for x
    using valueRR_agree [OF grown_agree, OF g] "2.prems"(2) that by simp
  then have "map (valueRR m1) rrs = map (valueRR m) rrs" by simp
  moreover have "grown m1 m'" using ih(1) by (simp add: copied_def)
  from valueRR_agree [OF copied_fresh_agree [OF c(1) this]] have "valueRR m' out = valueRR m rr" using c(2) by simp
  ultimately show ?case using copied_trans [OF c(1) ih(1)] ih(2) unfolding outs by simp
qed

text \<open>
  The whole of \<open>CloneRRs\<close>: the same records, in memory that did not exist before and that does
  not refer to any that did.
\<close>

lemma CloneRRs_copied:
  assumes run: "CloneRRs m s = (s', m')" and here: "reach m s \<subseteq> {..<length m}"
  shows "copied n m m' (reach m' s')" "valueRRs m' s' = valueRRs m s"
proof -
  have "copied n m m' (reach m' s') \<and> valueRRs m' s' = valueRRs m s"
  proof (cases "structsOf m s = []")
    case True
    then show ?thesis using run by (auto simp: CloneRRs_def copied_def reach_def valueRRs_def structsOf_def)
  next
    case False
    obtain outs m1 where loop: "cloneLoop m (structsOf m s) = (outs, m1)" by (meson surj_pair)
    then have s': "s' = Some \<lparr>slArr = length m1, slOff = 0, slLen = length outs\<rparr>" and m': "m' = m1 @ [RRArray outs]"
      using run False by (auto simp: CloneRRs_def)
    have c: "copied n m m1 (\<Union>st\<in>set outs. structRefs st)" "map (valueRR m1) outs = map (valueRR m) (structsOf m s)" for n
      using cloneLoop_copied [OF loop, of n] here by (auto simp: reach_def)
    have st: "structsOf m' s' = outs" by (simp add: s' m' structsOf_def objAt_def)
    have len: "length m \<le> length m1" using c(1) grown_length by (auto simp: copied_def)
    have inner: "refs (RRArray outs) \<subseteq> {length m..<length m1}" using c(1) by (simp add: copied_def)
    then have "closedFrom n m'" if "n \<le> length m" "closedFrom n m"
      unfolding m' by (rule_tac closedFrom_snoc) (use c(1) [of n] that len in \<open>auto simp: copied_def\<close>)
    moreover have "grown m m'" using c(1) grown_trans [OF _ grown_append] by (auto simp: copied_def m')
    moreover have "reach m' s' \<subseteq> newSince m m'" using inner len unfolding reach_def st by (auto simp: s' m')
    moreover have "valueRR m' x = valueRR m1 x" if "x \<in> set outs" for x
      unfolding m' by (rule valueRR_agree [OF grown_agree]) (use inner that in auto)
    then have "map (valueRR m') outs = map (valueRR m1) outs" by simp
    ultimately show ?thesis using c(2) by (simp add: copied_def valueRRs_def st)
  qed
  then show "copied n m m' (reach m' s')" "valueRRs m' s' = valueRRs m s" by simp_all
qed

end
