(* ===== verification/Cache_Memory.thy ===== *)
theory Cache_Memory
  imports Record_Memory Cache_Facts
begin

text \<open>
  The store of the message cache on the memory of \<open>Record_Memory\<close>: its entries hold slices, the
  callers hold slices, and a caller may write to any record it was given or made itself.  The
  store of \<open>Response_Cache\<close>, with records as values, is what the clients of this one see: \<open>put\<close>
  and \<open>lookup\<close> copy, so nothing a caller does to its records reaches the cache.

  An operation of the store is one step, as it is under the mutex; that nobody writes to the
  records while \<open>put\<close> reads them is what its callers owe.
\<close>

section \<open>The store in memory\<close>

record memEntry =
  meKey :: cacheKey
  meRcode :: byte
  meAnswers :: "slice option"
  meAuthorities :: "slice option"
  meAuthentic :: bool
  meExpiry :: int

record memStore =
  msMaxEntries :: nat
  msMinTTL :: u32
  msMaxTTL :: u32
  msEntries :: "(cacheKey, memEntry) mapping"
  msOrder :: "cacheKey list"

definition newMemStore :: "cacheConfig \<Rightarrow> memStore" where
  "newMemStore cfg =
     \<lparr>msMaxEntries = (if MaxEntries cfg \<le> 0 then defaultMaxEntries else nat (MaxEntries cfg)),
      msMinTTL = fst (ttlBounds cfg), msMaxTTL = snd (ttlBounds cfg), msEntries = Mapping.empty, msOrder = []\<rparr>"

definition msLru :: "memStore \<Rightarrow> (cacheKey, memEntry) lru" where
  "msLru s = (msEntries s, msOrder s)"

definition msWith :: "memStore \<Rightarrow> (cacheKey, memEntry) lru \<Rightarrow> memStore" where
  "msWith s l = s\<lparr>msEntries := fst l, msOrder := snd l\<rparr>"

text \<open>\<open>withTTL\<close>: the loop writes to the copy, in place.\<close>

definition mapTTLs :: "(u32 \<Rightarrow> u32) \<Rightarrow> obj \<Rightarrow> obj" where
  "mapTTLs f obj = (case obj of RRArray rs \<Rightarrow> RRArray (map (\<lambda>st. st\<lparr>stTTL := f (stTTL st)\<rparr>) rs) | _ \<Rightarrow> obj)"

definition cloneWith :: "(u32 \<Rightarrow> u32) \<Rightarrow> mem \<Rightarrow> slice option \<Rightarrow> slice option \<times> mem" where
  "cloneWith f m rrs =
     (case CloneRRs m rrs of
        (None, m) \<Rightarrow> (None, m)
      | (Some out, m) \<Rightarrow> (Some out, m[slArr out := mapTTLs f (m ! slArr out)]))"

definition memWithTTL :: "mem \<Rightarrow> slice option \<Rightarrow> u32 \<Rightarrow> slice option \<times> mem" where
  "memWithTTL m rrs ttl = cloneWith (\<lambda>_. ttl) m rrs"

type_synonym memHit = "byte \<times> slice option \<times> slice option \<times> bool"

definition memLookup ::
  "unicode \<Rightarrow> gostr \<Rightarrow> u16 \<Rightarrow> int \<Rightarrow> mem \<Rightarrow> memStore \<Rightarrow> mem \<times> memStore \<times> memHit option" where
  "memLookup u name qtype now m s =
     (case (case Mapping.lookup (msEntries s) (normalizeKey u name qtype) of
              Some e \<Rightarrow> Some e
            | None \<Rightarrow> enclosingLoop (msEntries s) (fst (normalizeKey u name anyType))) of
        None \<Rightarrow> (m, s, None)
      | Some e \<Rightarrow>
          let k = meKey e; remaining = meExpiry e - now in
          if remaining \<le> 0 then (m, msWith s (lruRemove k (msLru s)), None)
          else let ttl = (word_of_int (remaining div second) :: u32);
                   ttl = (if ttl = 0 then 1 else ttl)
            in (case memWithTTL m (meAnswers e) ttl of (answers, m) \<Rightarrow>
                case memWithTTL m (meAuthorities e) ttl of (authorities, m) \<Rightarrow>
                  (m, msWith s (lruFront k (msLru s)), Some (meRcode e, answers, authorities, meAuthentic e))))"

definition memPut ::
  "unicode \<Rightarrow> gostr \<Rightarrow> u16 \<Rightarrow> byte \<Rightarrow> slice option \<Rightarrow> slice option \<Rightarrow> bool \<Rightarrow> int \<Rightarrow> mem \<Rightarrow> memStore \<Rightarrow> mem \<times> memStore" where
  "memPut u name qtype rcode answers authorities auth now m s =
     (case cacheable qtype rcode (valueRRs m answers) (valueRRs m authorities) of
        None \<Rightarrow> (m, s)
      | Some (qtype, ttl) \<Rightarrow>
          if ttl = 0 then (m, s)
          else let ttl = min (max ttl (msMinTTL s)) (msMaxTTL s);
                   k = normalizeKey u name qtype;
                   l = (if Mapping.lookup (msEntries s) k \<noteq> None then lruRemove k (msLru s) else msLru s)
            in (case CloneRRs m answers of (ans, m) \<Rightarrow>
                case CloneRRs m authorities of (auths, m) \<Rightarrow>
                  let e = \<lparr>meKey = k, meRcode = rcode, meAnswers = ans, meAuthorities = auths,
                           meAuthentic = auth, meExpiry = now + seconds ttl\<rparr>
                  in (m, msWith s (lruEvict (msMaxEntries s) (lruPush k e l)))))"

section \<open>What the clients see\<close>

definition absEntry :: "mem \<Rightarrow> memEntry \<Rightarrow> cacheEntry" where
  "absEntry m e =
     \<lparr>eKey = meKey e, eRcode = meRcode e, eAnswers = valueRRs m (meAnswers e),
      eAuthorities = valueRRs m (meAuthorities e), authentic = meAuthentic e, expiry = meExpiry e\<rparr>"

definition absStore :: "mem \<Rightarrow> memStore \<Rightarrow> store" where
  "absStore m s =
     \<lparr>maxEntries = msMaxEntries s, minTTLBound = msMinTTL s, maxTTLBound = msMaxTTL s,
      entries = Mapping.map_values (\<lambda>_. absEntry m) (msEntries s), order = msOrder s\<rparr>"

definition absHit :: "mem \<Rightarrow> memHit \<Rightarrow> hit" where
  "absHit m = (\<lambda>(rcode, ans, auths, auth). (rcode, valueRRs m ans, valueRRs m auths, auth))"

text \<open>The operations on the map and the order of its keys do not look at the entries.\<close>

definition mapLru :: "('v \<Rightarrow> 'w) \<Rightarrow> ('k, 'v) lru \<Rightarrow> ('k, 'w) lru" where
  "mapLru f l = (Mapping.map_values (\<lambda>_. f) (fst l), snd l)"

lemma lookup_map_values_const [simp]:
  "Mapping.lookup (Mapping.map_values (\<lambda>_. f) m) k = map_option f (Mapping.lookup m k)"
  by (simp add: lookup_map_values)

lemma map_values_update [simp]:
  "Mapping.map_values (\<lambda>_. f) (Mapping.update k v m) = Mapping.update k (f v) (Mapping.map_values (\<lambda>_. f) m)"
  by (rule mapping_eqI) (simp add: lookup_update')

lemma map_values_delete [simp]:
  "Mapping.map_values (\<lambda>_. f) (Mapping.delete k m) = Mapping.delete k (Mapping.map_values (\<lambda>_. f) m)"
  by (rule mapping_eqI) (simp add: lookup_delete_if)

lemma size_map_values [simp]: "Mapping.size (Mapping.map_values f m) = Mapping.size m"
  by (simp add: Mapping.size_def keys_map_values)

lemma lruEvict_map: "lruEvict cap (mapLru f l) = mapLru f (lruEvict cap l)"
proof (induction cap l rule: lruEvict.induct)
  case (1 cap l)
  then show ?case by (subst (1 2) lruEvict.simps) (simp add: mapLru_def)
qed

lemma lru_map:
  "lruRemove k (mapLru f l) = mapLru f (lruRemove k l)" "lruFront k (mapLru f l) = mapLru f (lruFront k l)"
  "lruPush k (f v) (mapLru f l) = mapLru f (lruPush k v l)"
  by (simp_all add: mapLru_def lruRemove_def lruFront_def lruPush_def)

lemma enclosingLoop_map: "enclosingLoop (Mapping.map_values (\<lambda>_. f) m) rest = map_option f (enclosingLoop m rest)"
proof (induction m rest rule: enclosingLoop.induct)
  case (1 m rest)
  then show ?case by (subst (1 2) enclosingLoop.simps) (auto split: option.split prod.split)
qed

lemma absStore_lru: "storeLru (absStore m s) = mapLru (absEntry m) (msLru s)"
  by (simp add: storeLru_def absStore_def mapLru_def msLru_def)

lemma absStore_with: "absStore m (msWith s l) = withLru (absStore m s) (mapLru (absEntry m) l)"
  by (simp add: absStore_def msWith_def withLru_def mapLru_def)

section \<open>Copies with another TTL\<close>

lemma objAt_mapTTLs:
  "objAt (m[a := mapTTLs f (m ! a)]) x = (if x = a then map_option (mapTTLs f) (objAt m x) else objAt m x)"
  by (simp add: objAt_def)

lemma mapTTLs_simps [simp]:
  "mapTTLs f (Bytes bs) = Bytes bs" "mapTTLs f (SoaCell soa) = SoaCell soa"
  "mapTTLs f (RRArray rs) = RRArray (map (\<lambda>st. st\<lparr>stTTL := f (stTTL st)\<rparr>) rs)"
  by (simp_all add: mapTTLs_def)

lemma memBytes_mapTTLs [simp]: "memBytes (m[a := mapTTLs f (m ! a)]) = memBytes m"
proof
  show "memBytes (m[a := mapTTLs f (m ! a)]) x = memBytes m x" for x
    unfolding memBytes_def objAt_mapTTLs by (cases "objAt m (slArr x)") (auto split: obj.split)
qed

lemma memSOA_mapTTLs [simp]: "memSOA (m[a := mapTTLs f (m ! a)]) = memSOA m"
proof
  show "memSOA (m[a := mapTTLs f (m ! a)]) x = memSOA m x" for x
    unfolding memSOA_def objAt_mapTTLs by (cases "objAt m x") (auto split: obj.split)
qed

lemma structsOf_mapTTLs:
  "structsOf (m[slArr out := mapTTLs f (m ! slArr out)]) (Some out) = map (\<lambda>st. st\<lparr>stTTL := f (stTTL st)\<rparr>) (structsOf m (Some out))"
  unfolding structsOf_def objAt_mapTTLs
  by (cases "objAt m (slArr out)") (auto simp: take_map drop_map split: obj.split)

lemma refs_mapTTLs [simp]: "refs (mapTTLs f obj) = refs obj"
  by (cases obj) (simp_all add: mapTTLs_def structRefs_def)

lemma valueRRs_mapTTLs:
  "valueRRs (m[slArr out := mapTTLs f (m ! slArr out)]) (Some out) = map (\<lambda>rr. rr\<lparr>TTL := f (TTL rr)\<rparr>) (valueRRs m (Some out))"
  unfolding valueRRs_def structsOf_mapTTLs
  by (simp add: valueRR_def split: option.split)

lemma closedFrom_mapTTLs: "closedFrom n m \<Longrightarrow> closedFrom n (m[a := mapTTLs f (m ! a)])"
proof -
  have "refs (m[a := mapTTLs f (m ! a)] ! x) = refs (m ! x)" if "x < length m" for x
    using that by (cases "x = a") simp_all
  then show "closedFrom n m \<Longrightarrow> closedFrom n (m[a := mapTTLs f (m ! a)])" by (simp add: closedFrom_def)
qed

lemma grown_update: "grown m m1 \<Longrightarrow> length m \<le> a \<Longrightarrow> grown m (m1[a := obj])"
  by (auto simp: grown_def list_update_append)

lemma cloneWith_copied:
  assumes run: "cloneWith f m rrs = (out, m')" and here: "reach m rrs \<subseteq> {..<length m}"
  shows "copied n m m' (reach m' out)" "valueRRs m' out = map (\<lambda>rr. rr\<lparr>TTL := f (TTL rr)\<rparr>) (valueRRs m rrs)"
proof -
  obtain out1 m1 where clone: "CloneRRs m rrs = (out1, m1)" by (meson surj_pair)
  note c = CloneRRs_copied(1) [OF clone here] CloneRRs_copied(2) [OF clone here]
  have "copied n m m' (reach m' out) \<and> valueRRs m' out = map (\<lambda>rr. rr\<lparr>TTL := f (TTL rr)\<rparr>) (valueRRs m rrs)"
  proof (cases out1)
    case None
    then show ?thesis using run clone c by (auto simp: cloneWith_def valueRRs_def structsOf_def)
  next
    case (Some o1)
    then have out: "out = Some o1" and m': "m' = m1[slArr o1 := mapTTLs f (m1 ! slArr o1)]"
      using run clone by (auto simp: cloneWith_def)
    have "reach m' out = reach m1 out1"
      unfolding reach_def out m' Some structsOf_mapTTLs by (simp add: structRefs_def)
    moreover have "slArr o1 \<in> newSince m m1" using c(1) Some by (auto simp: copied_def reach_def)
    ultimately have "copied n m m' (reach m' out)"
      using c(1) [of n] grown_update [of m m1 "slArr o1"] closedFrom_mapTTLs [of n m1] by (simp add: copied_def m')
    moreover have "valueRRs m' out = map (\<lambda>rr. rr\<lparr>TTL := f (TTL rr)\<rparr>) (valueRRs m rrs)" using c(2) Some unfolding out m' valueRRs_mapTTLs by simp
    ultimately show ?thesis ..
  qed
  then show "copied n m m' (reach m' out)" "valueRRs m' out = map (\<lambda>rr. rr\<lparr>TTL := f (TTL rr)\<rparr>) (valueRRs m rrs)" by simp_all
qed

lemma memWithTTL_copied:
  assumes "memWithTTL m rrs ttl = (out, m')" "reach m rrs \<subseteq> {..<length m}"
  shows "copied n m m' (reach m' out)" "valueRRs m' out = withTTL (valueRRs m rrs) ttl"
  using cloneWith_copied [OF assms [unfolded memWithTTL_def]] by (simp_all add: withTTL_def)

section \<open>Who may write where\<close>

text \<open>
  \<open>pub\<close> are the addresses the callers know: what they made themselves and what lookups handed
  out.  The cache keeps its records outside.
\<close>

definition owned :: "mem \<Rightarrow> memEntry \<Rightarrow> nat set" where
  "owned m e = reach m (meAnswers e) \<union> reach m (meAuthorities e)"

definition memInv :: "mem \<Rightarrow> nat set \<Rightarrow> memStore \<Rightarrow> bool" where
  "memInv m pub s =
     (pub \<subseteq> {..<length m} \<and> (\<forall>a\<in>pub. refs (m ! a) \<subseteq> pub) \<and>
      (\<forall>k e. Mapping.lookup (msEntries s) k = Some e \<longrightarrow> owned m e \<subseteq> {..<length m} - pub))"

text \<open>Slices that a caller can hold; all they lead to is then known to the callers, too.\<close>

definition holds :: "nat set \<Rightarrow> slice option \<Rightarrow> bool" where
  "holds pub s = (sliceRefs s \<subseteq> pub)"

lemma holds_reach: "memInv m pub s \<Longrightarrow> holds pub x \<Longrightarrow> reach m x \<subseteq> pub"
proof (cases x)
  case (Some sl)
  assume inv: "memInv m pub s" "holds pub x"
  then have a: "slArr sl \<in> pub" "slArr sl < length m" "refs (m ! slArr sl) \<subseteq> pub"
    using Some by (auto simp: memInv_def holds_def)
  have "(\<Union>st\<in>set (structsOf m x). structRefs st) \<subseteq> refs (m ! slArr sl)"
    using a(2) by (cases "m ! slArr sl") (auto simp: structsOf_def objAt_def Some dest!: in_set_takeD in_set_dropD)
  then show "reach m x \<subseteq> pub" using a by (auto simp: reach_def Some)
qed (simp add: reach_def structsOf_def)

lemma holds_here: "memInv m pub s \<Longrightarrow> holds pub x \<Longrightarrow> reach m x \<subseteq> {..<length m}"
  by (drule (1) holds_reach [rotated]) (auto simp: memInv_def)

lemma owned_agree:
  assumes "agreeOn (owned m e) m m'"
  shows "absEntry m' e = absEntry m e" "owned m' e = owned m e"
proof -
  have "agreeOn (reach m (meAnswers e)) m m'" "agreeOn (reach m (meAuthorities e)) m m'"
    by (rule agreeOn_mono [OF assms]; simp add: owned_def)+
  note a = reach_agree(1,2) [OF this(1)] reach_agree(1,2) [OF this(2)]
  show "absEntry m' e = absEntry m e" by (simp add: absEntry_def a)
  show "owned m' e = owned m e" by (simp add: owned_def a)
qed

lemma absEntries_agree:
  assumes "\<And>k e. Mapping.lookup es k = Some e \<Longrightarrow> absEntry m' e = absEntry m e"
  shows "Mapping.map_values (\<lambda>_. absEntry m') es = Mapping.map_values (\<lambda>_. absEntry m) es"
proof (rule mapping_eqI)
  fix k
  show "Mapping.lookup (Mapping.map_values (\<lambda>_. absEntry m') es) k = Mapping.lookup (Mapping.map_values (\<lambda>_. absEntry m) es) k"
    using assms by (cases "Mapping.lookup es k") simp_all
qed

lemma absStore_agree:
  "(\<And>k e. Mapping.lookup (msEntries s) k = Some e \<Longrightarrow> agreeOn (owned m e) m m') \<Longrightarrow> absStore m' s = absStore m s"
  using absEntries_agree [of "msEntries s" m' m] owned_agree(1) by (force simp: absStore_def)

lemma memInvD:
  assumes "memInv m pub s"
  shows "pub \<subseteq> {..<length m}" "a \<in> pub \<Longrightarrow> refs (m ! a) \<subseteq> pub"
    and "Mapping.lookup (msEntries s) k = Some e \<Longrightarrow> owned m e \<subseteq> {..<length m} - pub"
  using assms unfolding memInv_def by blast+

lemma memInv_entries:
  "memInv m pub s \<Longrightarrow> (\<And>k e. Mapping.lookup (msEntries s') k = Some e \<Longrightarrow> Mapping.lookup (msEntries s) k = Some e) \<Longrightarrow>
     memInv m pub s'"
  unfolding memInv_def by blast

text \<open>Growing the memory changes nothing for the cache, nor for the callers.\<close>

lemma grown_refs: "grown m m' \<Longrightarrow> a < length m \<Longrightarrow> m' ! a = m ! a"
  by (auto simp: grown_def nth_append)

lemma memInv_grown:
  assumes inv: "memInv m pub s" and g: "grown m m'"
  shows "absStore m' s = absStore m s" "memInv m' pub s"
proof -
  have ag: "agreeOn (owned m e) m m'" if "Mapping.lookup (msEntries s) k = Some e" for k e
    using memInvD(3) [OF inv that] by (intro grown_agree [OF g]) blast
  then show "absStore m' s = absStore m s" by (rule absStore_agree)
  have "owned m' e \<subseteq> {..<length m'} - pub" if e: "Mapping.lookup (msEntries s) k = Some e" for k e
    using owned_agree(2) [OF ag [OF e]] memInvD(3) [OF inv e] grown_length [OF g] by auto
  moreover have "refs (m' ! a) \<subseteq> pub" if "a \<in> pub" for a
  proof -
    have "a < length m" using memInvD(1) [OF inv] that by blast
    then show ?thesis using memInvD(2) [OF inv that] grown_refs [OF g] by simp
  qed
  moreover have "pub \<subseteq> {..<length m'}" using memInvD(1) [OF inv] grown_length [OF g] by auto
  ultimately show "memInv m' pub s" unfolding memInv_def by blast
qed

text \<open>New memory that is closed can be handed to the callers.\<close>

lemma memInv_handed:
  assumes inv: "memInv m pub s" and c: "copied (length m) m m' A"
  shows "memInv m' (pub \<union> newSince m m') s"
proof -
  have g: "grown m m'" and cl: "closedFrom (length m) m'" using c by (simp_all add: copied_def)
  note inv' = memInv_grown(2) [OF inv g]
  have "owned m' e \<subseteq> {..<length m'} - (pub \<union> newSince m m')" if e: "Mapping.lookup (msEntries s) k = Some e" for k e
  proof -
    have "agreeOn (owned m e) m m'" using memInvD(3) [OF inv e] by (intro grown_agree [OF g]) blast
    then have "owned m' e = owned m e" by (rule owned_agree(2))
    then show ?thesis using memInvD(3) [OF inv e] memInvD(3) [OF inv' e] by auto
  qed
  moreover have "refs (m' ! a) \<subseteq> pub \<union> newSince m m'" if "a \<in> pub \<union> newSince m m'" for a
    using that memInvD(2) [OF inv'] cl unfolding closedFrom_def by fastforce
  moreover have "pub \<union> newSince m m' \<subseteq> {..<length m'}" using memInvD(1) [OF inv'] by auto
  ultimately show ?thesis unfolding memInv_def by blast
qed

section \<open>The operations refine those on values\<close>

lemma lruEvict_sub: "Mapping.lookup (fst (lruEvict cap l)) k = Some e \<Longrightarrow> Mapping.lookup (fst l) k = Some e"
proof (induction cap l rule: lruEvict.induct)
  case (1 cap l)
  then show ?case by (subst (asm) (2) lruEvict.simps) (auto simp: lookup_delete_if split: if_splits)
qed

definition memFound :: "unicode \<Rightarrow> memStore \<Rightarrow> gostr \<Rightarrow> u16 \<Rightarrow> memEntry option" where
  "memFound u s name qtype =
     (case Mapping.lookup (msEntries s) (normalizeKey u name qtype) of
        Some e \<Rightarrow> Some e
      | None \<Rightarrow> enclosingLoop (msEntries s) (fst (normalizeKey u name anyType)))"

definition msRemove :: "cacheKey \<Rightarrow> memStore \<Rightarrow> memStore" where
  "msRemove k s = msWith s (lruRemove k (msLru s))"

definition msTouch :: "cacheKey \<Rightarrow> memStore \<Rightarrow> memStore" where
  "msTouch k s = msWith s (lruFront k (msLru s))"

definition msInsert :: "cacheKey \<Rightarrow> memEntry \<Rightarrow> memStore \<Rightarrow> memStore" where
  "msInsert k e s = msWith s (lruPut (msMaxEntries s) k e (msLru s))"

lemma lruPut_map: "lruPut cap k (f v) (mapLru f l) = mapLru f (lruPut cap k v l)"
proof -
  have "fst (mapLru f l) = Mapping.map_values (\<lambda>_. f) (fst l)" by (simp add: mapLru_def)
  then show ?thesis
    by (cases "Mapping.lookup (fst l) k") (simp_all add: lruPut_def lru_map [where f = f] lruEvict_map [where f = f])
qed

lemma abs_ops:
  "found u (absStore m s) name qtype = map_option (absEntry m) (memFound u s name qtype)"
  "absStore m (msRemove k s) = storeRemove k (absStore m s)"
  "absStore m (msTouch k s) = storeTouch k (absStore m s)"
  "absStore m (msInsert k e s) = storeInsert k (absEntry m e) (absStore m s)"
proof -
  show "found u (absStore m s) name qtype = map_option (absEntry m) (memFound u s name qtype)"
    by (simp add: found_def memFound_def storeGet_def enclosingNXDOMAIN_def absStore_def enclosingLoop_map split: option.split)
  have "maxEntries (absStore m s) = msMaxEntries s" by (simp add: absStore_def)
  then show "absStore m (msRemove k s) = storeRemove k (absStore m s)"
    "absStore m (msTouch k s) = storeTouch k (absStore m s)"
    "absStore m (msInsert k e s) = storeInsert k (absEntry m e) (absStore m s)"
    by (simp_all add: msRemove_def msTouch_def msInsert_def storeRemove_def storeTouch_def storeInsert_def
        absStore_with absStore_lru lru_map [where f = "absEntry m"] lruPut_map [where f = "absEntry m"])
qed

lemma msEntries_ops:
  "Mapping.lookup (msEntries (msRemove k s)) k' = Some e \<Longrightarrow> Mapping.lookup (msEntries s) k' = Some e"
  "msEntries (msTouch k s) = msEntries s"
  by (auto simp: msRemove_def msTouch_def msWith_def msLru_def lruRemove_def lruFront_def lookup_delete_if split: if_splits)

lemma msEntries_insert:
  "Mapping.lookup (msEntries (msInsert k v s)) k' = Some e \<Longrightarrow> e = v \<or> Mapping.lookup (msEntries s) k' = Some e"
  by (auto simp: msInsert_def msWith_def lruPut_def msLru_def Let_def lruRemove_def lruPush_def lookup_update' lookup_delete_if
      split: if_splits dest!: lruEvict_sub)

lemma memFound_entry: "memFound u s name qtype = Some e \<Longrightarrow> \<exists>k. Mapping.lookup (msEntries s) k = Some e"
proof (cases "Mapping.lookup (msEntries s) (normalizeKey u name qtype)")
  case None
  assume "memFound u s name qtype = Some e"
  with None have "enclosingLoop (msEntries s) (fst (normalizeKey u name anyType)) = Some e" by (simp add: memFound_def)
  from enclosingLoop_Some [OF this] show ?thesis by blast
next
  case (Some e')
  assume "memFound u s name qtype = Some e"
  with Some have "Mapping.lookup (msEntries s) (normalizeKey u name qtype) = Some e" by (simp add: memFound_def)
  then show ?thesis ..
qed

lemma memLookup_cases:
  "memLookup u name qtype now m s =
     (case memFound u s name qtype of
        None \<Rightarrow> (m, s, None)
      | Some e \<Rightarrow>
          if meExpiry e \<le> now then (m, msRemove (meKey e) s, None)
          else (case memWithTTL m (meAnswers e) (hitTTL (absEntry m e) now) of (answers, m1) \<Rightarrow>
                case memWithTTL m1 (meAuthorities e) (hitTTL (absEntry m e) now) of (authorities, m2) \<Rightarrow>
                  (m2, msTouch (meKey e) s, Some (meRcode e, answers, authorities, meAuthentic e))))"
  unfolding memLookup_def memFound_def msRemove_def msTouch_def hitTTL_def Let_def absEntry_def
  by (simp split: option.split)

text \<open>Two copies, the second made after the first.\<close>

lemma copy_later:
  assumes "copied n m m1 A" "reach m b \<subseteq> {..<length m}"
  shows "valueRRs m1 b = valueRRs m b" "reach m1 b \<subseteq> {..<length m1}"
proof -
  have g: "grown m m1" using assms(1) by (simp add: copied_def)
  note a = reach_agree(1,2) [OF grown_agree [OF g assms(2)]]
  show "valueRRs m1 b = valueRRs m b" by (rule a(1))
  show "reach m1 b \<subseteq> {..<length m1}" using a(2) assms(2) grown_length [OF g] by auto
qed

lemma two_copies:
  assumes "copied n m m1 (reach m1 a)" "copied n m1 m2 (reach m2 b)"
  shows "copied n m m2 (reach m2 a \<union> reach m2 b)" "valueRRs m2 a = valueRRs m1 a"
proof -
  have "grown m1 m2" using assms(2) by (simp add: copied_def)
  note a = reach_agree(1,2) [OF copied_fresh_agree [OF assms(1) this]]
  show "copied n m m2 (reach m2 a \<union> reach m2 b)" using copied_trans [OF assms] a(2) by simp
  show "valueRRs m2 a = valueRRs m1 a" by (rule a(1))
qed

lemma two_hits:
  assumes one: "memWithTTL m a ttl = (a', m1)" and two: "memWithTTL m1 b ttl = (b', m2)"
    and here: "reach m a \<subseteq> {..<length m}" "reach m b \<subseteq> {..<length m}"
  shows "copied n m m2 (reach m2 a' \<union> reach m2 b')"
    and "valueRRs m2 a' = withTTL (valueRRs m a) ttl" "valueRRs m2 b' = withTTL (valueRRs m b) ttl"
proof -
  note c1 = memWithTTL_copied(1) [OF one here(1), of n] memWithTTL_copied(2) [OF one here(1)]
  note b = copy_later [OF c1(1) here(2)]
  note c2 = memWithTTL_copied(1) [OF two b(2), of n] memWithTTL_copied(2) [OF two b(2)]
  note c = two_copies [OF c1(1) c2(1)]
  show "copied n m m2 (reach m2 a' \<union> reach m2 b')" by (rule c(1))
  show "valueRRs m2 a' = withTTL (valueRRs m a) ttl" "valueRRs m2 b' = withTTL (valueRRs m b) ttl"
    by (simp_all add: c(2) c1(2) c2(2) b(1))
qed

lemma two_clones:
  assumes one: "CloneRRs m a = (a', m1)" and two: "CloneRRs m1 b = (b', m2)"
    and here: "reach m a \<subseteq> {..<length m}" "reach m b \<subseteq> {..<length m}"
  shows "copied n m m2 (reach m2 a' \<union> reach m2 b')" "valueRRs m2 a' = valueRRs m a" "valueRRs m2 b' = valueRRs m b"
proof -
  note c1 = CloneRRs_copied(1) [OF one here(1), of n] CloneRRs_copied(2) [OF one here(1)]
  note b = copy_later [OF c1(1) here(2)]
  note c2 = CloneRRs_copied(1) [OF two b(2), of n] CloneRRs_copied(2) [OF two b(2)]
  note c = two_copies [OF c1(1) c2(1)]
  show "copied n m m2 (reach m2 a' \<union> reach m2 b')" by (rule c(1))
  show "valueRRs m2 a' = valueRRs m a" "valueRRs m2 b' = valueRRs m b" by (simp_all add: c(2) c1(2) c2(2) b(1))
qed

definition handed :: "mem \<Rightarrow> memHit option \<Rightarrow> nat set" where
  "handed m r = (case r of None \<Rightarrow> {} | Some (rc, ans, auths, auth) \<Rightarrow> reach m ans \<union> reach m auths)"

lemma lookup_refined:
  assumes inv: "memInv m pub s" and run: "memLookup u name qtype now m s = (m', s', r)"
  shows "lookup u (absStore m s) name qtype now = (absStore m' s', map_option (absHit m') r) \<and>
    copied (length m) m m' (handed m' r) \<and> memInv m pub s'"
proof (cases "memFound u s name qtype")
  case None
  then show ?thesis using run inv by (simp add: memLookup_cases lookup_cases abs_ops copied_def handed_def)
next
  case (Some e)
  then obtain k where k: "Mapping.lookup (msEntries s) k = Some e" using memFound_entry by blast
  have e: "expiry (absEntry m e) = meExpiry e" "eKey (absEntry m e) = meKey e" by (simp_all add: absEntry_def)
  show ?thesis
  proof (cases "meExpiry e \<le> now")
    case True
    then have m': "m' = m" and s': "s' = msRemove (meKey e) s" and r: "r = None"
      using run Some by (simp_all add: memLookup_cases)
    have "memInv m pub s'" unfolding s' by (rule memInv_entries [OF inv]) (rule msEntries_ops(1))
    then show ?thesis using True Some e by (simp add: lookup_cases abs_ops m' s' r copied_def handed_def)
  next
    case False
    let ?ttl = "hitTTL (absEntry m e) now"
    obtain a m1 where one: "memWithTTL m (meAnswers e) ?ttl = (a, m1)" by (meson surj_pair)
    obtain b where two: "memWithTTL m1 (meAuthorities e) ?ttl = (b, m')"
      and s': "s' = msTouch (meKey e) s" and r: "r = Some (meRcode e, a, b, meAuthentic e)"
      using run Some False one by (auto simp: memLookup_cases split: prod.splits)
    have here: "reach m (meAnswers e) \<subseteq> {..<length m}" "reach m (meAuthorities e) \<subseteq> {..<length m}"
      using memInvD(3) [OF inv k] by (auto simp: owned_def)
    note c = two_hits [OF one two here]
    have inv': "memInv m pub s'" unfolding s' by (rule memInv_entries [OF inv]) (simp only: msEntries_ops(2))
    have g: "grown m m'" using c(1) by (simp add: copied_def)
    have "absHit m' (meRcode e, a, b, meAuthentic e) = (eRcode (absEntry m e), withTTL (eAnswers (absEntry m e)) ?ttl,
      withTTL (eAuthorities (absEntry m e)) ?ttl, authentic (absEntry m e))"
      unfolding absHit_def prod.case c(2,3) by (simp add: absEntry_def)
    moreover have "absStore m' s' = storeTouch (meKey e) (absStore m s)"
      unfolding s' abs_ops memInv_grown(1) [OF inv g] ..
    ultimately have "lookup u (absStore m s) name qtype now = (absStore m' s', map_option (absHit m') r)"
      using Some False e by (simp add: lookup_cases abs_ops(1) r)
    then show ?thesis using c(1) inv' by (simp add: handed_def r)
  qed
qed

lemma memPut_cases:
  "memPut u name qtype rcode answers authorities auth now m s =
     (case cacheable qtype rcode (valueRRs m answers) (valueRRs m authorities) of
        None \<Rightarrow> (m, s)
      | Some (t, ttl) \<Rightarrow> if ttl = 0 then (m, s)
          else (case CloneRRs m answers of (ans, m1) \<Rightarrow>
                case CloneRRs m1 authorities of (auths, m2) \<Rightarrow>
                  (m2, msInsert (normalizeKey u name t)
                     \<lparr>meKey = normalizeKey u name t, meRcode = rcode, meAnswers = ans, meAuthorities = auths,
                      meAuthentic = auth, meExpiry = now + seconds (clampTTL (absStore m s) ttl)\<rparr> s)))"
  by (simp add: memPut_def msInsert_def lruPut_def Let_def clampTTL_def absStore_def msLru_def split: option.split)

lemma put_refined:
  assumes inv: "memInv m pub s" and mine: "holds pub answers" "holds pub authorities"
    and run: "memPut u name qtype rcode answers authorities auth now m s = (m', s')"
  shows "absStore m' s' = put u (absStore m s) name qtype rcode (valueRRs m answers) (valueRRs m authorities) auth now \<and>
    memInv m' pub s'"
proof -
  have skip: "absStore m' s' = absStore m s \<and> memInv m' pub s'" if "(m', s') = (m, s)" using that inv by simp
  show ?thesis
  proof (cases "cacheable qtype rcode (valueRRs m answers) (valueRRs m authorities)")
    case None
    then show ?thesis using skip run by (simp add: memPut_cases put_cases)
  next
    case (Some tt)
    obtain t ttl where tt: "tt = (t, ttl)" by (cases tt)
    show ?thesis
    proof (cases "ttl = 0")
      case True
      then show ?thesis using skip run Some tt by (simp add: memPut_cases put_cases)
    next
      case False
      obtain ans m1 where one: "CloneRRs m answers = (ans, m1)" by (meson surj_pair)
      obtain auths m2 where two: "CloneRRs m1 authorities = (auths, m2)" by (meson surj_pair)
      let ?k = "normalizeKey u name t"
      let ?e = "\<lparr>meKey = ?k, meRcode = rcode, meAnswers = ans, meAuthorities = auths,
        meAuthentic = auth, meExpiry = now + seconds (clampTTL (absStore m s) ttl)\<rparr>"
      have m': "m' = m2" and s': "s' = msInsert ?k ?e s"
        using run Some tt False one two by (simp_all add: memPut_cases)
      note c = two_clones [OF one two holds_here [OF inv mine(1)] holds_here [OF inv mine(2)]]
      have g: "grown m m'" using c(1) by (simp add: copied_def m')
      have e: "absEntry m' ?e = newEntry (absStore m s) ?k rcode (valueRRs m answers) (valueRRs m authorities) auth now ttl"
        by (simp add: absEntry_def newEntry_def m' c(2,3))
      have "owned m' ?e \<subseteq> {..<length m'} - pub"
      proof -
        have "owned m' ?e \<subseteq> newSince m m'" using c(1) [of 0] by (simp add: owned_def copied_def m')
        moreover have "x < length m" if "x \<in> pub" for x using memInvD(1) [OF inv] that by blast
        ultimately show ?thesis by fastforce
      qed
      then have "memInv m' pub s'"
        using memInv_grown(2) [OF inv g] msEntries_insert [of ?k ?e s] unfolding memInv_def s' by blast
      moreover have "absStore m' s' = storeInsert ?k (absEntry m' ?e) (absStore m s)"
        unfolding s' abs_ops memInv_grown(1) [OF inv g] ..
      ultimately show ?thesis using Some tt False by (simp add: put_cases e)
    qed
  qed
qed

section \<open>The cache and its callers\<close>

text \<open>
  Callers make objects and write to objects, of what they know; they put what they hold, and
  are handed what a lookup copied.  The history holds the values the records had when they were
  put.
\<close>

inductive memRun :: "unicode \<Rightarrow> insertion set \<Rightarrow> mem \<Rightarrow> nat set \<Rightarrow> memStore \<Rightarrow> bool" for u where
  start: "memRun u {} [] {} (newMemStore cfg)"
| make: "memRun u h m pub s \<Longrightarrow> refs obj \<subseteq> pub \<Longrightarrow> memRun u h (m @ [obj]) (insert (length m) pub) s"
| change: "memRun u h m pub s \<Longrightarrow> a \<in> pub \<Longrightarrow> refs obj \<subseteq> pub \<Longrightarrow> memRun u h (m[a := obj]) pub s"
| put: "memRun u h m pub s \<Longrightarrow> holds pub ans \<Longrightarrow> holds pub auths \<Longrightarrow>
    memPut u name qtype rcode ans auths auth now m s = (m', s') \<Longrightarrow>
    memRun u (insert (Insertion name qtype rcode (valueRRs m ans) (valueRRs m auths) auth now) h) m' pub s'"
| lookup: "memRun u h m pub s \<Longrightarrow> memLookup u name qtype now m s = (m', s', r) \<Longrightarrow>
    memRun u h m' (pub \<union> newSince m m') s'"

lemma agreeOn_update: "a \<notin> A \<Longrightarrow> agreeOn A m (m[a := obj])"
  unfolding agreeOn_def objAt_def by (metis length_list_update nth_list_update_neq)

lemma change_refined:
  assumes inv: "memInv m pub s" and a: "a \<in> pub" "refs obj \<subseteq> pub"
  shows "absStore (m[a := obj]) s = absStore m s" "memInv (m[a := obj]) pub s"
proof -
  have ag: "agreeOn (owned m e) m (m[a := obj])" if "Mapping.lookup (msEntries s) k = Some e" for k e
  proof -
    have "a \<notin> owned m e" using memInvD(3) [OF inv that] a(1) by blast
    then show ?thesis by (rule agreeOn_update)
  qed
  then show "absStore (m[a := obj]) s = absStore m s" by (rule absStore_agree)
  have "owned (m[a := obj]) e \<subseteq> {..<length m} - pub" if e: "Mapping.lookup (msEntries s) k = Some e" for k e
    using owned_agree(2) [OF ag [OF e]] memInvD(3) [OF inv e] by simp
  moreover have "refs (m[a := obj] ! b) \<subseteq> pub" if "b \<in> pub" for b
  proof -
    have "a < length m" using memInvD(1) [OF inv] a(1) by blast
    then show ?thesis using memInvD(2) [OF inv that] a(2) by (cases "b = a") simp_all
  qed
  ultimately show "memInv (m[a := obj]) pub s" using memInvD(1) [OF inv] unfolding memInv_def length_list_update by blast
qed

lemma make_refined:
  assumes inv: "memInv m pub s" and refs: "refs obj \<subseteq> pub"
  shows "absStore (m @ [obj]) s = absStore m s" "memInv (m @ [obj]) (insert (length m) pub) s"
proof -
  note g = memInv_grown [OF inv grown_append [of m "[obj]"]]
  show "absStore (m @ [obj]) s = absStore m s" by (rule g(1))
  have "owned (m @ [obj]) e \<subseteq> {..<Suc (length m)} - insert (length m) pub" if e: "Mapping.lookup (msEntries s) k = Some e" for k e
  proof -
    have "agreeOn (owned m e) m (m @ [obj])" using memInvD(3) [OF inv e] by (intro grown_agree) auto
    then show ?thesis using owned_agree(2) memInvD(3) [OF inv e] by fastforce
  qed
  moreover have "refs ((m @ [obj]) ! b) \<subseteq> pub" if "b \<in> insert (length m) pub" for b
    using that refs memInvD(2) [OF g(2), of b] by (cases "b = length m") auto
  ultimately show "memInv (m @ [obj]) (insert (length m) pub) s"
    unfolding memInv_def length_append list.size using memInvD(1) [OF g(2)] by (simp add: subset_insertI2)
qed

lemma memRun_refined: "memRun u h m pub s \<Longrightarrow> memInv m pub s \<and> storeRun u h (absStore m s)"
proof (induction rule: memRun.induct)
  case (start cfg)
  have "absStore [] (newMemStore cfg) = newStore cfg"
    by (simp add: absStore_def newMemStore_def newStore_def) (rule mapping_eqI, simp)
  then show ?case using storeRun.start [of u cfg] by (simp add: memInv_def newMemStore_def)
next
  case (make h m pub s obj)
  then show ?case using make_refined [of m pub s obj] by simp
next
  case (change h m pub s a obj)
  then show ?case using change_refined [of m pub s a obj] by simp
next
  case (put h m pub s ans auths name qtype rcode auth now m' s')
  then show ?case using put_refined [OF _ put.hyps(2,3,4)] storeRun.put by metis
next
  case (lookup h m pub s name qtype now m' s' r)
  then have inv: "memInv m pub s" and run: "storeRun u h (absStore m s)" by auto
  note l = lookup_refined [OF inv lookup.hyps(2)]
  have "storeRun u h (absStore m' s')" using storeRun.lookup [OF run, of name qtype now] l by simp
  then show ?case using l memInv_handed by blast
qed

text \<open>
  (C29) The cache shares nothing with its callers.  Whatever callers put, are handed and write,
  to records they made, put or were handed: the cache in memory behaves as the cache of values
  with the history of what the records were when they were put, every lookup gives the records
  that cache gives, and they are in memory that no caller knew before.
\<close>

theorem cache_shares_nothing:
  assumes "memRun u h m pub s" "memLookup u name qtype now m s = (m', s', r)"
  shows "storeRun u h (absStore m s) \<and>
    lookup u (absStore m s) name qtype now = (absStore m' s', map_option (absHit m') r) \<and>
    handed m' r \<inter> {..<length m} = {}"
proof -
  have inv: "memInv m pub s" and run: "storeRun u h (absStore m s)" using memRun_refined [OF assms(1)] by auto
  note l = lookup_refined [OF inv assms(2)]
  then have "handed m' r \<subseteq> newSince m m'" by (simp add: copied_def)
  then show ?thesis using l run by fastforce
qed

text \<open>A record is put, then its address is overwritten by the caller; the lookup gives the old one.\<close>

definition exampleStruct :: rrStruct where
  "exampleStruct = \<lparr>stName = lit ''a'', stType = TypeA, stClass = ClassIN, stTTL = 60, stRDLength = 4,
     stA = Some \<lparr>slArr = 0, slOff = 0, slLen = 4\<rparr>, stAAAA = None, stNS = [], stCNAME = [], stSOA = None, stRaw = None\<rparr>"

definition exampleMem :: mem where
  "exampleMem = [Bytes [192, 0, 2, 1], RRArray [exampleStruct]]"

definition examplePut :: "mem \<times> memStore" where
  "examplePut = memPut plainUnicode (lit ''a'') TypeA 0 (Some \<lparr>slArr = 1, slOff = 0, slLen = 1\<rparr>) None False 0
     exampleMem (newMemStore smallConfig)"

definition exampleHit :: "mem \<times> memStore \<times> memHit option" where
  "exampleHit = memLookup plainUnicode (lit ''A.'') TypeA second ((fst examplePut)[0 := Bytes [6, 6, 6, 6]]) (snd examplePut)"

theorem cache_shares_nothing_witness:
  "map_option (\<lambda>(rc, ans, _). map rrA ans)
     (snd (lookup plainUnicode (absStore ((fst examplePut)[0 := Bytes [6, 6, 6, 6]]) (snd examplePut)) (lit ''A.'') TypeA second))
     = Some [Some [192, 0, 2, 1]]"
proof -
  have "memRun plainUnicode {} [Bytes [192, 0, 2, 1]] {0} (newMemStore smallConfig)"
    using memRun.make [OF memRun.start, of "Bytes [192, 0, 2, 1]"] by simp
  from memRun.make [OF this, of "RRArray [exampleStruct]"]
  have made: "memRun plainUnicode {} exampleMem {0, 1} (newMemStore smallConfig)"
    by (simp add: exampleMem_def exampleStruct_def structRefs_def insert_commute)
  have "holds {0, 1} (Some \<lparr>slArr = 1, slOff = 0, slLen = 1\<rparr>)" "holds {0, 1} None" by (simp_all add: holds_def)
  from memRun.put [OF made this prod.collapse [symmetric]]
  obtain h where "memRun plainUnicode h (fst examplePut) {0, 1} (snd examplePut)" unfolding examplePut_def by blast
  from memRun.change [OF this, of 0 "Bytes [6, 6, 6, 6]"]
  have run: "memRun plainUnicode h ((fst examplePut)[0 := Bytes [6, 6, 6, 6]]) {0, 1} (snd examplePut)" by simp
  obtain m' s' r where hit: "exampleHit = (m', s', r)" by (metis prod_cases3)
  have "map_option (\<lambda>(rc, ans, _). map rrA (valueRRs (fst exampleHit) ans)) (snd (snd exampleHit)) = Some [Some [192, 0, 2, 1]]"
    by code_simp
  then have "map_option (\<lambda>(rc, ans, _). map rrA ans) (map_option (absHit m') r) = Some [Some [192, 0, 2, 1]]"
    by (auto simp: hit absHit_def)
  then show ?thesis using cache_shares_nothing [OF run hit [unfolded exampleHit_def]] by simp
qed

end
