(* ===== verification/Shared_Memory.thy ===== *)
theory Shared_Memory
  imports Cache_Memory Single_Flight
begin

text \<open>
  Messages in memory, where handlers pass one message to more than one party: \<open>recordingWriter\<close>
  of the cache, which passes a message on and keeps it to store it, and \<open>waitFor\<close> of
  \<open>singleflight\<close>, which gives every waiter a copy of what the leader was given.
\<close>

section \<open>Messages\<close>

record memMsg =
  mmHeader :: Header
  mmQuestions :: "Question list"
  mmAnswers :: "slice option"
  mmAuthorities :: "slice option"
  mmAdditionals :: "slice option"

definition valueMsg :: "mem \<Rightarrow> memMsg \<Rightarrow> Message" where
  "valueMsg m msg =
     \<lparr>header = mmHeader msg, Questions = mmQuestions msg, Answers = valueRRs m (mmAnswers msg),
      Authorities = valueRRs m (mmAuthorities msg), Additionals = valueRRs m (mmAdditionals msg)\<rparr>"

definition reachMsg :: "mem \<Rightarrow> memMsg \<Rightarrow> nat set" where
  "reachMsg m msg = reach m (mmAnswers msg) \<union> reach m (mmAuthorities msg) \<union> reach m (mmAdditionals msg)"

lemma valueMsg_agree:
  assumes "agreeOn (reachMsg m msg) m m'"
  shows "valueMsg m' msg = valueMsg m msg"
proof -
  have "agreeOn (reach m (mmAnswers msg)) m m'" "agreeOn (reach m (mmAuthorities msg)) m m'"
    "agreeOn (reach m (mmAdditionals msg)) m m'"
    by (rule agreeOn_mono [OF assms]; auto simp: reachMsg_def)+
  note a = this [THEN reach_agree(1)]
  show ?thesis by (simp add: valueMsg_def a)
qed

section \<open>The message a waiter is given\<close>

definition memShare :: "Message \<Rightarrow> mem \<Rightarrow> memMsg \<Rightarrow> memMsg \<times> mem" where
  "memShare req m msg =
     (case CloneRRs m (mmAnswers msg) of (answers, m) \<Rightarrow>
      case CloneRRs m (mmAuthorities msg) of (authorities, m) \<Rightarrow>
      case CloneRRs m (mmAdditionals msg) of (additionals, m) \<Rightarrow>
        (msg\<lparr>mmHeader := (mmHeader msg)\<lparr>ID := ID (header req), RD := RD (header req)\<rparr>,
             mmQuestions := Questions req, mmAnswers := answers, mmAuthorities := authorities,
             mmAdditionals := additionals\<rparr>, m))"

lemma memShare_copied:
  assumes run: "memShare req m msg = (out, m')" and here: "reachMsg m msg \<subseteq> {..<length m}"
  shows "copied n m m' (reachMsg m' out)" "valueMsg m' out = shareAnswer req (valueMsg m msg)"
proof -
  obtain a m1 where one: "CloneRRs m (mmAnswers msg) = (a, m1)" by (meson surj_pair)
  obtain b m2 where two: "CloneRRs m1 (mmAuthorities msg) = (b, m2)" by (meson surj_pair)
  obtain c where three: "CloneRRs m2 (mmAdditionals msg) = (c, m')"
    and out: "out = msg\<lparr>mmHeader := (mmHeader msg)\<lparr>ID := ID (header req), RD := RD (header req)\<rparr>,
      mmQuestions := Questions req, mmAnswers := a, mmAuthorities := b, mmAdditionals := c\<rparr>"
    using run one two by (auto simp: memShare_def split: prod.splits)
  have r: "reach m (mmAnswers msg) \<subseteq> {..<length m}" "reach m (mmAuthorities msg) \<subseteq> {..<length m}"
    "reach m (mmAdditionals msg) \<subseteq> {..<length m}" using here by (auto simp: reachMsg_def)
  note ab = two_clones(1) [OF one two r(1,2), of n] two_clones(2,3) [OF one two r(1,2)]
  note c0 = copy_later [OF ab(1) r(3)]
  note c = CloneRRs_copied(1) [OF three c0(2), of n] CloneRRs_copied(2) [OF three c0(2)]
  have "grown m2 m'" using c(1) by (simp add: copied_def)
  note kept = copied_fresh_agree [OF ab(1) this]
  have "agreeOn (reach m2 a) m2 m'" "agreeOn (reach m2 b) m2 m'" by (rule agreeOn_mono [OF kept]; simp)+
  note ka = reach_agree(1,2) [OF this(1)] reach_agree(1,2) [OF this(2)]
  show "copied n m m' (reachMsg m' out)" using copied_trans [OF ab(1) c(1)] by (simp add: reachMsg_def out ka)
  show "valueMsg m' out = shareAnswer req (valueMsg m msg)"
    by (simp add: valueMsg_def out ka ab c(2) c0(1) shareAnswer_def)
qed

section \<open>The message passed on by the cache\<close>

definition memCapTTLs :: "u32 \<Rightarrow> mem \<Rightarrow> slice option \<Rightarrow> slice option \<times> mem" where
  "memCapTTLs maxTTL m rrs =
     (if \<not> list_ex (\<lambda>st. stTTL st > maxTTL) (structsOf m rrs) then (rrs, m)
      else cloneWith (\<lambda>ttl. min ttl maxTTL) m rrs)"

definition memPassOn :: "u32 \<Rightarrow> mem \<Rightarrow> memMsg \<Rightarrow> memMsg \<times> mem" where
  "memPassOn maxTTL m msg =
     (case memCapTTLs maxTTL m (mmAnswers msg) of (answers, m) \<Rightarrow>
      case memCapTTLs maxTTL m (mmAuthorities msg) of (authorities, m) \<Rightarrow>
        (msg\<lparr>mmAnswers := answers, mmAuthorities := authorities\<rparr>, m))"

lemma memCapTTLs_reads:
  assumes run: "memCapTTLs maxTTL m rrs = (out, m')" and here: "reach m rrs \<subseteq> {..<length m}"
  shows "grown m m'" "valueRRs m' out = capTTLs maxTTL (valueRRs m rrs)" "reach m' out \<subseteq> {..<length m'}"
proof -
  have ttl: "list_ex (\<lambda>rr. TTL rr > maxTTL) (valueRRs m rrs) = list_ex (\<lambda>st. stTTL st > maxTTL) (structsOf m rrs)"
    by (simp add: valueRRs_def list_ex_iff valueRR_def)
  have "grown m m' \<and> valueRRs m' out = capTTLs maxTTL (valueRRs m rrs) \<and> reach m' out \<subseteq> {..<length m'}"
  proof (cases "list_ex (\<lambda>st. stTTL st > maxTTL) (structsOf m rrs)")
    case True
    then have c: "cloneWith (\<lambda>ttl. min ttl maxTTL) m rrs = (out, m')" using run by (simp add: memCapTTLs_def)
    have "reach m' out \<subseteq> newSince m m'" using cloneWith_copied(1) [OF c here] by (simp add: copied_def)
    then show ?thesis using cloneWith_copied [OF c here] True ttl by (auto simp: copied_def capTTLs_def)
  next
    case False
    then show ?thesis using run here ttl by (simp add: memCapTTLs_def capTTLs_def)
  qed
  then show "grown m m'" "valueRRs m' out = capTTLs maxTTL (valueRRs m rrs)" "reach m' out \<subseteq> {..<length m'}" by simp_all
qed

text \<open>
  What is passed on is the capped message, and the message that is kept is not changed by it,
  although the two share the sections that need no cap.
\<close>

theorem passed_on_and_kept:
  assumes run: "memPassOn maxTTL m msg = (out, m')" and here: "reachMsg m msg \<subseteq> {..<length m}"
  shows "valueMsg m' out = cappedMsg maxTTL (valueMsg m msg) \<and> valueMsg m' msg = valueMsg m msg"
proof -
  obtain a m1 where one: "memCapTTLs maxTTL m (mmAnswers msg) = (a, m1)" by (meson surj_pair)
  obtain b where two: "memCapTTLs maxTTL m1 (mmAuthorities msg) = (b, m')"
    and out: "out = msg\<lparr>mmAnswers := a, mmAuthorities := b\<rparr>"
    using run one by (auto simp: memPassOn_def split: prod.splits)
  have r: "reach m (mmAnswers msg) \<subseteq> {..<length m}" "reach m (mmAuthorities msg) \<subseteq> {..<length m}"
    "reach m (mmAdditionals msg) \<subseteq> {..<length m}" using here by (auto simp: reachMsg_def)
  note c1 = memCapTTLs_reads [OF one r(1)]
  note b = reach_agree(1,2) [OF grown_agree [OF c1(1) r(2)]]
  have "reach m1 (mmAuthorities msg) \<subseteq> {..<length m1}" using b(2) r(2) grown_length [OF c1(1)] by auto
  note c2 = memCapTTLs_reads [OF two this]
  note g = grown_trans [OF c1(1) c2(1)]
  have "valueMsg m' msg = valueMsg m msg" by (rule valueMsg_agree [OF grown_agree [OF g here]])
  moreover have "valueRRs m' a = valueRRs m1 a" by (rule reach_agree(1) [OF grown_agree [OF c2(1) c1(3)]])
  moreover have "valueRRs m' (mmAdditionals msg) = valueRRs m (mmAdditionals msg)"
    by (rule reach_agree(1) [OF grown_agree [OF g r(3)]])
  ultimately show ?thesis by (simp add: valueMsg_def out cappedMsg_def c1(2) c2(2) b(1))
qed

section \<open>Property\<close>

text \<open>
  Waiters are given copies.  The message a waiter is handed reads as the leader's with the
  waiter's ID, RD bit and question; nothing the waiter then writes to its records changes what
  the leader was given, and nothing the leader writes changes what the waiter was.
\<close>

theorem waiters_are_given_copies:
  assumes "memShare req m msg = (out, m')" "reachMsg m msg \<subseteq> {..<length m}"
  shows "valueMsg m' out = shareAnswer req (valueMsg m msg) \<and>
    (\<forall>a\<in>reachMsg m' out. \<forall>obj. valueMsg (m'[a := obj]) msg = valueMsg m msg) \<and>
    (\<forall>a\<in>reachMsg m msg. \<forall>obj. valueMsg (m'[a := obj]) out = shareAnswer req (valueMsg m msg))"
proof -
  note c = memShare_copied(1) [OF assms, of 0] memShare_copied(2) [OF assms]
  have g: "grown m m'" and new: "reachMsg m' out \<subseteq> newSince m m'" using c(1) by (simp_all add: copied_def)
  have apart: "a \<notin> reachMsg m msg" if "a \<in> reachMsg m' out" for a using new assms(2) that by fastforce
  have old: "agreeOn (reachMsg m msg) m m'" by (rule grown_agree [OF g assms(2)])
  have "valueMsg (m'[a := obj]) msg = valueMsg m msg" if "a \<in> reachMsg m' out" for a obj
    using old agreeOn_update [OF apart [OF that], of m' obj] by (intro valueMsg_agree) (simp add: agreeOn_def)
  moreover have "valueMsg (m'[a := obj]) out = valueMsg m' out" if "a \<in> reachMsg m msg" for a obj
    by (rule valueMsg_agree [OF agreeOn_update]) (use apart that in blast)
  ultimately show ?thesis using c(2) by simp
qed

definition exampleMsg :: memMsg where
  "exampleMsg = \<lparr>mmHeader = zeroHeader\<lparr>ID := 1, QR := True\<rparr>, mmQuestions = [],
     mmAnswers = Some \<lparr>slArr = 1, slOff = 0, slLen = 1\<rparr>, mmAuthorities = None, mmAdditionals = None\<rparr>"

definition exampleShare :: "memMsg \<times> mem" where
  "exampleShare = memShare (reply (zeroHeader\<lparr>ID := 2\<rparr>) []) exampleMem exampleMsg"

text \<open>The waiter gets the address of the leader; when the leader overwrites it, the waiter keeps it.\<close>

theorem waiters_are_given_copies_witness:
  "map rrA (Answers (valueMsg ((snd exampleShare)[0 := Bytes [6, 6, 6, 6]]) (fst exampleShare))) = [Some [192, 0, 2, 1]] \<and>
   ID (header (valueMsg (snd exampleShare) (fst exampleShare))) = 2"
proof -
  have here: "reachMsg exampleMem exampleMsg = {0, 1}"
    by (simp add: reachMsg_def reach_def exampleMem_def exampleMsg_def exampleStruct_def structsOf_def objAt_def structRefs_def)
  then have "reachMsg exampleMem exampleMsg \<subseteq> {..<length exampleMem}" by (simp add: exampleMem_def)
  note p = waiters_are_given_copies [OF prod.collapse [symmetric] this, of "reply (zeroHeader\<lparr>ID := 2\<rparr>) []", folded exampleShare_def]
  have "map rrA (Answers (valueMsg exampleMem exampleMsg)) = [Some [192, 0, 2, 1]]" by code_simp
  then show ?thesis using p here by (simp add: shareAnswer_def reply_def)
qed

end
