(* ===== verification/Addr_Text.thy ===== *)
theory Addr_Text
  imports Net_Prefix Anchor_Facts
begin

text \<open>
  The text of an address, as \<open>net.IP.String\<close> writes it: dotted for IPv4 and for IPv6 addresses
  that hold one, otherwise groups of hexadecimal digits with the longest run of zero groups left
  out.  What \<open>netip.ParseAddr\<close> reads from the text is the address.
\<close>

section \<open>Writing\<close>

definition nibble :: "nat \<Rightarrow> byte" where
  "nibble d = (if d < 10 then 48 + word_of_nat d else 87 + word_of_nat d)"

fun hexText :: "nat \<Rightarrow> gostr" where
  "hexText n = (if n < 16 then [nibble n] else hexText (n div 16) @ [nibble (n mod 16)])"

declare hexText.simps [simp del]

fun joinColon :: "u16 list \<Rightarrow> gostr" where
  "joinColon [] = []"
| "joinColon [g] = hexText (unat g)"
| "joinColon (g # gs) = hexText (unat g) @ colon # joinColon gs"

fun groupsOf :: "byte list \<Rightarrow> u16 list" where
  "groupsOf (a # b # bs) = be16 a b # groupsOf bs"
| "groupsOf _ = []"

text \<open>The longest run of at least two zero groups, the first of them if there are several.\<close>

definition zeroRun :: "u16 list \<Rightarrow> nat \<Rightarrow> nat" where
  "zeroRun gs i = length (takeWhile (\<lambda>g. g = 0) (drop i gs))"

definition longestRun :: "u16 list \<Rightarrow> (nat \<times> nat) option" where
  "longestRun gs =
     foldl (\<lambda>best i. let l = zeroRun gs i in
        if l \<ge> 2 \<and> (case best of None \<Rightarrow> True | Some (from_, till) \<Rightarrow> l > till - from_) then Some (i, i + l) else best)
       None [0..<length gs]"

definition textOf6 :: "u16 list \<Rightarrow> gostr" where
  "textOf6 gs =
     (case longestRun gs of
        None \<Rightarrow> joinColon gs
      | Some (i, j) \<Rightarrow> joinColon (take i gs) @ [colon, colon] @ joinColon (drop j gs))"

definition textOf4 :: "byte list \<Rightarrow> gostr" where
  "textOf4 v4 = joinDot (map (\<lambda>b. decimal (unat b)) v4)"

definition ipText :: "byte list \<Rightarrow> gostr" where
  "ipText ip =
     (if ip = [] then lit ''<nil>''
      else if length ip \<noteq> 4 \<and> length ip \<noteq> 16 then
        63 # concat (map (\<lambda>b. [nibble (unat b div 16), nibble (unat b mod 16)]) ip)
      else case To4 (Some ip) of Some v4 \<Rightarrow> textOf4 v4 | None \<Rightarrow> textOf6 (groupsOf ip))"

section \<open>Groups\<close>

lemma nibble_value: "d < 16 \<Longrightarrow> hexValue (nibble d) = Some (word_of_nat d)"
proof -
  have "\<forall>d\<in>set [0..<16]. hexValue (nibble d) = Some (word_of_nat d)" by code_simp
  then show "d < 16 \<Longrightarrow> ?thesis" by simp
qed

lemma hexText_digits: "b \<in> set (hexText n) \<Longrightarrow> hexValue b \<noteq> None"
proof (induction n rule: hexText.induct)
  case (1 n)
  then show ?case using nibble_value [of n] nibble_value [of "n mod 16"]
    by (cases "n < 16") (auto simp: hexText.simps [of n])
qed

lemma hexText_nonempty [simp]: "hexText n \<noteq> []"
  by (simp add: hexText.simps [of n])

lemma hexText_length: "n < 16 ^ Suc k \<Longrightarrow> length (hexText n) \<le> Suc k"
proof (induction k arbitrary: n)
  case (Suc k)
  then have "n div 16 < 16 ^ Suc k" by (simp add: less_mult_imp_div_less)
  then show ?case using Suc.IH by (simp add: hexText.simps [of n])
qed (simp add: hexText.simps)

lemma hexNumber_snoc: "hexValue b = Some d \<Longrightarrow> hexNumber (s @ [b]) = push_bit 4 (hexNumber s) + ucast d"
  by (simp add: hexNumber_def)

lemma hexNumber_hexText: "hexNumber (hexText n) = word_of_nat n"
proof (induction n rule: hexText.induct)
  case (1 n)
  have small: "ucast (word_of_nat d :: byte) = (word_of_nat d :: u16)" if "d < 16" for d
  proof -
    have "\<forall>d\<in>set [0..<16]. ucast (word_of_nat d :: byte) = (word_of_nat d :: u16)" by code_simp
    then show ?thesis using that by simp
  qed
  show ?case
  proof (cases "n < 16")
    case True
    then show ?thesis using nibble_value [of n] small by (simp add: hexText.simps [of n] hexNumber_def)
  next
    case False
    have "push_bit 4 (word_of_nat (n div 16)) = (word_of_nat (n div 16 * 16) :: u16)" by (simp add: push_bit_eq_mult)
    then have "push_bit 4 (word_of_nat (n div 16)) + word_of_nat (n mod 16) = (word_of_nat (n div 16 * 16 + n mod 16) :: u16)"
      by (simp only: of_nat_add)
    then have "push_bit 4 (word_of_nat (n div 16)) + word_of_nat (n mod 16) = (word_of_nat n :: u16)"
      by (simp only: div_mult_mod_eq)
    then show ?thesis
      using False "1.IH" nibble_value [of "n mod 16"] small [of "n mod 16"]
      by (simp add: hexText.simps [of n] hexNumber_snoc)
  qed
qed

lemma joinColon_Cons: "joinColon (g # gs) = (if gs = [] then hexText (unat g) else hexText (unat g) @ colon # joinColon gs)"
  by (cases gs) simp_all

lemma joinColon_nil [simp]: "joinColon gs = [] \<longleftrightarrow> gs = []"
  by (cases gs) (simp_all add: joinColon_Cons)

lemma colon_digit: "hexValue colon = None" "hexValue dot = None" "hexValue 37 = None"
  by code_simp+

lemma joinColon_head: "gs \<noteq> [] \<Longrightarrow> hexValue (hd (joinColon gs)) \<noteq> None"
  using hexText_digits [of "hd (hexText (unat (hd gs)))" "unat (hd gs)"] by (cases gs) (simp_all add: joinColon_Cons)

lemma joinColon_chars: "b \<in> set (joinColon gs) \<Longrightarrow> hexValue b \<noteq> None \<or> b = colon"
  by (induction gs) (auto simp: joinColon_Cons hexText_digits split: if_splits dest: hexText_digits)

text \<open>A group at the head of the text, with its end or a colon behind it.\<close>

lemma hexPrefix_group:
  "rest = [] \<or> hd rest = colon \<Longrightarrow> hexPrefix (hexText n @ rest) = hexText n"
  unfolding hexPrefix_def using hexText_digits [of _ n] colon_digit(1)
  by (cases rest) (auto simp: takeWhile_append2 takeWhile_eq_all_conv)

lemma group_text: "hexText (unat (g :: u16)) \<noteq> [] \<and> length (hexText (unat g)) \<le> 4 \<and> hexNumber (hexText (unat g)) = g"
  using hexText_length [of "unat g" 3] unsigned_less [of g, where ?'a = nat] hexNumber_hexText [of "unat g"] by simp

text \<open>One turn of the parser on a group.\<close>

lemma ipv6Loop_group:
  assumes "length ip < 16" "rest = [] \<or> hd rest = colon"
  shows "ipv6Loop (hexText (unat g) @ rest) ip ellipsis =
    (let ip = ip @ put16 g in
     if rest = [] then Some (ip, ellipsis, [])
     else if length rest = 1 then None
     else let s = tl rest in
       if hd s = colon then
         (if ellipsis \<noteq> None then None
          else if tl s = [] then Some (ip, Some (length ip), [])
          else ipv6Loop (tl s) ip (Some (length ip)))
       else ipv6Loop s ip ellipsis)"
proof -
  have "hd rest \<noteq> dot" if "rest \<noteq> []" using assms(2) that by (auto simp: colon_def dot_def)
  then show ?thesis using assms group_text [of g] hexPrefix_group [OF assms(2), of "unat g"]
    by (subst ipv6Loop.simps) (auto simp: Let_def)
qed

definition bytesOf :: "u16 list \<Rightarrow> byte list" where
  "bytesOf gs = concat (map put16 gs)"

lemma bytesOf_simps [simp]:
  "bytesOf [] = []" "bytesOf (g # gs) = put16 g @ bytesOf gs" "length (bytesOf gs) = 2 * length gs" "length (put16 g) = 2"
  by (induction gs) (auto simp: bytesOf_def put16_def)

lemma ipv6Loop_groups:
  "gs \<noteq> [] \<Longrightarrow> length ip + 2 * length gs \<le> 16 \<Longrightarrow> ipv6Loop (joinColon gs) ip ellipsis = Some (ip @ bytesOf gs, ellipsis, [])"
proof (induction gs arbitrary: ip)
  case (Cons g gs)
  show ?case
  proof (cases "gs = []")
    case True
    then show ?thesis using ipv6Loop_group [of ip "[]" g ellipsis] Cons.prems by (simp add: joinColon_Cons)
  next
    case False
    have "hd (joinColon gs) \<noteq> colon" using joinColon_head [OF False] colon_digit by auto
    then show ?thesis
      using ipv6Loop_group [of ip "colon # joinColon gs" g ellipsis] Cons.IH [OF False, of "ip @ put16 g"] Cons.prems False
      by (simp add: joinColon_Cons)
  qed
qed simp

lemma ipv6Loop_ellipsis:
  assumes "gs \<noteq> []" "length ip + 2 * length gs + 2 * length post < 16"
  shows "ipv6Loop (joinColon gs @ colon # colon # joinColon post) ip None =
    Some (ip @ bytesOf gs @ bytesOf post, Some (length ip + 2 * length gs), [])"
  using assms
proof (induction gs arbitrary: ip)
  case (Cons g gs)
  show ?case
  proof (cases "gs = []")
    case True
    have "ipv6Loop (joinColon post) (ip @ put16 g) (Some (length ip + 2)) =
      Some (ip @ put16 g @ bytesOf post, Some (length ip + 2), [])" if "post \<noteq> []"
      using ipv6Loop_groups [OF that, of "ip @ put16 g"] Cons.prems True by simp
    then show ?thesis using ipv6Loop_group [of ip "colon # colon # joinColon post" g None] Cons.prems True
      by (cases "post = []") (simp_all add: joinColon_Cons)
  next
    case False
    then have "hd (joinColon gs @ colon # colon # joinColon post) \<noteq> colon"
      using joinColon_head [OF False] colon_digit by (auto simp: hd_append)
    then show ?thesis
      using ipv6Loop_group [of ip "colon # joinColon gs @ colon # colon # joinColon post" g None]
        Cons.IH [OF False, of "ip @ put16 g"] Cons.prems False by (simp add: joinColon_Cons)
  qed
qed simp

section \<open>The longest run\<close>

lemma zeroRun_zeros: "take (zeroRun gs i) (drop i gs) = replicate (zeroRun gs i) 0" "i \<le> length gs \<Longrightarrow> i + zeroRun gs i \<le> length gs"
proof -
  have "take (zeroRun gs i) (drop i gs) = takeWhile (\<lambda>g. g = 0) (drop i gs)"
    unfolding zeroRun_def by (metis takeWhile_eq_take)
  then show "take (zeroRun gs i) (drop i gs) = replicate (zeroRun gs i) 0"
    unfolding zeroRun_def by (metis (mono_tags, lifting) replicate_length_same set_takeWhileD)
  show "i \<le> length gs \<Longrightarrow> i + zeroRun gs i \<le> length gs"
    using length_takeWhile_le [of "\<lambda>g. g = 0" "drop i gs"] unfolding zeroRun_def by simp
qed

definition goodRun :: "u16 list \<Rightarrow> (nat \<times> nat) option \<Rightarrow> bool" where
  "goodRun gs best = (case best of None \<Rightarrow> True
     | Some (i, j) \<Rightarrow> i < j \<and> j \<le> length gs \<and> take (j - i) (drop i gs) = replicate (j - i) 0)"

lemma longestRun_good: "goodRun gs (longestRun gs)"
proof -
  have "goodRun gs (foldl (\<lambda>best i. let l = zeroRun gs i in
        if l \<ge> 2 \<and> (case best of None \<Rightarrow> True | Some (from_, till) \<Rightarrow> l > till - from_) then Some (i, i + l) else best) best is)"
    if "goodRun gs best" "\<forall>i\<in>set is. i \<le> length gs" for best "is"
    using that
  proof (induction "is" arbitrary: best)
    case (Cons i rest)
    show ?case unfolding foldl_Cons
      by (rule Cons.IH) (use Cons.prems zeroRun_zeros [where gs = gs and i = i] in \<open>auto simp: Let_def goodRun_def\<close>)
  qed simp
  then show ?thesis unfolding longestRun_def by (simp add: goodRun_def)
qed

section \<open>Reading the text back\<close>

lemma parseIPv6_textOf6:
  assumes "length gs = 8"
  shows "parseIPv6 (textOf6 gs) = Some (bytesOf gs)"
proof (cases "longestRun gs")
  case None
  have ne: "gs \<noteq> []" using assms by auto
  have "\<not> (joinColon gs ! 0 = colon)" using joinColon_head [OF ne] colon_digit ne by (auto simp: hd_conv_nth)
  then show ?thesis using None ipv6Loop_groups [OF ne, of "[]" None] assms by (simp add: textOf6_def parseIPv6_def Let_def)
next
  case (Some ij)
  obtain i j where ij: "ij = (i, j)" by (cases ij)
  have run: "i < j" "j \<le> 8" "take (j - i) (drop i gs) = replicate (j - i) 0"
    using longestRun_good [of gs] Some ij assms by (simp_all add: goodRun_def)
  have "gs = take i gs @ take (j - i) (drop i gs) @ drop j gs"
    using run(1) by (metis append_take_drop_id drop_drop le_add_diff_inverse2 less_imp_le_nat)
  then have gs: "gs = take i gs @ replicate (j - i) 0 @ drop j gs" using run(3) by simp
  have zeros: "bytesOf (replicate n 0) = replicate (2 * n) 0" for n by (induction n) (simp_all add: put16_def)
  have "bytesOf gs = bytesOf (take i gs) @ replicate (2 * (j - i)) 0 @ bytesOf (drop j gs)"
    by (subst gs) (simp add: bytesOf_def flip: zeros)
  then have goal: "take (2 * i) (bytesOf (take i gs) @ bytesOf (drop j gs)) @ replicate (2 * (j - i)) 0 @
      drop (2 * i) (bytesOf (take i gs) @ bytesOf (drop j gs)) = bytesOf gs"
    using assms run by simp
  show ?thesis
  proof (cases "i = 0")
    case True
    moreover have "16 - 2 * (8 - j) = 2 * j" using run(2) by simp
    ultimately show ?thesis
      using Some ij run assms goal ipv6Loop_groups [of "drop j gs" "[]" "Some 0"]
      by (cases "j = 8") (auto simp: textOf6_def parseIPv6_def Let_def)
  next
    case False
    then have pre: "take i gs \<noteq> []" using assms by auto
    have "hd (joinColon (take i gs) @ colon # colon # joinColon (drop j gs)) \<noteq> colon"
      using joinColon_head [OF pre] colon_digit pre by (auto simp: hd_append)
    then have "\<not> ((joinColon (take i gs) @ colon # colon # joinColon (drop j gs)) ! 0 = colon)"
      by (simp add: hd_conv_nth)
    moreover have "2 * i + 2 * (8 - j) < 16" "16 - (2 * i + 2 * (8 - j)) = 2 * (j - i)" using run(1,2) by auto
    ultimately show ?thesis
      using Some ij assms goal ipv6Loop_ellipsis [OF pre, of "[]" "drop j gs"]
      by (simp add: textOf6_def parseIPv6_def Let_def)
  qed
qed

lemma bytesOf_groupsOf: "length bs = 2 * n \<Longrightarrow> bytesOf (groupsOf bs) = bs \<and> length (groupsOf bs) = n"
proof (induction n arbitrary: bs)
  case (Suc n)
  then obtain a b rest where "bs = a # b # rest" "length rest = 2 * n" by (auto simp: length_Suc_conv)
  then show ?case using Suc.IH [of rest] by simp
qed simp

lemma find_colon:
  assumes "\<And>b. b \<in> set s \<Longrightarrow> P b \<Longrightarrow> b = c" "c \<in> set s" "P c"
  shows "find P s = Some c"
proof -
  have "find P s \<noteq> None" using assms(2,3) by (auto simp: find_None_iff)
  then obtain x where x: "find P s = Some x" by blast
  then have "x \<in> set s" "P x" by (auto simp: find_Some_iff)
  then show ?thesis using assms(1) x by simp
qed

lemma textOf6_chars: "b \<in> set (textOf6 gs) \<Longrightarrow> hexValue b \<noteq> None \<or> b = colon"
  using joinColon_chars by (auto simp: textOf6_def split: option.splits)

lemma textOf6_colon: "length gs = 8 \<Longrightarrow> colon \<in> set (textOf6 gs)"
proof -
  assume "length gs = 8"
  then obtain g h rest where gs: "gs = g # h # rest" by (cases gs; cases "tl gs") auto
  show ?thesis
  proof (cases "longestRun gs")
    case None
    then show ?thesis by (simp add: textOf6_def gs)
  qed (auto simp: textOf6_def split: prod.split)
qed

lemma ParseAddr_textOf6:
  assumes "length bs = 16"
  shows "ParseAddr (textOf6 (groupsOf bs)) = AddrFromSlice bs"
proof -
  have g: "length (groupsOf bs) = 8" "bytesOf (groupsOf bs) = bs" using bytesOf_groupsOf [of bs 8] assms by auto
  let ?t = "textOf6 (groupsOf bs)"
  have c: "b = colon" if "b \<in> set ?t" "b = dot \<or> b = colon \<or> b = 37" for b
    using textOf6_chars [OF that(1)] that(2) colon_digit by auto
  have "find (\<lambda>b. b = dot \<or> b = colon \<or> b = 37) ?t = Some colon"
    by (rule find_colon) (use c textOf6_colon [OF g(1)] in auto)
  moreover have "37 \<notin> set ?t" using c [of 37] by (auto simp: colon_def)
  moreover have "colon \<noteq> dot" by (simp add: colon_def dot_def)
  ultimately show ?thesis using parseIPv6_textOf6 [OF g(1)] g(2) by (simp add: ParseAddr_def)
qed

lemma decimal_lead: "0 < n \<Longrightarrow> hd (decimal n) \<noteq> 48"
proof (induction n rule: decimal.induct)
  case (1 n)
  show ?case
  proof (cases "n < 10")
    case True
    have "unat (48 + word_of_nat n :: byte) \<noteq> unat (48 :: byte)" using unat_digit [OF True] "1.prems" by simp
    then have "(48 + word_of_nat n :: byte) \<noteq> 48" by metis
    then show ?thesis using True by (simp add: decimal.simps [of n])
  next
    case False
    then show ?thesis using "1.IH" by (simp add: decimal.simps [of n] hd_append)
  qed
qed

lemma parseOctet_decimal: "parseOctet (decimal (unat (b :: byte))) = Some b"
proof -
  have "\<not> (length (decimal (unat b)) > 1 \<and> hd (decimal (unat b)) = 48)"
    using decimal_lead [of "unat b"] by (cases "unat b = 0") (simp_all add: decimal.simps)
  moreover have "ParseUint (decimal (unat b)) 8 = Some (unat b)"
    using ParseUint_decimal [of "unat b" 8] unsigned_less [of b, where ?'a = nat] by simp
  ultimately show ?thesis by (simp add: parseOctet_def)
qed

lemma ParseAddr_textOf4:
  assumes "length v4 = 4"
  shows "ParseAddr (textOf4 v4) = AddrFromSlice v4"
proof -
  let ?t = "textOf4 v4"
  have d: "dot \<notin> set (decimal n)" for n using decimal_digits [of dot n] by (auto simp: dot_def)
  obtain a b c e where v4: "v4 = [a, b, c, e]" using assms by (auto simp: length_Suc_conv numeral_eq_Suc)
  have "splitDot ?t = map (\<lambda>b. decimal (unat b)) v4"
    unfolding textOf4_def by (rule splitDot_joinDot) (use d v4 in auto)
  then have "parseIPv4Fields ?t = Some v4" by (simp add: parseIPv4Fields_def Let_def v4 parseOctet_decimal)
  moreover have "find (\<lambda>b. b = dot \<or> b = colon \<or> b = 37) ?t = Some dot"
  proof (rule find_colon)
    show "b = dot" if "b \<in> set ?t" "b = dot \<or> b = colon \<or> b = 37" for b
    proof -
      have "b \<notin> set (decimal n)" if "b = colon \<or> b = 37" for n using decimal_digits [of b n] that by (auto simp: colon_def)
      then show ?thesis using that by (auto simp: textOf4_def v4)
    qed
    show "dot \<in> set ?t" by (simp add: textOf4_def v4)
  qed simp
  ultimately show ?thesis by (simp add: ParseAddr_def)
qed

section \<open>Words of bytes\<close>

lemma drop_beWord:
  assumes "length bs = 16"
  shows "drop_bit 32 (beWord bs :: 128 word) = beWord (take 12 bs)"
proof (rule bit_word_eqI)
  fix n assume n: "n < LENGTH(128)"
  have d: "(32 + n) div 8 = 4 + n div 8" "(32 + n) mod 8 = n mod 8" by presburger+
  show "bit (drop_bit 32 (beWord bs :: 128 word)) n \<longleftrightarrow> bit (beWord (take 12 bs) :: 128 word) n"
  proof (cases "n < 96")
    case True
    then have "bit (beWord bs :: 128 word) (32 + n) \<longleftrightarrow> bit (rev bs ! (4 + n div 8)) (n mod 8)"
      using beWord_bit [of "32 + n" bs, where ?'a = 128] assms unfolding d by auto
    moreover have "bit (beWord (take 12 bs) :: 128 word) n \<longleftrightarrow> bit (rev bs ! (4 + n div 8)) (n mod 8)"
      using beWord_bit [OF n, of "take 12 bs"] True assms by (auto simp: rev_take)
    ultimately show ?thesis by (simp add: bit_drop_bit_eq)
  next
    case False
    then have "\<not> bit (beWord bs :: 128 word) (32 + n)" using bit_imp_le_length by fastforce
    moreover have "\<not> n div 8 < 12" using False by auto
    ultimately show ?thesis using beWord_bit [OF n, of "take 12 bs"] assms by (auto simp: bit_drop_bit_eq)
  qed
qed

lemma low_beWord:
  assumes "length bs = 16"
  shows "ucast (beWord bs :: 128 word) = (beWord (drop 12 bs) :: 32 word)"
proof (rule bit_word_eqI)
  fix n assume n: "n < LENGTH(32)"
  then have "rev (drop 12 bs) ! (n div 8) = rev bs ! (n div 8)" "n div 8 < 4" using assms by (auto simp: rev_drop)
  then show "bit (ucast (beWord bs :: 128 word) :: 32 word) n \<longleftrightarrow> bit (beWord (drop 12 bs) :: 32 word) n"
    using beWord_bit [of n bs, where ?'a = 128] beWord_bit [OF n, of "drop 12 bs"] assms n by (auto simp: bit_ucast_iff)
qed

lemma mapped_beWord:
  assumes "length bs = 16"
  shows "drop_bit 32 (beWord bs :: 128 word) = 0xFFFF \<longleftrightarrow> take 12 bs = v4InV6Prefix"
proof -
  have p: "(beWord v4InV6Prefix :: 128 word) = 0xFFFF" "length v4InV6Prefix = 12" by code_simp+
  show ?thesis using beWord_inj [of "take 12 bs" v4InV6Prefix, where ?'a = 128] assms
    by (auto simp: drop_beWord p)
qed

text \<open>An address reads back from its text, up to the form of an IPv4 address held in sixteen bytes.\<close>

theorem ParseAddr_ipText:
  assumes "length ip = 4 \<or> length ip = 16"
  shows "ParseAddr (ipText ip) = map_option Unmap (AddrFromSlice ip)"
proof (cases "length ip = 4")
  case True
  then have "ipText ip = textOf4 ip" by (auto simp: ipText_def To4_def)
  then show ?thesis using ParseAddr_textOf4 [OF True] True by (simp add: AddrFromSlice_def Unmap_def)
next
  case False
  then have l: "length ip = 16" "ip \<noteq> []" using assms by auto
  show ?thesis
  proof (cases "take 12 ip = v4InV6Prefix")
    case True
    then have "ipText ip = textOf4 (drop 12 ip)" using l by (simp add: ipText_def To4_def)
    then show ?thesis using ParseAddr_textOf4 [of "drop 12 ip"] True l
      by (simp add: AddrFromSlice_def Unmap_def mapped_beWord low_beWord)
  next
    case False
    then have "ipText ip = textOf6 (groupsOf ip)" using l by (simp add: ipText_def To4_def)
    then show ?thesis using ParseAddr_textOf6 [OF l(1)] False l by (simp add: AddrFromSlice_def Unmap_def mapped_beWord)
  qed
qed

end
