(* ===== verification/Command_Line.thy ===== *)
theory Command_Line
  imports Addr_Text Resolve_Facts
begin

text \<open>
  The command \<open>cmd/resolve\<close>: its arguments, one resolution with a resolver made for it, and what
  it prints and exits with.  The deadline of ten seconds is part of the world of the resolution
  (\<open>ctxErr\<close>).
\<close>

section \<open>Names of types\<close>

text \<open>\<open>RRType.String\<close>.\<close>

definition RRTypeString :: "u16 \<Rightarrow> gostr" where
  "RRTypeString t =
     (if t = TypeA then lit ''A''
      else if t = TypeNS then lit ''NS''
      else if t = TypeCNAME then lit ''CNAME''
      else if t = TypeSOA then lit ''SOA''
      else if t = TypePTR then lit ''PTR''
      else if t = TypeMX then lit ''MX''
      else if t = TypeAAAA then lit ''AAAA''
      else if t = TypeOPT then lit ''OPT''
      else lit ''TYPE'' @ decimal (unat t))"

section \<open>The command\<close>

text \<open>What goes to the standard error, by its arguments; the text of an error value is not modelled.\<close>

datatype complaint = Usage gostr | UnsupportedType gostr | ResolveFailed gostr gostr resolveErr

record outcome =
  exitCode :: nat
  stdout :: "gostr list"
  stderr :: "complaint option"

text \<open>The arguments after the name of the program: a name and, if there is one, a type.\<close>

definition parseArgs :: "unicode \<Rightarrow> gostr \<Rightarrow> gostr list \<Rightarrow> complaint + gostr \<times> u16" where
  "parseArgs u prog args =
     (case args of
        [name] \<Rightarrow> Inr (name, TypeA)
      | [name, t] \<Rightarrow>
          if ToUpper u t = lit ''A'' then Inr (name, TypeA)
          else if ToUpper u t = lit ''AAAA'' then Inr (name, TypeAAAA)
          else Inl (UnsupportedType t)
      | _ \<Rightarrow> Inl (Usage prog))"

text \<open>\<open>resolver.New\<close>; its tables are those of \<open>newState\<close>.\<close>

definition New :: resolver where
  "New = \<lparr>rRoots = None, rAllowPrivate = False, rValidate = True, rAnchors = None, rMinimize = True, rUse0x20 = False\<rparr>"

definition commandMain :: "'n env \<Rightarrow> gostr \<Rightarrow> gostr list \<Rightarrow> 'n \<Rightarrow> outcome \<times> 'n rstate" where
  "commandMain E prog args n =
     (case parseArgs (unicodeOf E) prog args of
        Inl c \<Rightarrow> (\<lparr>exitCode = 2, stdout = [], stderr = Some c\<rparr>, newState n)
      | Inr (name, qtype) \<Rightarrow>
          (case Resolve E New False name qtype (newState n) of
             (Inl e, s) \<Rightarrow>
               (\<lparr>exitCode = 1, stdout = [], stderr = Some (ResolveFailed name (RRTypeString qtype) e)\<rparr>, s)
           | (Inr ips, s) \<Rightarrow> (\<lparr>exitCode = 0, stdout = map ipText ips, stderr = None\<rparr>, s)))"

section \<open>Facts\<close>

lemma New_options:
  "New = NewWithOptions \<lparr>DisableDNSSEC = False, DisableQNAMEMinimization = False, Use0x20 = False, TrustAnchors = None\<rparr>"
  by (simp add: New_def NewWithOptions_def)

lemma parseArgs_type: "parseArgs u prog args = Inr (name, qtype) \<Longrightarrow> qtype = TypeA \<or> qtype = TypeAAAA"
  by (auto simp: parseArgs_def split: list.splits if_splits)

text \<open>The records of an answer that hold an address are of the type asked for.\<close>

lemma answer_types:
  assumes "resolverRun E r s" "ResolveRR E r disabled qname qtype s = (Inr res, s')" "rr \<in> set (resAnswers res)"
  shows "rrClass rr = ClassIN \<and> (rrType rr = qtype \<or> rrType rr = TypeCNAME)"
proof -
  obtain chain rest target where c: "resAnswers res = chain @ rest" "chainTo (unicodeOf E) qtype qname chain target"
    "list_all (isAnswer (unicodeOf E) target qtype) rest"
    using resolution_sound [OF assms(1,2)] unfolding soundResolution_def by auto
  have "rrClass rr = ClassIN \<and> rrType rr = TypeCNAME" if "chainTo u qtype name chain target" "rr \<in> set chain" for u name
    using that by (induction chain arbitrary: name) (auto simp: isAlias_def)
  then show ?thesis using c assms(3) by (auto simp: list_all_iff isAnswer_def)
qed

lemma in_map_filter: "y \<in> set (List.map_filter f xs) \<Longrightarrow> \<exists>x\<in>set xs. f x = Some y"
  by (auto simp: List.map_filter_def)

lemma Resolve_addresses:
  assumes "resolverRun E r s" "Resolve E r disabled qname qtype s = (Inr ips, s')" "qtype = TypeA \<or> qtype = TypeAAAA"
  obtains res where "ResolveRR E r disabled qname qtype s = (Inr res, s')"
    "\<And>ip. ip \<in> set ips \<Longrightarrow> \<exists>rr\<in>set (resAnswers res). rrClass rr = ClassIN \<and> rrType rr = qtype \<and>
       (if qtype = TypeA then rrA rr else rrAAAA rr) = Some ip"
proof -
  let ?f = "\<lambda>rr. if rrType rr = TypeA \<and> rrA rr \<noteq> None then rrA rr
    else if rrType rr = TypeAAAA \<and> rrAAAA rr \<noteq> None then rrAAAA rr else None"
  obtain res where res: "ResolveRR E r disabled qname qtype s = (Inr res, s')" "ips = List.map_filter ?f (resAnswers res)"
    using assms(2) by (auto simp: Resolve_def andThen_Inr)
  have "\<exists>rr\<in>set (resAnswers res). rrClass rr = ClassIN \<and> rrType rr = qtype \<and>
    (if qtype = TypeA then rrA rr else rrAAAA rr) = Some ip" if mem: "ip \<in> set ips" for ip
  proof -
    have "\<exists>rr\<in>set (resAnswers res). ?f rr = Some ip" using mem unfolding res(2) by (rule in_map_filter)
    then obtain rr where rr: "rr \<in> set (resAnswers res)" "?f rr = Some ip" by blast
    then show ?thesis using answer_types [OF assms(1) res(1) rr(1)] assms(3)
      by (intro bexI [of _ rr]) (auto split: if_splits)
  qed
  with that res(1) show ?thesis by blast
qed



end
