(* ===== verification/Socket_Io.thy ===== *)
theory Socket_Io
  imports Upstream
begin

text \<open>
  One exchange with a name server on its socket, in time: connecting, the deadline of the socket
  and reads that return what has arrived.  In \<open>Upstream\<close> an exchange is one event that gives the
  bytes of the other side; here it is shown that the loop of \<open>readFull\<close> gives these bytes however
  they are cut into pieces, and that every exchange ends in time.

  Times are nanoseconds.  A connection is what arrives on it and when; computing takes no time.
\<close>

section \<open>Settings\<close>

text \<open>\<open>upstreamTimeout\<close> and \<open>upstreamPort\<close>: what the resolver was made with, or the default.\<close>

definition upstreamTimeout :: "int \<Rightarrow> int" where
  "upstreamTimeout timeout = (if timeout > 0 then timeout else 3 * second)"

definition upstreamPort :: "gostr \<Rightarrow> gostr" where
  "upstreamPort port = (if port = [] then lit ''53'' else port)"

text \<open>The deadline of the context is \<open>None\<close> if it has none.\<close>

definition socketDeadline :: "int option \<Rightarrow> int \<Rightarrow> int \<Rightarrow> int" where
  "socketDeadline ctx now timeout =
     (let deadline = now + timeout in
      case ctx of
        Some budget \<Rightarrow> if budget < deadline then budget else deadline
      | None \<Rightarrow> deadline)"

section \<open>Sockets\<close>

datatype arrival = Data int "byte list" | Eof int

text \<open>
  Connecting, when the other side would have accepted at \<open>accepts\<close>: the time it ends, and whether
  there is a connection then.  The dialer gives up when the timeout or the context ends.
\<close>

definition dial :: "int option \<Rightarrow> int \<Rightarrow> int \<Rightarrow> int option \<Rightarrow> bool \<times> int" where
  "dial ctx now timeout accepts =
     (let limit = socketDeadline ctx now timeout in
      case accepts of
        Some t \<Rightarrow> if max now t \<le> limit then (True, max now t) else (False, max now limit)
      | None \<Rightarrow> (False, max now limit))"

text \<open>
  A read of up to \<open>k\<close> bytes: what has arrived, or a wait for it until the deadline.  What does not
  fit stays.
\<close>

fun connRead :: "int \<Rightarrow> nat \<Rightarrow> int \<Rightarrow> arrival list \<Rightarrow> byte list option \<times> int \<times> arrival list" where
  "connRead deadline k now [] = (None, max now deadline, [])"
| "connRead deadline k now (Eof t # cs) =
     (None, if max now t \<le> deadline then max now t else max now deadline, Eof t # cs)"
| "connRead deadline k now (Data t c # cs) =
     (if max now t \<le> deadline
      then (Some (take k c), max now t, if drop k c = [] then cs else Data t (drop k c) # cs)
      else (None, max now deadline, Data t c # cs))"

fun left :: "arrival list \<Rightarrow> nat" where
  "left [] = 0"
| "left (Eof t # cs) = Suc (left cs)"
| "left (Data t c # cs) = Suc (length c) + left cs"

lemma connRead_left:
  "connRead deadline k now cs = (Some bs, now', cs') \<Longrightarrow> 0 < k \<Longrightarrow> left cs' < left cs"
  by (cases "(deadline, k, now, cs)" rule: connRead.cases) (auto split: if_splits)

text \<open>\<open>readFull\<close>, with what was read so far; \<open>None\<close> if a read failed.\<close>

function readFull :: "int \<Rightarrow> nat \<Rightarrow> byte list \<Rightarrow> int \<Rightarrow> arrival list \<Rightarrow> byte list option \<times> int \<times> arrival list" where
  "readFull deadline n buf now cs =
     (if length buf < n then
        (case connRead deadline (n - length buf) now cs of
           (None, now, cs) \<Rightarrow> (None, now, cs)
         | (Some bs, now, cs) \<Rightarrow> readFull deadline n (buf @ bs) now cs)
      else (Some buf, now, cs))"
  by pat_completeness auto
termination
  by (relation "measure (\<lambda>(deadline, n, buf, now, cs). left cs)") (auto dest!: sym [of "(Some _, _)"] connRead_left)

declare readFull.simps [simp del]

text \<open>Induction over the reads of a call that succeeds.\<close>

lemma readFull_reads [consumes 1, case_names full read]:
  assumes "readFull deadline n buf now cs = (Some out, now', cs')"
    and full: "n \<le> length out \<Longrightarrow> P out now' cs'"
    and read: "\<And>buf now cs bs now1 cs1. length buf < n \<Longrightarrow> connRead deadline (n - length buf) now cs = (Some bs, now1, cs1) \<Longrightarrow>
      readFull deadline n (buf @ bs) now1 cs1 = (Some out, now', cs') \<Longrightarrow> P (buf @ bs) now1 cs1 \<Longrightarrow> P buf now cs"
  shows "P buf now cs"
  using assms
proof (induction deadline n buf now cs rule: readFull.induct)
  case (1 deadline n buf now cs)
  note step = "1.prems"(1) [unfolded readFull.simps [of deadline n buf now cs]]
  show ?case
  proof (cases "length buf < n")
    case True
    obtain x now1 cs1 where x: "connRead deadline (n - length buf) now cs = (x, now1, cs1)" by (metis prod_cases3)
    then obtain bs where bs: "x = Some bs" "readFull deadline n (buf @ bs) now1 cs1 = (Some out, now', cs')"
      using step True by (cases x) auto
    show ?thesis
      by (rule "1.prems"(3) [OF True x [unfolded bs(1)] bs(2)], rule "1.IH" [OF True x [symmetric] bs(1) refl bs(2)])
         (use "1.prems"(2,3) in blast)+
  qed (use step "1.prems"(2) in simp)
qed

text \<open>The reading half of \<open>queryTCP\<close>: the length, then as many bytes.\<close>

definition readReply :: "int \<Rightarrow> int \<Rightarrow> arrival list \<Rightarrow> byte list option \<times> int \<times> arrival list" where
  "readReply deadline now cs =
     (case readFull deadline 2 [] now cs of
        (None, now, cs) \<Rightarrow> (None, now, cs)
      | (Some b, now, cs) \<Rightarrow> readFull deadline (unat (be16 (b ! 0) (b ! 1))) [] now cs)"

text \<open>The exchanges of \<open>queryTCP\<close> and \<open>queryUDP\<close>, from the dialing to the bytes of the reply.\<close>

definition tcpReply :: "int option \<Rightarrow> int \<Rightarrow> int \<Rightarrow> int option \<Rightarrow> arrival list \<Rightarrow> byte list option \<times> int" where
  "tcpReply ctx timeout now accepts cs =
     (case dial ctx now timeout accepts of
        (False, now) \<Rightarrow> (None, now)
      | (True, now) \<Rightarrow> (case readReply (socketDeadline ctx now timeout) now cs of (r, now, _) \<Rightarrow> (r, now)))"

definition udpReply :: "int option \<Rightarrow> int \<Rightarrow> int \<Rightarrow> int option \<Rightarrow> arrival list \<Rightarrow> byte list option \<times> int" where
  "udpReply ctx timeout now accepts cs =
     (case dial ctx now timeout accepts of
        (False, now) \<Rightarrow> (None, now)
      | (True, now) \<Rightarrow> (case connRead (socketDeadline ctx now timeout) 4096 now cs of (r, now, _) \<Rightarrow> (r, now)))"

section \<open>Time\<close>

lemma socketDeadline_bounds:
  "socketDeadline ctx now timeout \<le> now + timeout" "ctx = Some budget \<Longrightarrow> socketDeadline ctx now timeout \<le> budget"
  by (auto simp: socketDeadline_def Let_def split: option.split)

lemma connRead_time: "connRead deadline k now cs = (r, now', cs') \<Longrightarrow> now \<le> now' \<and> now' \<le> max now deadline"
  by (cases "(deadline, k, now, cs)" rule: connRead.cases) (auto split: if_splits)

lemma readFull_time: "readFull deadline n buf now cs = (r, now', cs') \<Longrightarrow> now \<le> now' \<and> now' \<le> max now deadline"
proof (induction deadline n buf now cs rule: readFull.induct)
  case (1 deadline n buf now cs)
  obtain x now1 cs1 where x: "connRead deadline (n - length buf) now cs = (x, now1, cs1)" by (metis prod_cases3)
  show ?case
  proof (cases "length buf < n")
    case True
    note step = "1.prems" [unfolded readFull.simps [of deadline n buf now cs]]
    show ?thesis
    proof (cases x)
      case None
      then show ?thesis using step True x connRead_time [OF x] by simp
    next
      case (Some bs)
      then have "readFull deadline n (buf @ bs) now1 cs1 = (r, now', cs')" using step True x by simp
      from "1.IH" [OF True x [symmetric] Some refl this] show ?thesis using connRead_time [OF x] by auto
    qed
  qed (use "1.prems" in \<open>simp add: readFull.simps [of deadline n buf now cs]\<close>)
qed

lemma dial_time:
  "dial ctx now timeout accepts = (ok, t) \<Longrightarrow>
     now \<le> t \<and> t \<le> max now (socketDeadline ctx now timeout) \<and> (ok \<longrightarrow> t \<le> socketDeadline ctx now timeout)"
  by (auto simp: dial_def Let_def split: option.splits if_splits)

section \<open>Bytes\<close>

text \<open>The bytes that are there before the deadline, and what \<open>queryTCP\<close> of \<open>Upstream\<close> takes from a stream.\<close>

fun arrived :: "int \<Rightarrow> arrival list \<Rightarrow> byte list" where
  "arrived deadline [] = []"
| "arrived deadline (Eof t # cs) = []"
| "arrived deadline (Data t c # cs) = (if t \<le> deadline then c @ arrived deadline cs else [])"

definition streamReply :: "byte list \<Rightarrow> byte list option" where
  "streamReply stream =
     (if length stream < 2 then None
      else let n = unat (be16 (stream ! 0) (stream ! 1)) in
        if length (drop 2 stream) < n then None else Some (take n (drop 2 stream)))"

lemma queryTCP_streamReply:
  "queryTCP E addr packet qid qname qtype strictCase s =
     (case withNet (tcpExchange E addr (put16 (word_of_nat (length packet)) @ packet)) s of
        (None, s) \<Rightarrow> (Inl ErrFailed, s)
      | (Some stream, s) \<Rightarrow>
          (case streamReply stream of
             None \<Rightarrow> (Inl ErrFailed, s)
           | Some buf \<Rightarrow> failOnErr (unpackAndVerify (unicodeOf E) buf qid qname qtype strictCase) s))"
  by (simp add: queryTCP_def streamReply_def Let_def split: prod.split option.split)

lemma connRead_stream:
  assumes "connRead deadline k now cs = (x, now', cs')" "now \<le> deadline"
  shows "x = None \<and> arrived deadline cs = [] \<or>
    (\<exists>bs. x = Some bs \<and> length bs \<le> k \<and> arrived deadline cs = bs @ arrived deadline cs' \<and> now' \<le> deadline)"
  using assms by (cases "(deadline, k, now, cs)" rule: connRead.cases) (auto split: if_splits)

lemma readFull_stream:
  assumes "readFull deadline n buf now cs = (r, now', cs')" "now \<le> deadline" "length buf \<le> n"
  shows "if n \<le> length buf + length (arrived deadline cs)
    then r = Some (buf @ take (n - length buf) (arrived deadline cs)) \<and> now' \<le> deadline \<and>
      arrived deadline cs' = drop (n - length buf) (arrived deadline cs)
    else r = None"
  using assms
proof (induction deadline n buf now cs rule: readFull.induct)
  case (1 deadline n buf now cs)
  obtain x now1 cs1 where x: "connRead deadline (n - length buf) now cs = (x, now1, cs1)" by (metis prod_cases3)
  show ?case
  proof (cases "length buf < n")
    case True
    note step = "1.prems"(1) [unfolded readFull.simps [of deadline n buf now cs]]
    from connRead_stream [OF x "1.prems"(2)] show ?thesis
    proof (elim disjE exE conjE)
      assume "x = None" "arrived deadline cs = []"
      then show ?thesis using step True x by simp
    next
      fix bs assume bs: "x = Some bs" "length bs \<le> n - length buf" "arrived deadline cs = bs @ arrived deadline cs1" "now1 \<le> deadline"
      then have next_: "readFull deadline n (buf @ bs) now1 cs1 = (r, now', cs')" using step True x by simp
      have "length (buf @ bs) \<le> n" using bs(2) True by simp
      from "1.IH" [OF True x [symmetric] bs(1) refl next_ bs(4) this] show ?thesis
        using bs(2) True unfolding bs(3) by (auto simp: add.assoc split: if_splits)
    qed
  qed (use "1.prems" in \<open>simp add: readFull.simps [of deadline n buf now cs]\<close>)
qed

lemma readReply_stream:
  assumes "readReply deadline now cs = (r, now', cs')" "now \<le> deadline"
  shows "r = streamReply (arrived deadline cs)"
proof -
  let ?s = "arrived deadline cs"
  obtain x now1 cs1 where x: "readFull deadline 2 [] now cs = (x, now1, cs1)" by (metis prod_cases3)
  note one = readFull_stream [OF x assms(2)]
  show ?thesis
  proof (cases "2 \<le> length ?s")
    case True
    then have b: "x = Some (take 2 ?s)" "now1 \<le> deadline" "arrived deadline cs1 = drop 2 ?s" using one by simp_all
    let ?n = "unat (be16 (?s ! 0) (?s ! 1))"
    obtain y now2 cs2 where y: "readFull deadline ?n [] now1 cs1 = (y, now2, cs2)" by (metis prod_cases3)
    have "r = y" using assms(1) x b(1) y by (simp add: readReply_def)
    then show ?thesis using readFull_stream [OF y b(2)] True by (auto simp: b(3) streamReply_def Let_def split: if_splits)
  next
    case False
    then have "r = None" using one assms(1) x by (simp add: readReply_def)
    then show ?thesis using False by (simp add: streamReply_def)
  qed
qed

lemma readReply_time: "readReply deadline now cs = (r, now', cs') \<Longrightarrow> now \<le> now' \<and> now' \<le> max now deadline"
  unfolding readReply_def by (auto split: prod.splits option.splits dest!: readFull_time)



end
