(* ===== verification/Tcp_Timing.thy ===== *)
theory Tcp_Timing
  imports Socket_Io Dns_Server
begin

text \<open>
  A connection of a client in time: \<open>handleTCPConn\<close> with the deadline it sets before each query,
  on what arrives and when.  \<open>Dns_Server\<close> has the same loop on the bytes alone; here it is shown
  that a slow client is served as if it had sent the beginning of what it sent and no more, and
  that it cannot hold the connection.
\<close>

abbreviation (input) tcpIdleTimeout :: int where "tcpIdleTimeout \<equiv> 10 * second"

section \<open>The loop\<close>

lemma readFull_left:
  "readFull deadline n buf now cs = (Some out, now', cs') \<Longrightarrow>
     left cs' \<le> left cs \<and> (length buf < n \<longrightarrow> left cs' < left cs)"
  by (induction rule: readFull_reads) (auto dest!: connRead_left)

lemma readReply_left: "readReply deadline now cs = (Some data, now', cs') \<Longrightarrow> left cs' < left cs"
  unfolding readReply_def by (auto split: prod.splits option.splits dest!: readFull_left)

text \<open>
  The result is what was written, the world, when the last deadline was set and when the loop
  ended.  \<open>clock\<close> is the time in the world when the handler returns.
\<close>

function timedConn ::
  "unicode \<Rightarrow> 'w handler \<Rightarrow> ('w \<Rightarrow> int) \<Rightarrow> byte list \<Rightarrow> int \<Rightarrow> arrival list \<Rightarrow> 'w \<Rightarrow> byte list list \<times> 'w \<times> int \<times> int" where
  "timedConn u handler clock ip now cs w =
     (case readReply (now + tcpIdleTimeout) now cs of
        (None, t, _) \<Rightarrow> ([], w, now, t)
      | (Some data, t, cs) \<Rightarrow>
          (case Unpack data of
             Inl _ \<Rightarrow> ([], w, now, t)
           | Inr req \<Rightarrow>
               (case handler (TCPAddr ip) req w of
                  (msgs, w) \<Rightarrow>
                    (case timedConn u handler clock ip (max t (clock w)) cs w of
                       (replies, rest) \<Rightarrow> (sent (tcpWriteMsg u (OPT req \<noteq> None)) msgs @ replies, rest)))))"
  by pat_completeness auto
termination
  by (relation "measure (\<lambda>(u, handler, clock, ip, now, cs, w). left cs)")
     (auto dest!: sym [of "(Some _, _)"] readReply_left)

declare timedConn.simps [simp del]

section \<open>Bytes\<close>

text \<open>All that the client ever sends.\<close>

fun allBytes :: "arrival list \<Rightarrow> byte list" where
  "allBytes [] = []"
| "allBytes (Eof t # cs) = []"
| "allBytes (Data t c # cs) = c @ allBytes cs"

lemma connRead_consumes: "connRead deadline k now cs = (Some bs, now', cs') \<Longrightarrow> allBytes cs = bs @ allBytes cs'"
  by (cases "(deadline, k, now, cs)" rule: connRead.cases) (auto split: if_splits)

lemma connRead_length: "connRead deadline k now cs = (Some bs, now', cs') \<Longrightarrow> length bs \<le> k"
  by (cases "(deadline, k, now, cs)" rule: connRead.cases) (auto split: if_splits)

lemma readFull_consumes:
  "readFull deadline n buf now cs = (Some out, now', cs') \<Longrightarrow> length buf \<le> n \<longrightarrow>
     length out = n \<and> buf @ allBytes cs = out @ allBytes cs'"
proof (induction rule: readFull_reads)
  case (read buf now cs bs now1 cs1)
  then show ?case using connRead_consumes [OF read(2)] connRead_length [OF read(2)] by simp
qed simp

lemma readReply_consumes:
  assumes "readReply deadline now cs = (Some data, now', cs')"
  obtains b where "length b = 2" "length data = unat (be16 (b ! 0) (b ! 1))" "allBytes cs = b @ data @ allBytes cs'"
proof -
  obtain x t1 cs1 where x: "readFull deadline 2 [] now cs = (x, t1, cs1)" by (metis prod_cases3)
  then obtain b where b: "x = Some b" "readFull deadline (unat (be16 (b ! 0) (b ! 1))) [] t1 cs1 = (Some data, now', cs')"
    using assms by (cases x) (auto simp: readReply_def)
  show ?thesis using that [of b] readFull_consumes [OF x [unfolded b(1)]] readFull_consumes [OF b(2)] by simp
qed

lemma handleTCPConn_request:
  assumes "length b = 2" "length data = unat (be16 (b ! 0) (b ! 1))"
  shows "handleTCPConn u handler ip (b @ data @ tail) w =
    (case Unpack data of Inl _ \<Rightarrow> ([], w)
     | Inr req \<Rightarrow> (case handler (TCPAddr ip) req w of (msgs, w) \<Rightarrow> (case handleTCPConn u handler ip tail w of
         (replies, w) \<Rightarrow> (sent (tcpWriteMsg u (OPT req \<noteq> None)) msgs @ replies, w))))"
proof -
  have "(b @ data @ tail) ! 0 = b ! 0" "(b @ data @ tail) ! 1 = b ! 1" using assms(1) by (simp_all add: nth_append)
  then show ?thesis using assms by (subst handleTCPConn.simps) (simp add: Let_def split: sum.split prod.split)
qed

lemma timedConn_prefix:
  "timedConn u handler clock ip now cs w = (replies, w', armed, t) \<Longrightarrow>
     (\<exists>k. handleTCPConn u handler ip (take k (allBytes cs)) w = (replies, w')) \<and> now \<le> armed \<and> armed \<le> t \<and> t \<le> armed + tcpIdleTimeout"
proof (induction u handler clock ip now cs w arbitrary: replies w' armed t rule: timedConn.induct)
  case (1 u handler clock ip now cs w)
  obtain x t1 cs1 where x: "readReply (now + tcpIdleTimeout) now cs = (x, t1, cs1)" by (metis prod_cases3)
  note step = "1.prems" [unfolded timedConn.simps [of u handler clock ip now cs w] x prod.case]
  have time: "now \<le> t1" "t1 \<le> now + tcpIdleTimeout" using readReply_time [OF x] by (auto simp: second_def)
  have empty: "handleTCPConn u handler ip [] w = ([], w)" by (simp add: handleTCPConn.simps)
  show ?case
  proof (cases x)
    case None
    then show ?thesis using step time empty by (auto intro!: exI [of _ 0])
  next
    case (Some data)
    obtain b where b: "length b = 2" "length data = unat (be16 (b ! 0) (b ! 1))" "allBytes cs = b @ data @ allBytes cs1"
      using readReply_consumes [OF x [unfolded Some]] .
    note one = handleTCPConn_request [OF b(1,2), where u = u and handler = handler and ip = ip and w = w]
    show ?thesis
    proof (cases "Unpack data")
      case (Inl e)
      then have "handleTCPConn u handler ip (take (2 + length data) (allBytes cs)) w = ([], w)"
        using one [where tail = "[]"] b by simp
      then show ?thesis using step time Some Inl by auto
    next
      case (Inr req)
      obtain msgs w1 where h: "handler (TCPAddr ip) req w = (msgs, w1)" by (meson surj_pair)
      obtain replies1 rest where tc: "timedConn u handler clock ip (max t1 (clock w1)) cs1 w1 = (replies1, rest)" by (meson surj_pair)
      have out: "replies = sent (tcpWriteMsg u (OPT req \<noteq> None)) msgs @ replies1" "rest = (w', armed, t)"
        using step Some Inr h tc by auto
      from "1.IH" [OF x [symmetric] Some refl Inr h [symmetric] tc [unfolded out(2)]]
      obtain k where k: "handleTCPConn u handler ip (take k (allBytes cs1)) w1 = (replies1, w')"
        and tm: "max t1 (clock w1) \<le> armed" "armed \<le> t" "t \<le> armed + tcpIdleTimeout" by auto
      have "take (2 + length data + k) (allBytes cs) = b @ data @ take k (allBytes cs1)" using b(1) by (simp add: b(3))
      then have "handleTCPConn u handler ip (take (2 + length data + k) (allBytes cs)) w = (replies, w')"
        using one [where tail = "take k (allBytes cs1)"] by (simp add: Inr h k out(1))
      then show ?thesis using tm time by auto
    qed
  qed
qed

text \<open>A client that has sent all it will send.\<close>

fun sentBy :: "int \<Rightarrow> arrival list \<Rightarrow> bool" where
  "sentBy now [] = True"
| "sentBy now (Eof t # cs) = True"
| "sentBy now (Data t c # cs) = (t \<le> now \<and> sentBy now cs)"

lemma sentBy_later: "sentBy now cs \<Longrightarrow> now \<le> t \<Longrightarrow> sentBy t cs"
  by (induction now cs rule: sentBy.induct) auto

lemma sentBy_arrived: "sentBy now cs \<Longrightarrow> now \<le> deadline \<Longrightarrow> arrived deadline cs = allBytes cs"
  by (induction now cs rule: sentBy.induct) auto

lemma connRead_sentBy: "connRead deadline k now cs = (Some bs, now', cs') \<Longrightarrow> sentBy n0 cs \<Longrightarrow> sentBy n0 cs'"
  by (cases "(deadline, k, now, cs)" rule: connRead.cases) (auto split: if_splits)

lemma readFull_sentBy: "readFull deadline n buf now cs = (Some out, now', cs') \<Longrightarrow> sentBy n0 cs \<longrightarrow> sentBy n0 cs'"
  by (induction rule: readFull_reads) (auto dest: connRead_sentBy)

lemma readReply_sentBy: "readReply deadline now cs = (Some data, now', cs') \<Longrightarrow> sentBy n0 cs \<Longrightarrow> sentBy n0 cs'"
  unfolding readReply_def by (auto split: prod.splits option.splits dest!: readFull_sentBy)

lemma handleTCPConn_streamReply_None: "streamReply stream = None \<Longrightarrow> handleTCPConn u handler ip stream w = ([], w)"
  by (subst handleTCPConn.simps) (auto simp: streamReply_def Let_def split: if_splits)

lemma timedConn_ready:
  "sentBy now cs \<Longrightarrow> timedConn u handler clock ip now cs w = (replies, w', rest) \<Longrightarrow>
     handleTCPConn u handler ip (allBytes cs) w = (replies, w')"
proof (induction u handler clock ip now cs w arbitrary: replies w' rest rule: timedConn.induct)
  case (1 u handler clock ip now cs w)
  obtain x t1 cs1 where x: "readReply (now + tcpIdleTimeout) now cs = (x, t1, cs1)" by (metis prod_cases3)
  note step = "1.prems"(2) [unfolded timedConn.simps [of u handler clock ip now cs w] x prod.case]
  have later: "now \<le> now + tcpIdleTimeout" by (simp add: second_def)
  have all: "x = streamReply (allBytes cs)"
    using readReply_stream [OF x later] sentBy_arrived [OF "1.prems"(1) later] by simp
  show ?case
  proof (cases x)
    case None
    then show ?thesis using step handleTCPConn_streamReply_None all by auto
  next
    case (Some data)
    obtain b where b: "length b = 2" "length data = unat (be16 (b ! 0) (b ! 1))" "allBytes cs = b @ data @ allBytes cs1"
      using readReply_consumes [OF x [unfolded Some]] .
    note one = handleTCPConn_request [OF b(1,2), of u handler ip "allBytes cs1" w, folded b(3)]
    show ?thesis
    proof (cases "Unpack data")
      case (Inl e)
      then show ?thesis using step Some one by simp
    next
      case (Inr req)
      obtain msgs w1 where h: "handler (TCPAddr ip) req w = (msgs, w1)" by (meson surj_pair)
      obtain replies1 w2 rest1 where tc: "timedConn u handler clock ip (max t1 (clock w1)) cs1 w1 = (replies1, w2, rest1)" by (metis prod_cases3)
      have out: "replies = sent (tcpWriteMsg u (OPT req \<noteq> None)) msgs @ replies1" "w2 = w'"
        using step Some Inr h tc by auto
      have "now \<le> max t1 (clock w1)" using readReply_time [OF x] by auto
      then have "sentBy (max t1 (clock w1)) cs1" using sentBy_later readReply_sentBy [OF x [unfolded Some] "1.prems"(1)] by blast
      from "1.IH" [OF x [symmetric] Some refl Inr h [symmetric] this tc] show ?thesis using one by (simp add: Inr h out)
    qed
  qed
qed



end
