(* ===== verification/Server_Main.thy ===== *)
theory Server_Main
  imports Server_Exchange Server_Lifecycle
begin

text \<open>
  The start and the end of the server: \<open>ListenAndServe\<close> (\<open>dnsserver/server.go\<close>) with the sockets it
  opens and closes, and the \<open>main\<close> of \<open>cmd/server\<close> around it.  What the operating system answers
  when a socket is opened, and what \<open>Serve\<close> returns (\<open>Server_Lifecycle\<close>), are parameters.
\<close>

section \<open>Logging and timeouts\<close>

datatype logLevel = LevelDebug | LevelInfo | LevelWarn | LevelError

text \<open>\<open>newLogger\<close>: the level, and whether lines are written as JSON.\<close>

definition newLogger :: "config \<Rightarrow> logLevel \<times> bool" where
  "newLogger c =
     (if cfgLogLevel c = lit ''debug'' then LevelDebug
      else if cfgLogLevel c = lit ''warn'' then LevelWarn
      else if cfgLogLevel c = lit ''error'' then LevelError
      else LevelInfo,
      cfgLogFormat c = lit ''json'')"

fun levelName :: "logLevel \<Rightarrow> gostr" where
  "levelName LevelDebug = lit ''debug''"
| "levelName LevelInfo = lit ''info''"
| "levelName LevelWarn = lit ''warn''"
| "levelName LevelError = lit ''error''"

text \<open>The default branch of the switch is taken for one level only, once the configuration is valid.\<close>

lemma newLogger_level: "Validate u c = Inr () \<Longrightarrow> levelName (fst (newLogger c)) = cfgLogLevel c"
  by (auto simp: Validate_def newLogger_def bindR_def split: if_splits sum.splits option.splits)

definition queryTimeout :: "int \<Rightarrow> int" where
  "queryTimeout timeout = (if timeout > 0 then timeout else 10 * second)"

section \<open>Listening\<close>

datatype sock = UDPSock | TCPSock | TLSSock

datatype event = Opened sock gostr | Serving "sock list" | Closed sock

datatype listenErr = ErrResolveUDP | ErrListenUDP | ErrListenTCP | ErrListenTLS | ErrServe ioErr

record system =
  resolvesUDP :: "gostr \<Rightarrow> bool"
  canListen :: "sock \<Rightarrow> gostr \<Rightarrow> bool"
  serves :: "sock list \<Rightarrow> ioErr option"

text \<open>The deferred \<open>Close\<close> calls run in the reverse order, on every way out.\<close>

definition ListenAndServe :: "system \<Rightarrow> gostr \<Rightarrow> gostr \<Rightarrow> bool \<Rightarrow> event list \<times> listenErr option" where
  "ListenAndServe sys addr tlsAddr tlsConfig =
     (if \<not> resolvesUDP sys addr then ([], Some ErrResolveUDP)
      else if \<not> canListen sys UDPSock addr then ([], Some ErrListenUDP)
      else if \<not> canListen sys TCPSock addr then ([Opened UDPSock addr, Closed UDPSock], Some ErrListenTCP)
      else if tlsAddr \<noteq> [] \<and> tlsConfig then
        (if \<not> canListen sys TLSSock tlsAddr then
           ([Opened UDPSock addr, Opened TCPSock addr, Closed TCPSock, Closed UDPSock], Some ErrListenTLS)
         else let socks = [UDPSock, TCPSock, TLSSock] in
           ([Opened UDPSock addr, Opened TCPSock addr, Opened TLSSock tlsAddr, Serving socks,
             Closed TLSSock, Closed TCPSock, Closed UDPSock], map_option ErrServe (serves sys socks)))
      else let socks = [UDPSock, TCPSock] in
        ([Opened UDPSock addr, Opened TCPSock addr, Serving socks, Closed TCPSock, Closed UDPSock],
         map_option ErrServe (serves sys socks)))"

section \<open>The program\<close>

text \<open>
  \<open>main\<close>: the events and the exit code.  The certificate is loaded only if there is an address to
  listen on with TLS; \<open>loadKeyPair\<close> tells whether the two files are a certificate and its key.
\<close>

definition serverMain ::
  "'n env \<Rightarrow> ('n server \<Rightarrow> ipAddr list) \<Rightarrow> (gostr \<Rightarrow> byte list option) \<Rightarrow> (byte list \<Rightarrow> config \<Rightarrow> config option)
    \<Rightarrow> (gostr \<Rightarrow> gostr \<Rightarrow> bool) \<Rightarrow> system \<Rightarrow> gostr \<Rightarrow> gostr \<Rightarrow> event list \<times> nat" where
  "serverMain E clientOrder readFile unmarshal loadKeyPair sys configPath listen =
     (case startup E clientOrder readFile unmarshal configPath listen of
        Inl _ \<Rightarrow> ([], 1)
      | Inr (c, _) \<Rightarrow>
          if cfgTLSListen c \<noteq> [] \<and> \<not> loadKeyPair (cfgTLSCert c) (cfgTLSKey c) then ([], 1)
          else (case ListenAndServe sys (cfgListen c) (cfgTLSListen c) (cfgTLSListen c \<noteq> []) of
              (evs, Some _) \<Rightarrow> (evs, 1)
            | (evs, None) \<Rightarrow> (evs, 0)))"

section \<open>Facts\<close>

definition opens :: "event list \<Rightarrow> sock list" where
  "opens evs = List.map_filter (\<lambda>e. case e of Opened s _ \<Rightarrow> Some s | _ \<Rightarrow> None) evs"

definition closes :: "event list \<Rightarrow> sock list" where
  "closes evs = List.map_filter (\<lambda>e. case e of Closed s \<Rightarrow> Some s | _ \<Rightarrow> None) evs"

lemma opens_closes_simps [simp]:
  "opens [] = []" "opens (Opened s a # es) = s # opens es" "opens (Closed s # es) = opens es" "opens (Serving ss # es) = opens es"
  "closes [] = []" "closes (Opened s a # es) = closes es" "closes (Closed s # es) = s # closes es" "closes (Serving ss # es) = closes es"
  by (simp_all add: opens_def closes_def List.map_filter_simps)

lemma listen_balanced: "ListenAndServe sys addr tlsAddr tlsConfig = (evs, e) \<Longrightarrow> closes evs = rev (opens evs)"
  by (auto simp: ListenAndServe_def Let_def split: if_splits)

lemma listen_serving:
  "ListenAndServe sys addr tlsAddr tlsConfig = (evs, e) \<Longrightarrow> Serving socks \<in> set evs \<Longrightarrow>
     opens (takeWhile (\<lambda>e. e \<noteq> Serving socks) evs) = socks \<and> closes (takeWhile (\<lambda>e. e \<noteq> Serving socks) evs) = [] \<and>
     socks = (if tlsAddr \<noteq> [] \<and> tlsConfig then [UDPSock, TCPSock, TLSSock] else [UDPSock, TCPSock])"
  by (auto simp: ListenAndServe_def Let_def split: if_splits)

lemma listen_returns: "ListenAndServe sys addr tlsAddr tlsConfig = (evs, None) \<Longrightarrow> \<exists>socks. Serving socks \<in> set evs"
  by (auto simp: ListenAndServe_def Let_def split: if_splits)

lemma startup_valid:
  "startup E clientOrder readFile unmarshal configPath listen = Inr (c, r, h) \<Longrightarrow> Validate (unicodeOf E) c = Inr ()"
  by (auto simp: startup_def bindR_def Let_def split: sum.splits if_splits)

lemma Validate_tls: "Validate u c = Inr () \<Longrightarrow> cfgTLSListen c \<noteq> [] \<Longrightarrow> cfgTLSCert c \<noteq> [] \<and> cfgTLSKey c \<noteq> []"
  by (auto simp: Validate_def split: if_splits)

text \<open>
  The life of the program.  Whatever the files hold and the operating system refuses: every
  socket that is opened is closed again, in the reverse order; queries are served only under a
  configuration that was validated, when all its sockets are open, and over TLS too exactly if the
  configuration asks for it, with a certificate that was loaded; and the program exits with 0 only
  after it has served.
\<close>

theorem server_main:
  assumes run: "serverMain E clientOrder readFile unmarshal loadKeyPair sys configPath listen = (evs, code)"
  shows "closes evs = rev (opens evs) \<and> (code = 0 \<longrightarrow> (\<exists>socks. Serving socks \<in> set evs)) \<and>
    (\<forall>socks. Serving socks \<in> set evs \<longrightarrow>
       opens (takeWhile (\<lambda>e. e \<noteq> Serving socks) evs) = socks \<and> closes (takeWhile (\<lambda>e. e \<noteq> Serving socks) evs) = [] \<and>
       (\<exists>c r h. startup E clientOrder readFile unmarshal configPath listen = Inr (c, r, h) \<and>
          Validate (unicodeOf E) c = Inr () \<and>
          (TLSSock \<in> set socks \<longleftrightarrow> cfgTLSListen c \<noteq> []) \<and>
          (TLSSock \<in> set socks \<longrightarrow> loadKeyPair (cfgTLSCert c) (cfgTLSKey c))))"
proof (cases "startup E clientOrder readFile unmarshal configPath listen")
  case (Inl e)
  then show ?thesis using run by (simp add: serverMain_def)
next
  case (Inr x)
  obtain c r h where x: "x = (c, r, h)" by (metis prod_cases3)
  note valid = startup_valid [OF Inr [unfolded x]]
  show ?thesis
  proof (cases "cfgTLSListen c \<noteq> [] \<and> \<not> loadKeyPair (cfgTLSCert c) (cfgTLSKey c)")
    case True
    then show ?thesis using run Inr x by (simp add: serverMain_def)
  next
    case False
    obtain evs' e where l: "ListenAndServe sys (cfgListen c) (cfgTLSListen c) (cfgTLSListen c \<noteq> []) = (evs', e)" by (meson surj_pair)
    have evs: "evs' = evs" and code: "code = (if e = None then 0 else 1)"
      using run Inr x False l unfolding serverMain_def by (auto split: option.splits if_splits)
    have served: "opens (takeWhile (\<lambda>e. e \<noteq> Serving socks) evs) = socks \<and> closes (takeWhile (\<lambda>e. e \<noteq> Serving socks) evs) = [] \<and>
      (TLSSock \<in> set socks \<longleftrightarrow> cfgTLSListen c \<noteq> [])" if "Serving socks \<in> set evs" for socks
    proof -
      note s = listen_serving [OF l, of socks, unfolded evs, OF that]
      then have "TLSSock \<in> set socks \<longleftrightarrow> cfgTLSListen c \<noteq> []" by (cases "cfgTLSListen c = []") auto
      then show ?thesis using s by blast
    qed
    have "code = 0 \<longrightarrow> (\<exists>socks. Serving socks \<in> set evs)" using listen_returns l evs code by (auto split: if_splits)
    then show ?thesis using listen_balanced [OF l] served valid False Inr x unfolding evs by blast
  qed
qed

definition permissive :: system where
  "permissive = \<lparr>resolvesUDP = (\<lambda>_. True), canListen = (\<lambda>_ _. True), serves = (\<lambda>_. None)\<rparr>"

lemma startup_default: "\<exists>r h. startup E clientOrder readFile unmarshal [] [] = Inr (Default, r, h)"
proof -
  have "loadAnchors (unicodeOf E) readFile (cfgTrustAnchor Default) = Inr None" by (simp add: loadAnchors_def Default_def)
  from buildHandler_valid [OF Default_valid this] obtain allowed h
    where "buildHandler E clientOrder readFile Default = Inr (resolverOf Default None, h)" .
  then show ?thesis by (simp add: startup_def Load_def Default_valid)
qed

theorem server_main_witness:
  "\<exists>evs. serverMain scripted (\<lambda>_. []) (\<lambda>_. None) (\<lambda>_ _. None) (\<lambda>_ _. False) permissive [] [] = (evs, 0) \<and>
     opens evs = [UDPSock, TCPSock] \<and> closes evs = [TCPSock, UDPSock] \<and> Serving [UDPSock, TCPSock] \<in> set evs"
proof -
  obtain r h where st: "startup scripted (\<lambda>_. []) (\<lambda>_. None) (\<lambda>_ _. None) [] [] = Inr (Default, r, h)"
    using startup_default by blast
  let ?evs = "[Opened UDPSock (cfgListen Default), Opened TCPSock (cfgListen Default), Serving [UDPSock, TCPSock], Closed TCPSock, Closed UDPSock]"
  have run: "serverMain scripted (\<lambda>_. []) (\<lambda>_. None) (\<lambda>_ _. None) (\<lambda>_ _. False) permissive [] [] = (?evs, 0)"
    by (simp add: serverMain_def st ListenAndServe_def permissive_def Default_def)
  have "closes ?evs = rev (opens ?evs)" using server_main [OF run] by blast
  then show ?thesis using run by (intro exI [of _ ?evs]) simp
qed

end
