(* ===== verification/Duration_Text.thy ===== *)
theory Duration_Text
  imports Anchor_Facts
begin

text \<open>
  Durations in a configuration (\<open>Duration\<close> of \<open>config/config.go\<close>): how \<open>time.Duration\<close> is written
  and read as text, and that a duration survives being written to JSON and read back.  Quoting a
  text as JSON is a parameter.  \<open>ParseDuration\<close> scales fractions with \<open>float64\<close>; that is a
  parameter too, which is exact where the scale divides the unit.
\<close>

section \<open>Writing\<close>

definition digit :: "nat \<Rightarrow> byte" where
  "digit d = 48 + word_of_nat d"

text \<open>
  \<open>fmtFrac\<close>: the digits of a fraction from the last to the first, without zeros at the end; what
  is left of the number is its integral part.
\<close>

fun fmtFrac :: "nat \<Rightarrow> nat \<Rightarrow> bool \<Rightarrow> gostr \<Rightarrow> gostr \<times> nat" where
  "fmtFrac 0 v print acc = (if print then dot # acc else acc, v)"
| "fmtFrac (Suc prec) v print acc =
     (let d = v mod 10; print = (print \<or> d \<noteq> 0) in
      fmtFrac prec (v div 10) print (if print then digit d # acc else acc))"

definition fraction :: "nat \<Rightarrow> gostr \<Rightarrow> nat \<Rightarrow> gostr" where
  "fraction prec unit u = (case fmtFrac prec u False [] of (frac, v) \<Rightarrow> decimal v @ frac @ unit)"

definition durationText :: "nat \<Rightarrow> gostr" where
  "durationText u =
     (if u = 0 then lit ''0s''
      else if u < 10 ^ 3 then fraction 0 (lit ''ns'') u
      else if u < 10 ^ 6 then fraction 3 [0xC2, 0xB5, 115] u
      else if u < 10 ^ 9 then fraction 6 (lit ''ms'') u
      else case fmtFrac 9 u False [] of (frac, secs) \<Rightarrow>
        let s = decimal (secs mod 60) @ frac @ lit ''s''; mins = secs div 60 in
        if mins = 0 then s
        else let s = decimal (mins mod 60) @ lit ''m'' @ s; hours = mins div 60 in
          if hours = 0 then s else decimal hours @ lit ''h'' @ s)"

definition durationString :: "int \<Rightarrow> gostr" where
  "durationString d = (if d < 0 then 45 # durationText (nat (- d)) else durationText (nat d))"

section \<open>Reading\<close>

definition isDigit :: "byte \<Rightarrow> bool" where
  "isDigit b = (48 \<le> b \<and> b \<le> 57)"

definition digitsValue :: "gostr \<Rightarrow> nat" where
  "digitsValue ds = foldl (\<lambda>n b. 10 * n + (unat b - 48)) 0 ds"

text \<open>\<open>leadingFraction\<close>: digits that would not fit are read and left out.\<close>

definition fractionStep :: "nat \<times> nat \<times> bool \<Rightarrow> byte \<Rightarrow> nat \<times> nat \<times> bool" where
  "fractionStep st b =
     (case st of (x, scale, overflow) \<Rightarrow>
        if overflow then st
        else if x > (2 ^ 63 - 1) div 10 then (x, scale, True)
        else let y = 10 * x + (unat b - 48) in
          if y > 2 ^ 63 then (x, scale, True) else (y, 10 * scale, False))"

definition leadingFraction :: "gostr \<Rightarrow> nat \<times> nat" where
  "leadingFraction ds = (case foldl fractionStep (0, 1, False) ds of (x, scale, _) \<Rightarrow> (x, scale))"

definition unitOf :: "gostr \<Rightarrow> nat option" where
  "unitOf u =
     (if u = lit ''ns'' then Some 1
      else if u = lit ''us'' \<or> u = [0xC2, 0xB5, 115] \<or> u = [0xCE, 0xBC, 115] then Some (10 ^ 3)
      else if u = lit ''ms'' then Some (10 ^ 6)
      else if u = lit ''s'' then Some (10 ^ 9)
      else if u = lit ''m'' then Some (60 * 10 ^ 9)
      else if u = lit ''h'' then Some (3600 * 10 ^ 9)
      else None)"

text \<open>
  One turn of the loop: a number, perhaps with a fraction, and a unit; what they stand for and
  what is left of the text.  \<open>fl f unit scale\<close> is \<open>f\<close> times the quotient of the other two, in
  \<open>float64\<close>, truncated.
\<close>

definition parsePiece :: "(nat \<Rightarrow> nat \<Rightarrow> nat \<Rightarrow> nat) \<Rightarrow> gostr \<Rightarrow> (nat \<times> gostr) option" where
  "parsePiece fl s =
     (let ds = takeWhile isDigit s; s = drop (length ds) s;
          point = (s \<noteq> [] \<and> hd s = dot);
          fs = (if point then takeWhile isDigit (tl s) else []);
          s = (if point then drop (length fs) (tl s) else s);
          name = takeWhile (\<lambda>b. b \<noteq> dot \<and> \<not> isDigit b) s; s = drop (length name) s
      in if digitsValue ds > 2 ^ 63 then None
         else if ds = [] \<and> fs = [] then None
         else case unitOf name of
             None \<Rightarrow> None
           | Some unit \<Rightarrow>
               if digitsValue ds > 2 ^ 63 div unit then None
               else (case leadingFraction fs of (f, scale) \<Rightarrow>
                 let v = digitsValue ds * unit + (if f > 0 then fl f unit scale else 0) in
                 if v > 2 ^ 63 then None else Some (v, s)))"

lemma drop_takeWhile_eq: "drop (length (takeWhile P xs)) xs = dropWhile P xs"
  by (induction xs) auto

lemma unitOf_nil: "unitOf [] = None"
  by (simp add: unitOf_def lit_def)

lemma parsePiece_shorter: "parsePiece fl s = Some (v, rest) \<Longrightarrow> length rest < length s"
proof -
  assume p: "parsePiece fl s = Some (v, rest)"
  define s1 where "s1 = drop (length (takeWhile isDigit s)) s"
  define s2 where "s2 = (if s1 \<noteq> [] \<and> hd s1 = dot then drop (length (takeWhile isDigit (tl s1))) (tl s1) else s1)"
  define name where "name = takeWhile (\<lambda>b. b \<noteq> dot \<and> \<not> isDigit b) s2"
  have "length s2 \<le> length s" by (auto simp: s2_def s1_def)
  moreover have r: "rest = drop (length name) s2" "name \<noteq> []"
    using p unfolding parsePiece_def Let_def s1_def [symmetric]
    by (auto simp: s2_def name_def unitOf_nil split: if_splits option.splits prod.splits)
  moreover have "length name \<le> length s2" by (simp add: name_def length_takeWhile_le)
  ultimately show ?thesis by (cases name) auto
qed

function parseLoop :: "(nat \<Rightarrow> nat \<Rightarrow> nat \<Rightarrow> nat) \<Rightarrow> gostr \<Rightarrow> nat \<Rightarrow> nat option" where
  "parseLoop fl s d =
     (if s = [] then Some d
      else case parsePiece fl s of
          None \<Rightarrow> None
        | Some (v, rest) \<Rightarrow> if d + v > 2 ^ 63 then None else parseLoop fl rest (d + v))"
  by pat_completeness auto
termination
  by (relation "measure (\<lambda>(fl, s, d). length s)") (auto dest: parsePiece_shorter)

declare parseLoop.simps [simp del]

definition ParseDuration :: "(nat \<Rightarrow> nat \<Rightarrow> nat \<Rightarrow> nat) \<Rightarrow> gostr \<Rightarrow> int option" where
  "ParseDuration fl s =
     (let signed = (s \<noteq> [] \<and> (hd s = 45 \<or> hd s = 43)); neg = (signed \<and> hd s = 45);
          s = (if signed then tl s else s)
      in if s = lit ''0'' then Some 0
         else if s = [] then None
         else case parseLoop fl s 0 of
             None \<Rightarrow> None
           | Some d \<Rightarrow> if neg then Some (- int d) else if d > 2 ^ 63 - 1 then None else Some (int d))"

section \<open>In a configuration\<close>

datatype durationErr = ErrNotString | ErrDuration

definition MarshalJSON :: "(gostr \<Rightarrow> byte list) \<Rightarrow> int \<Rightarrow> byte list" where
  "MarshalJSON quote d = quote (durationString d)"

definition UnmarshalJSON ::
  "(byte list \<Rightarrow> gostr option) \<Rightarrow> (nat \<Rightarrow> nat \<Rightarrow> nat \<Rightarrow> nat) \<Rightarrow> byte list \<Rightarrow> durationErr + int" where
  "UnmarshalJSON unquote fl data =
     (case unquote data of
        None \<Rightarrow> Inl ErrNotString
      | Some s \<Rightarrow> (case ParseDuration fl s of None \<Rightarrow> Inl ErrDuration | Some d \<Rightarrow> Inr d))"

section \<open>Digits\<close>

fun pad :: "nat \<Rightarrow> nat \<Rightarrow> gostr" where
  "pad 0 v = []"
| "pad (Suc p) v = pad p (v div 10) @ [digit (v mod 10)]"

lemma digit_value: "d < 10 \<Longrightarrow> unat (digit d) - 48 = d" "d < 10 \<Longrightarrow> isDigit (digit d)"
  using unat_digit [of d] by (simp_all add: digit_def isDigit_def word_le_nat_alt)

lemma digitsValue_snoc: "d < 10 \<Longrightarrow> digitsValue (ds @ [digit d]) = 10 * digitsValue ds + d"
  using digit_value(1) [of d] by (simp add: digitsValue_def)

lemma digitsValue_decimal [simp]: "digitsValue (decimal n) = n"
  by (simp add: digitsValue_def foldl_decimal)

lemma decimal_isDigit: "list_all isDigit (decimal n)"
  using decimal_digits by (auto simp: list_all_iff isDigit_def)

lemma mod_step: "v mod 10 ^ Suc p = 10 * (v div 10 mod 10 ^ p) + v mod (10 :: nat)"
  by (simp add: mod_mult2_eq)

lemma pad_value: "digitsValue (pad p v) = v mod 10 ^ p \<and> list_all isDigit (pad p v) \<and> length (pad p v) = p"
proof (induction p arbitrary: v)
  case (Suc p)
  show ?case unfolding mod_step using Suc.IH [of "v div 10"] digitsValue_snoc [of "v mod 10"] digit_value(2) [of "v mod 10"] by simp
qed (simp add: digitsValue_def)

lemma fmtFrac_True: "fmtFrac p v True acc = (dot # pad p v @ acc, v div 10 ^ p)"
  by (induction p arbitrary: v acc) (simp_all add: Let_def div_mult2_eq)

text \<open>A fraction without its last zeros stands for the same.\<close>

definition fractionOf :: "nat \<Rightarrow> nat \<Rightarrow> gostr \<Rightarrow> bool" where
  "fractionOf p r t =
     (if r = 0 then t = []
      else \<exists>ds. t = dot # ds \<and> ds \<noteq> [] \<and> list_all isDigit ds \<and> length ds \<le> p \<and> digitsValue ds * 10 ^ (p - length ds) = r)"

lemma fmtFrac_False: "fmtFrac p v False [] = (t, q) \<Longrightarrow> q = v div 10 ^ p \<and> fractionOf p (v mod 10 ^ p) t"
proof (induction p arbitrary: v)
  case (Suc p)
  show ?case
  proof (cases "v mod 10 = 0")
    case True
    then have ih: "q = v div 10 div 10 ^ p" "fractionOf p (v div 10 mod 10 ^ p) t" using Suc.IH [of "v div 10"] Suc.prems by simp_all
    have "fractionOf (Suc p) (10 * (v div 10 mod 10 ^ p)) t"
      using ih(2) by (auto simp: fractionOf_def Suc_diff_le split: if_splits)
    then show ?thesis using ih(1) True unfolding mod_step by (simp add: div_mult2_eq)
  next
    case False
    then have t: "t = dot # pad p (v div 10) @ [digit (v mod 10)]" "q = v div 10 ^ Suc p"
      using Suc.prems by (simp_all add: Let_def fmtFrac_True div_mult2_eq)
    have "digitsValue (pad p (v div 10) @ [digit (v mod 10)]) = v mod 10 ^ Suc p"
      unfolding mod_step using pad_value [of p "v div 10"] digitsValue_snoc [of "v mod 10"] by simp
    moreover have "v mod 10 ^ Suc p \<noteq> 0" unfolding mod_step using False by simp
    ultimately show ?thesis using t pad_value [of p "v div 10"] digit_value(2) [of "v mod 10"] by (auto simp: fractionOf_def)
  qed
qed (simp add: fractionOf_def)

lemma digitsValue_bound: "list_all isDigit ds \<Longrightarrow> digitsValue ds < 10 ^ length ds"
proof (induction ds rule: rev_induct)
  case (snoc b ds)
  then have "unat b - 48 < 10" by (auto simp: isDigit_def word_le_nat_alt)
  moreover have "digitsValue ds < 10 ^ length ds" using snoc by simp
  ultimately show ?case by (simp add: digitsValue_def)
qed (simp add: digitsValue_def)

lemma leadingFraction_digits:
  "list_all isDigit ds \<Longrightarrow> length ds \<le> 9 \<Longrightarrow> leadingFraction ds = (digitsValue ds, 10 ^ length ds)"
proof -
  have "list_all isDigit ds \<Longrightarrow> length ds \<le> 9 \<Longrightarrow> foldl fractionStep (0, 1, False) ds = (digitsValue ds, 10 ^ length ds, False)"
  proof (induction ds rule: rev_induct)
    case (snoc b ds)
    have "digitsValue (ds @ [b]) < 10 ^ length (ds @ [b])" by (rule digitsValue_bound) (rule snoc.prems)
    also have "\<dots> \<le> (10 :: nat) ^ 9" by (rule power_increasing) (use snoc.prems in auto)
    finally have "10 * digitsValue ds + (unat b - 48) < 10 ^ 9" by (simp add: digitsValue_def)
    then show ?case using snoc by (simp add: fractionStep_def Let_def digitsValue_def)
  qed (simp add: digitsValue_def)
  then show "list_all isDigit ds \<Longrightarrow> length ds \<le> 9 \<Longrightarrow> ?thesis" by (simp add: leadingFraction_def)
qed

section \<open>Reading what was written\<close>

text \<open>What is asked of \<open>float64\<close>: a product that is an integer it can hold is exact.\<close>

definition exactScaling :: "(nat \<Rightarrow> nat \<Rightarrow> nat \<Rightarrow> nat) \<Rightarrow> bool" where
  "exactScaling fl = (\<forall>f unit scale. scale dvd unit \<longrightarrow> f * (unit div scale) < 2 ^ 53 \<longrightarrow> fl f unit scale = f * (unit div scale))"

definition unitName :: "gostr \<Rightarrow> bool" where
  "unitName u = (u \<noteq> [] \<and> list_all (\<lambda>b. b \<noteq> dot \<and> \<not> isDigit b) u)"

lemma takeWhile_stop: "list_all P xs \<Longrightarrow> ys = [] \<or> \<not> P (hd ys) \<Longrightarrow> takeWhile P (xs @ ys) = xs"
  by (cases ys) (auto simp: list_all_iff takeWhile_append2 takeWhile_eq_all_conv)

lemma dot_digit: "\<not> isDigit dot"
  by (simp add: isDigit_def dot_def)

lemma parsePiece_text:
  assumes name: "unitName name" "unitOf name = Some (10 ^ p * m)" "0 < m" and frac: "fractionOf p r fr" "p \<le> 9" "r < 10 ^ p" "r = 0 \<or> m = 1"
    and rest: "rest = [] \<or> isDigit (hd rest)" and fl: "exactScaling fl" and small: "v * (10 ^ p * m) + r \<le> 2 ^ 63"
  shows "parsePiece fl (decimal v @ fr @ name @ rest) = Some (v * (10 ^ p * m) + r, rest)"
proof -
  have head: "\<not> isDigit (hd (name @ tail))" "hd (name @ tail) \<noteq> dot" "name @ tail \<noteq> []" for tail
    using name(1) by (cases name; simp add: unitName_def)+
  have ds: "takeWhile isDigit (decimal v @ fr @ name @ rest) = decimal v"
    by (rule takeWhile_stop [OF decimal_isDigit]) (use frac(1) head dot_digit in \<open>auto simp: fractionOf_def split: if_splits\<close>)
  have nm: "takeWhile (\<lambda>b. b \<noteq> dot \<and> \<not> isDigit b) (name @ rest) = name"
    by (rule takeWhile_stop) (use name(1) rest in \<open>auto simp: unitName_def\<close>)
  have w: "v \<le> 2 ^ 63 div (10 ^ p * m)" using small name(3) by (simp add: less_eq_div_iff_mult_less_eq)
  have "v * 1 \<le> v * (10 ^ p * m)" using name(3) by (intro mult_le_mono2) simp
  then have v: "v \<le> 2 ^ 63" using small by linarith
  show ?thesis
  proof (cases "r = 0")
    case True
    then have "fr = []" using frac(1) by (simp add: fractionOf_def)
    then show ?thesis using ds nm head(2,3) [of rest] w v small True name(2) unfolding parsePiece_def
      by (simp add: Let_def leadingFraction_def)
  next
    case False
    then obtain fs where fs: "fr = dot # fs" "fs \<noteq> []" "list_all isDigit fs" "length fs \<le> p" "digitsValue fs * 10 ^ (p - length fs) = r"
      using frac(1) by (auto simp: fractionOf_def)
    have m: "m = 1" using frac(4) False by simp
    have tw: "takeWhile isDigit (fs @ name @ rest) = fs" by (rule takeWhile_stop [OF fs(3)]) (use head in auto)
    have lf: "leadingFraction fs = (digitsValue fs, 10 ^ length fs)" using leadingFraction_digits fs(3,4) frac(2) by simp
    have q: "10 ^ p div 10 ^ length fs = (10 :: nat) ^ (p - length fs)" using fs(4) by (simp add: power_diff)
    have "(10 :: nat) ^ p \<le> 10 ^ 9" using frac(2) by (intro power_increasing) auto
    then have "r < 2 ^ 53" using frac(3) by simp
    moreover have "(10 :: nat) ^ length fs dvd 10 ^ p" using fs(4) by (rule le_imp_power_dvd)
    ultimately have x: "fl (digitsValue fs) (10 ^ p) (10 ^ length fs) = r"
      using fl fs(5) q unfolding exactScaling_def by simp
    have "0 < digitsValue fs" using fs(5) False by (cases "digitsValue fs = 0") auto
    then show ?thesis using ds nm tw lf x w v small name(2) m unfolding parsePiece_def
      by (simp add: Let_def fs(1,2))
  qed
qed

lemma unit_names:
  "unitName (lit ''ns'')" "unitName [0xC2, 0xB5, 115]" "unitName (lit ''ms'')" "unitName (lit ''s'')"
  "unitName (lit ''m'')" "unitName (lit ''h'')"
  by (simp_all add: unitName_def lit_def isDigit_def dot_def)

lemma unit_values:
  "unitOf (lit ''ns'') = Some (10 ^ 0 * 1)" "unitOf [0xC2, 0xB5, 115] = Some (10 ^ 3 * 1)" "unitOf (lit ''ms'') = Some (10 ^ 6 * 1)"
  "unitOf (lit ''s'') = Some (10 ^ 9 * 1)" "unitOf (lit ''m'') = Some (10 ^ 9 * 60)" "unitOf (lit ''h'') = Some (10 ^ 9 * 3600)"
  by (simp_all add: unitOf_def lit_def)

lemma parseLoop_piece:
  "parsePiece fl s = Some (v, rest) \<Longrightarrow> d + v \<le> 2 ^ 63 \<Longrightarrow> parseLoop fl s d = parseLoop fl rest (d + v)"
  using parsePiece_shorter [of fl s v rest] by (subst parseLoop.simps) (cases s; auto)

lemma parseLoop_Nil [simp]: "parseLoop fl [] d = Some d"
  by (simp add: parseLoop.simps)

text \<open>The last piece, with a fraction of its unit.\<close>

lemma parseLoop_last:
  assumes "unitName name" "unitOf name = Some (10 ^ p * 1)" "p \<le> 9" "fmtFrac p u False [] = (frac, q)" "exactScaling fl"
    and "d + (v * 10 ^ p + u mod 10 ^ p) \<le> 2 ^ 63"
  shows "parseLoop fl (decimal v @ frac @ name) d = Some (d + (v * 10 ^ p + u mod 10 ^ p))"
proof -
  have "fractionOf p (u mod 10 ^ p) frac" using fmtFrac_False [OF assms(4)] by simp
  then have "parsePiece fl (decimal v @ frac @ name @ []) = Some (v * (10 ^ p * 1) + u mod 10 ^ p, [])"
    using assms by (intro parsePiece_text) auto
  then show ?thesis using parseLoop_piece [of fl "decimal v @ frac @ name" "v * 10 ^ p + u mod 10 ^ p" "[]" d] assms(6) by simp
qed

text \<open>A piece before others, without a fraction.\<close>

lemma parseLoop_first:
  assumes "unitName name" "unitOf name = Some (10 ^ 9 * m)" "0 < m" "exactScaling fl" "rest \<noteq> []" "isDigit (hd rest)"
    and "d + v * (10 ^ 9 * m) \<le> 2 ^ 63"
  shows "parseLoop fl (decimal v @ name @ rest) d = parseLoop fl rest (d + v * (10 ^ 9 * m))"
proof -
  have "parsePiece fl (decimal v @ [] @ name @ rest) = Some (v * (10 ^ 9 * m) + 0, rest)"
  proof (rule parsePiece_text [OF assms(1,2,3) _ _ _ _ _ assms(4)])
    show "v * (10 ^ 9 * m) + 0 \<le> 2 ^ 63" using assms(7) by linarith
  qed (use assms(6) in \<open>simp_all add: fractionOf_def\<close>)
  then show ?thesis using parseLoop_piece [of fl "decimal v @ name @ rest" "v * (10 ^ 9 * m)" rest d] assms(7) by simp
qed

lemma decimal_head: "isDigit (hd (decimal n @ rest))"
  using decimal_isDigit [of n] by (cases "decimal n") (auto simp: list_all_iff)

lemma decimal_start: "isDigit (hd (decimal n))"
  using decimal_head [of n "[]"] by simp

lemma fraction_back:
  assumes "unitName name" "unitOf name = Some (10 ^ p * 1)" "p \<le> 9" "exactScaling fl" "u \<le> 2 ^ 63"
  shows "parseLoop fl (fraction p name u) 0 = Some u"
proof -
  obtain frac q where f: "fmtFrac p u False [] = (frac, q)" by (meson surj_pair)
  have "q = u div 10 ^ p" using fmtFrac_False [OF f] by simp
  then have "0 + (q * 10 ^ p + u mod 10 ^ p) = u" by (simp only: div_mult_mod_eq add_0)
  then show ?thesis using parseLoop_last [OF assms(1-3) f assms(4), of 0 q] assms(5) by (simp only: fraction_def f prod.case)
qed

lemma in_units:
  "h * 3600 + (m * 60 + s) = secs \<Longrightarrow> secs * n + r = u \<Longrightarrow> h * (n * 3600) + (m * (n * 60) + (s * n + r)) = (u :: nat)"
  by (auto simp: algebra_simps)

lemma seconds_back:
  assumes "10 ^ 9 \<le> u" "u \<le> 2 ^ 63" "exactScaling fl"
  shows "parseLoop fl (durationText u) 0 = Some u"
proof -
  obtain frac secs where f: "fmtFrac 9 u False [] = (frac, secs)" by (meson surj_pair)
  have secs: "secs = u div 10 ^ 9" using fmtFrac_False [OF f] by simp
  define s m h where "s = secs mod 60" and "m = secs div 60 mod 60" and "h = secs div 60 div 60"
  let ?r = "u mod 10 ^ 9"
  let ?s = "decimal s @ frac @ lit ''s''"
  let ?S = "s * 10 ^ 9 + ?r" and ?M = "m * (10 ^ 9 * 60)" and ?H = "h * (10 ^ 9 * 3600)"
  have u: "?H + (?M + ?S) = u"
  proof -
    have "h * 60 + m = secs div 60" "secs div 60 * 60 + s = secs" unfolding s_def m_def h_def by (rule div_mult_mod_eq)+
    then have "h * 3600 + (m * 60 + s) = secs" by linarith
    moreover have "secs * 10 ^ 9 + ?r = u" unfolding secs by (rule div_mult_mod_eq)
    ultimately show ?thesis by (rule in_units)
  qed
  have last: "parseLoop fl ?s d = Some (d + ?S)" if "d + ?S \<le> 2 ^ 63" for d
    by (rule parseLoop_last [OF unit_names(4) unit_values(4) _ f assms(3) that]) simp
  have two: "parseLoop fl (decimal m @ lit ''m'' @ ?s) d = Some (d + (?M + ?S))" if "d + (?M + ?S) \<le> 2 ^ 63" for d
  proof -
    have le: "d + ?M \<le> 2 ^ 63" "d + ?M + ?S \<le> 2 ^ 63" using that by linarith+
    have "parseLoop fl (decimal m @ lit ''m'' @ ?s) d = parseLoop fl ?s (d + ?M)"
      by (rule parseLoop_first [OF unit_names(5) unit_values(5) _ assms(3) _ _ le(1)]) (simp_all add: decimal_head decimal_start)
    then show ?thesis using last [OF le(2)] by (simp only: add.assoc)
  qed
  have shown: "durationText u = (if secs div 60 = 0 then ?s else if h = 0 then decimal m @ lit ''m'' @ ?s
    else decimal h @ lit ''h'' @ decimal m @ lit ''m'' @ ?s)"
    using assms(1) by (simp add: durationText_def f Let_def s_def m_def h_def)
  consider "secs div 60 = 0" | "secs div 60 \<noteq> 0" "h = 0" | "h \<noteq> 0" by blast
  then show ?thesis
  proof cases
    case 1
    then have "m = 0" "h = 0" by (simp_all add: m_def h_def)
    then have "0 + ?S = u" using u by simp
    then show ?thesis using last [of 0] assms(2) unfolding shown if_P [OF 1] by (simp only:)
  next
    case 2
    then have "0 + (?M + ?S) = u" using u by simp
    then show ?thesis using two [of 0] assms(2) unfolding shown if_not_P [OF 2(1)] if_P [OF 2(2)] by (simp only:)
  next
    case 3
    then have ne: "secs div 60 \<noteq> 0" unfolding h_def by auto
    have le: "0 + ?H \<le> 2 ^ 63" "0 + ?H + (?M + ?S) \<le> 2 ^ 63" using u assms(2) by linarith+
    have "parseLoop fl (decimal h @ lit ''h'' @ decimal m @ lit ''m'' @ ?s) 0 = parseLoop fl (decimal m @ lit ''m'' @ ?s) (0 + ?H)"
      by (rule parseLoop_first [OF unit_names(6) unit_values(6) _ assms(3) _ _ le(1)]) (simp_all add: decimal_head decimal_start)
    then show ?thesis using two [OF le(2)] u unfolding shown if_not_P [OF ne] if_not_P [OF 3] by (simp only: add_0)
  qed
qed

lemma durationText_back:
  assumes "u \<le> 2 ^ 63" "exactScaling fl"
  shows "parseLoop fl (durationText u) 0 = Some u"
proof -
  consider "u = 0" | "0 < u" "u < 10 ^ 3" | "10 ^ 3 \<le> u" "u < 10 ^ 6" | "10 ^ 6 \<le> u" "u < 10 ^ 9" | "10 ^ 9 \<le> u" by linarith
  then show ?thesis
  proof cases
    case 1
    have "lit ''0s'' = decimal 0 @ [] @ lit ''s''" by (simp add: lit_def decimal.simps)
    moreover have "parsePiece fl (decimal 0 @ [] @ lit ''s'' @ []) = Some (0 * (10 ^ 9 * 1) + 0, [])"
      by (rule parsePiece_text [OF unit_names(4) unit_values(4)]) (use assms(2) in \<open>auto simp: fractionOf_def\<close>)
    ultimately show ?thesis using parseLoop_piece [of fl "lit ''0s''" 0 "[]" 0] 1 by (simp add: durationText_def)
  next
    case 2
    then show ?thesis using fraction_back [OF unit_names(1) unit_values(1) _ assms(2,1)] by (simp add: durationText_def)
  next
    case 3
    then show ?thesis using fraction_back [OF unit_names(2) unit_values(2) _ assms(2,1)] by (simp add: durationText_def)
  next
    case 4
    then show ?thesis using fraction_back [OF unit_names(3) unit_values(3) _ assms(2,1)] by (simp add: durationText_def)
  qed (use seconds_back assms in blast)
qed

lemma fraction_ends: "name \<noteq> [] \<Longrightarrow> last (fraction p name u) = last name \<and> fraction p name u \<noteq> []"
  by (simp add: fraction_def split: prod.split)

lemma fraction_starts: "isDigit (hd (fraction p name u))"
  by (simp add: fraction_def decimal_start split: prod.split)

text \<open>The text ends in the letter s, and starts with a digit.\<close>

lemma durationText_shape: "durationText u \<noteq> [] \<and> last (durationText u) = 115 \<and> isDigit (hd (durationText u))"
proof (cases "u < 10 ^ 9")
  case True
  then show ?thesis using fraction_ends [of _ _ u] fraction_starts [of _ _ u]
    unfolding durationText_def by (simp add: lit_def isDigit_def [of 48])
next
  case False
  then have "\<not> u < 10 ^ 3" "\<not> u < 10 ^ 6" "u \<noteq> 0" by auto
  then show ?thesis using False unfolding durationText_def by (simp add: Let_def lit_def decimal_start split: prod.split)
qed

lemma ParseDuration_back:
  assumes "- (2 ^ 63) \<le> d" "d < 2 ^ 63" "exactScaling fl"
  shows "ParseDuration fl (durationString d) = Some d"
proof -
  let ?t = "durationText (nat (if d < 0 then - d else d))"
  have t: "?t \<noteq> []" "?t \<noteq> lit ''0''" "hd ?t \<noteq> 45" "hd ?t \<noteq> 43"
    using durationText_shape [of "nat (if d < 0 then - d else d)"] by (auto simp: lit_def isDigit_def)
  have loop: "parseLoop fl ?t 0 = Some (nat (if d < 0 then - d else d))"
    by (rule durationText_back [OF _ assms(3)]) (use assms(1,2) in auto)
  show ?thesis
  proof (cases "d < 0")
    case True
    then show ?thesis using t loop by (simp add: ParseDuration_def durationString_def Let_def)
  next
    case False
    then have "nat d \<le> 2 ^ 63 - 1" using assms(2) by simp
    then show ?thesis using t loop False by (simp add: ParseDuration_def durationString_def Let_def)
  qed
qed

text \<open>
  Durations in a configuration.  Every duration of 64 bits, written to JSON and read back, is
  the same duration, provided that JSON gives a text back as it was and \<open>float64\<close> is exact on
  integers it can hold.
\<close>

theorem duration_roundtrip:
  assumes "- (2 ^ 63) \<le> d" "d < 2 ^ 63"
    and "exactScaling fl" "unquote (quote (durationString d)) = Some (durationString d)"
  shows "UnmarshalJSON unquote fl (MarshalJSON quote d) = Inr d"
  using ParseDuration_back [OF assms(1-3)] assms(4) by (simp add: UnmarshalJSON_def MarshalJSON_def)

text \<open>One and a half seconds less than an hour.\<close>

definition inQuotes :: "gostr \<Rightarrow> byte list" where
  "inQuotes s = 34 # s @ [34]"

definition outOfQuotes :: "byte list \<Rightarrow> gostr option" where
  "outOfQuotes data = (if length data < 2 \<or> hd data \<noteq> 34 \<or> last data \<noteq> 34 then None else Some (butlast (tl data)))"

theorem duration_roundtrip_witness:
  "MarshalJSON inQuotes 3598500000000 = inQuotes (lit ''59m58.5s'') \<and>
   UnmarshalJSON outOfQuotes (\<lambda>f unit scale. f * unit div scale) (inQuotes (lit ''59m58.5s'')) = Inr 3598500000000"
proof -
  have nine: "(9 :: nat) = Suc (Suc (Suc (Suc (Suc (Suc (Suc (Suc (Suc 0))))))))" by simp
  have f: "fmtFrac 9 3598500000000 False [] = (dot # digit 5 # [], 3598)"
    unfolding nine by (simp add: Let_def)
  have d: "decimal 58 = lit ''58''" "decimal 59 = lit ''59''"
    by (simp_all add: decimal.simps lit_def)
  have shown: "durationString 3598500000000 = lit ''59m58.5s''"
    unfolding durationString_def durationText_def by (simp add: f d digit_def lit_def dot_def)
  have "exactScaling (\<lambda>f unit scale. f * unit div scale)" by (auto simp: exactScaling_def div_mult_swap)
  from duration_roundtrip [OF _ _ this, of 3598500000000 outOfQuotes inQuotes]
  show ?thesis by (simp add: MarshalJSON_def shown inQuotes_def outOfQuotes_def)
qed

end
